(* ===== verification/Prelude.thy ===== *)
theory Prelude
  imports Main "HOL-Library.Word" "HOL-Library.Signed_Division"
begin

unbundle bit_operations_syntax

text \<open>
  Shared vocabulary of the development: the machine integers and identifiers of
  \<^verbatim>\<open>internal/protocol\<close>, Go errors as values, byte readers and writers, and the generic
  lemmas on words and lists that the component theories use.

  A \<^verbatim>\<open>bytes.Reader\<close> is the list of the bytes not read yet; a function that reads takes that
  list and returns either an error or a value with the remaining bytes. A function that appends
  to a \<^verbatim>\<open>bytes.Buffer\<close> returns the bytes it appends. A Go panic is the error \<open>Panic\<close>.
\<close>

named_theorems codec \<open>reading back what a writer produced\<close>
named_theorems wire_defs \<open>definitions of the wire formats, for unfolding\<close>

section \<open>Machine integers and identifiers\<close>

type_synonym byte = "8 word"
type_synonym u16 = "16 word"
type_synonym u32 = "32 word"
type_synonym u64 = "64 word"

type_synonym PacketNumber = u64
type_synonym PacketNumberLen = "8 word"
type_synonym ConnectionID = u64
type_synonym StreamID = u32
type_synonym PathID = "8 word"
type_synonym ByteCount = u64
type_synonym VersionNumber = int
type_synonym ErrorCode = u32

text \<open>A \<^verbatim>\<open>time.Duration\<close> or a \<^verbatim>\<open>time.Time\<close> is a number of nanoseconds.\<close>

type_synonym Duration = int
type_synonym Time = int

definition zeroTime :: Time where "zeroTime = 0"

text \<open>\<^verbatim>\<open>Time.Sub\<close> saturates at the ends of the 64-bit range of a duration.\<close>

definition time_Sub :: "Time \<Rightarrow> Time \<Rightarrow> Duration" where
  "time_Sub t u = max (- (2 ^ 63)) (min (2 ^ 63 - 1) (t - u))"

datatype Perspective = PerspectiveServer | PerspectiveClient

section \<open>Errors\<close>

text \<open>
  \<open>ErrNew\<close> is \<^verbatim>\<open>errors.New\<close>; \<open>Code\<close> is a bare \<^verbatim>\<open>qerr.ErrorCode\<close> used as an error;
  \<open>QuicError\<close> is \<^verbatim>\<open>qerr.Error\<close> with a constant message, \<open>QuicErrorf\<close> with a message
  formatted from integer arguments, and \<open>QuicErrorWrap\<close> with the text of another error.
\<close>

datatype error =
    EOF
  | UnexpectedEOF
  | Panic string
  | ErrNew string
  | Code ErrorCode
  | QuicError ErrorCode string
  | QuicErrorf ErrorCode string "int list"
  | QuicErrorWrap ErrorCode error

definition bind_r :: "'e + 'a \<Rightarrow> ('a \<Rightarrow> 'e + 'b) \<Rightarrow> 'e + 'b" where
  "bind_r m f = (case m of Inl e \<Rightarrow> Inl e | Inr x \<Rightarrow> f x)"

lemma bind_r_simps [simp]:
  "bind_r (Inl e) f = Inl e"
  "bind_r (Inr x) f = f x"
  by (simp_all add: bind_r_def)

lemma bind_r_eq_Inr: "bind_r m f = Inr y \<longleftrightarrow> (\<exists>x. m = Inr x \<and> f x = Inr y)"
  by (cases m) auto

lemma bind_r_eq_Inl: "bind_r m f = Inl e \<longleftrightarrow> m = Inl e \<or> (\<exists>x. m = Inr x \<and> f x = Inl e)"
  by (cases m) auto

text \<open>A method that changes its receiver and may return an error keeps the changes made before the error.\<close>

definition andThen :: "'e option \<times> 's \<Rightarrow> ('s \<Rightarrow> 'e option \<times> 's) \<Rightarrow> 'e option \<times> 's" where
  "andThen m f = (case m of (None, s) \<Rightarrow> f s | (Some e, s) \<Rightarrow> (Some e, s))"

lemma andThen_simps [simp]:
  "andThen (None, s) f = f s"
  "andThen (Some e, s) f = (Some e, s)"
  by (simp_all add: andThen_def)

lemma andThen_None: "andThen m f = (None, s') \<longleftrightarrow> (\<exists>s. m = (None, s) \<and> f s = (None, s'))"
  by (cases m; cases "fst m") auto

section \<open>Byte readers\<close>

type_synonym 'a parser = "byte list \<Rightarrow> error + ('a \<times> byte list)"

definition return_p :: "'a \<Rightarrow> 'a parser" where
  "return_p x = (\<lambda>r. Inr (x, r))"

definition fail_p :: "error \<Rightarrow> 'a parser" where
  "fail_p e = (\<lambda>r. Inl e)"

definition bind_p :: "'a parser \<Rightarrow> ('a \<Rightarrow> 'b parser) \<Rightarrow> 'b parser" where
  "bind_p p f = (\<lambda>r. case p r of Inl e \<Rightarrow> Inl e | Inr (x, r') \<Rightarrow> f x r')"

lemma return_p_apply [simp]: "return_p x r = Inr (x, r)"
  by (simp add: return_p_def)

lemma fail_p_apply [simp]: "fail_p e r = Inl e"
  by (simp add: fail_p_def)

lemma bind_p_apply: "bind_p p f r = (case p r of Inl e \<Rightarrow> Inl e | Inr (x, r') \<Rightarrow> f x r')"
  by (simp add: bind_p_def)

lemma bind_p_eq_Inr:
  "bind_p p f r = Inr y \<longleftrightarrow> (\<exists>x r'. p r = Inr (x, r') \<and> f x r' = Inr y)"
  by (auto simp: bind_p_def split: sum.splits)

lemma guard_eq_Inr:
  "(if c then fail_p e else p) r = Inr y \<longleftrightarrow> \<not> c \<and> p r = Inr y"
  by simp

lemma bind_p_return [simp]: "bind_p (return_p x) f = f x"
  by (simp add: bind_p_def fun_eq_iff)

lemma bind_p_assoc: "bind_p (bind_p p f) g = bind_p p (\<lambda>x. bind_p (f x) g)"
  by (auto simp: bind_p_def fun_eq_iff split: sum.splits)

text \<open>\<^verbatim>\<open>bytes.Reader.ReadByte\<close> and \<^verbatim>\<open>io.ReadFull\<close> into a slice of \<open>n\<close> bytes.\<close>

fun ReadByte :: "byte parser" where
  "ReadByte [] = Inl EOF"
| "ReadByte (b # r) = Inr (b, r)"

definition ReadFull :: "nat \<Rightarrow> byte list parser" where
  "ReadFull n r =
     (if n \<le> length r then Inr (take n r, drop n r)
      else if r = [] then Inl EOF else Inl UnexpectedEOF)"

lemma ReadFull_append [simp, codec]: "length bs = n \<Longrightarrow> ReadFull n (bs @ r) = Inr (bs, r)"
  by (simp add: ReadFull_def)

lemma ReadFull_all [simp]: "ReadFull (length bs) bs = Inr (bs, [])"
  by (simp add: ReadFull_def)

text \<open>A parser that takes bytes from the front of its input and leaves the rest as it is.\<close>

definition consumes :: "'a parser \<Rightarrow> bool" where
  "consumes p \<longleftrightarrow> (\<forall>r x r'. p r = Inr (x, r') \<longrightarrow> (\<exists>pre. r = pre @ r'))"

lemma consumesE:
  assumes "consumes p" "p r = Inr (x, r')"
  obtains pre where "r = pre @ r'"
  using assms unfolding consumes_def by blast

named_theorems consumes_intros \<open>parsers that take bytes from the front of their input\<close>

lemma consumes_return [consumes_intros, intro!]: "consumes (return_p x)"
  by (auto simp: consumes_def)

lemma consumes_fail [consumes_intros, intro!]: "consumes (fail_p e)"
  by (auto simp: consumes_def)

lemma consumes_bind [consumes_intros]:
  "consumes p \<Longrightarrow> (\<And>x. consumes (f x)) \<Longrightarrow> consumes (bind_p p f)"
  by (fastforce simp: consumes_def bind_p_eq_Inr)

lemma consumes_if [consumes_intros]:
  "(b \<Longrightarrow> consumes p) \<Longrightarrow> (\<not> b \<Longrightarrow> consumes q) \<Longrightarrow> consumes (if b then p else q)"
  by simp

lemma ReadByte_shorter: "ReadByte r = Inr (b, r') \<Longrightarrow> r = b # r'"
  by (cases r) auto

lemma consumes_ReadByte [consumes_intros, intro!]: "consumes ReadByte"
  by (auto simp: consumes_def dest: ReadByte_shorter)

lemma consumes_ReadFull [consumes_intros, intro!]: "consumes (ReadFull n)"
  unfolding consumes_def ReadFull_def by (metis append_take_drop_id old.sum.distinct(1) prod.inject sum.inject(2))

lemma consumes_case_prod [consumes_intros]:
  "(\<And>a b. consumes (f a b)) \<Longrightarrow> consumes (case p of (a, b) \<Rightarrow> f a b)"
  by (cases p) simp

text \<open>Every frame parser starts with a byte, so a parsed frame takes a nonempty prefix of the input.\<close>

lemma first_byte_taken:
  assumes "bind_p ReadByte f s = Inr (x, r)" "\<And>b. consumes (f b)"
  shows "\<exists>pre. pre \<noteq> [] \<and> s = pre @ r"
proof -
  obtain b s' where s: "s = b # s'" "f b s' = Inr (x, r)"
    using assms(1) by (auto simp: bind_p_eq_Inr dest: ReadByte_shorter)
  obtain pre where "s' = pre @ r" using consumesE [OF assms(2) s(2)] .
  with s(1) show ?thesis by simp
qed

section \<open>Words\<close>

text \<open>Facts about the unsigned value of a word, in the form the component proofs use.\<close>

lemma unat_add_noov:
  fixes a b :: "'a::len word"
  shows "unat a + unat b < 2 ^ LENGTH('a) \<Longrightarrow> unat (a + b) = unat a + unat b"
  by (simp add: unat_word_ariths)

lemma unat_ucast_up [simp]:
  fixes x :: "'a::len word"
  shows "LENGTH('a) \<le> LENGTH('b::len) \<Longrightarrow> unat (ucast x :: 'b word) = unat x"
proof -
  assume le: "LENGTH('a) \<le> LENGTH('b)"
  have "unat x < 2 ^ LENGTH('a)" by simp
  also have "(2::nat) ^ LENGTH('a) \<le> 2 ^ LENGTH('b)"
    using le by (rule power_increasing) simp
  finally show ?thesis
    by (simp add: unsigned_ucast_eq take_bit_nat_eq_self)
qed

lemma word_xor_disjoint_add:
  fixes a b :: "'a::len word"
  shows "take_bit n a = a \<Longrightarrow> a + push_bit n b = a XOR push_bit n b"
proof -
  assume a: "take_bit n a = a"
  have "take_bit n a AND push_bit n b = 0"
    by (rule bit_word_eqI) (auto simp: bit_simps)
  with a have "a AND push_bit n b = 0" by simp
  then show ?thesis by (rule disjunctive_add_eq_xor)
qed

lemma take_bit_xor_next:
  fixes x :: "'a::len word"
  shows "take_bit n x XOR push_bit n (take_bit k (drop_bit n x)) = take_bit (n + k) x"
  by (rule bit_word_eqI) (auto simp: bit_simps)

lemma take_bit_eq_self_less:
  fixes x :: "'a::len word"
  shows "x < 2 ^ n \<Longrightarrow> n < LENGTH('a) \<Longrightarrow> take_bit n x = x"
  by (metis less_mask_eq take_bit_eq_mask)

lemma unat_drop_bit: "unat (drop_bit n (x :: 'a::len word)) = unat x div 2 ^ n"
  unfolding unat_drop_bit_eq by (simp add: drop_bit_eq_div)

lemma unat_two_power: "n < LENGTH('a::len) \<Longrightarrow> unat (2 ^ n :: 'a word) = 2 ^ n"
proof -
  assume "n < LENGTH('a)"
  then have "(2::nat) ^ n < 2 ^ LENGTH('a)" by simp
  moreover have "(2 ^ n :: 'a word) = of_nat (2 ^ n)" by simp
  ultimately show ?thesis by (metis mod_less unat_of_nat)
qed

lemma two_power_le_word: "n < LENGTH('a::len) \<Longrightarrow> (2 ^ n \<le> (x :: 'a word)) = (2 ^ n \<le> unat x)"
  by (simp add: word_le_nat_alt unat_two_power)

lemma less_two_power_word: "n < LENGTH('a::len) \<Longrightarrow> ((x :: 'a word) < 2 ^ n) = (unat x < 2 ^ n)"
  by (simp add: word_less_nat_alt unat_two_power)

lemma unat_push_bit_noov:
  fixes x :: "'a::len word"
  assumes "unat x * 2 ^ n < 2 ^ LENGTH('a)"
  shows "unat (push_bit n x) = unat x * 2 ^ n"
proof (cases "n < LENGTH('a)")
  case True
  with assms show ?thesis
    by (simp add: push_bit_eq_mult unat_word_ariths unat_two_power)
next
  case False
  then have "(2::nat) ^ LENGTH('a) \<le> 2 ^ n" by simp
  with assms have "x = 0" by (cases "unat x") (auto simp: unat_eq_zero)
  then show ?thesis by simp
qed

lemma unat_take_bit: "unat (take_bit n (x :: 'a::len word)) = unat x mod 2 ^ n"
  unfolding unsigned_take_bit_eq by (simp add: take_bit_eq_mod)

text \<open>The test \<open>a + b < a\<close> detects a sum that wraps around.\<close>

lemma unat_add_wrap:
  fixes a b :: "'a::len word"
  assumes "\<not> a + b < a"
  shows "unat a + unat b < 2 ^ LENGTH('a)"
proof (rule ccontr)
  assume ov: "\<not> unat a + unat b < 2 ^ LENGTH('a)"
  have "unat a < 2 ^ LENGTH('a)" "unat b < 2 ^ LENGTH('a)" by (rule unsigned_less)+
  moreover from this have "unat a + unat b - 2 ^ LENGTH('a) < 2 ^ LENGTH('a)" by linarith
  ultimately have "unat (a + b) = unat a + unat b - 2 ^ LENGTH('a)"
    using ov le_mod_geq [of "2 ^ LENGTH('a)" "unat a + unat b"] by (simp add: unat_word_ariths(1) not_less)
  with ov \<open>unat b < 2 ^ LENGTH('a)\<close> assms show False unfolding word_less_nat_alt by linarith
qed

lemma unat_max: "unat (- 1 :: 'a::len word) = 2 ^ LENGTH('a) - 1"
  by (simp add: unsigned_minus_1_eq_mask mask_eq_exp_minus_1)

lemma unat_succ:
  assumes "(x :: 'a::len word) \<noteq> - 1"
  shows "unat (x + 1) = unat x + 1"
proof (rule trans [OF unat_add_noov])
  have "unat x \<noteq> 2 ^ LENGTH('a) - 1" using assms by (simp add: word_unat_eq_iff unat_max)
  moreover have "unat x < 2 ^ LENGTH('a)" by (rule unsigned_less)
  ultimately show "unat x + unat (1 :: 'a word) < 2 ^ LENGTH('a)" unfolding unat_1 by linarith
qed simp

text \<open>A conversion to a narrower word loses nothing when the value fits.\<close>

lemma ucast_narrow:
  fixes x :: "'a::len word"
  assumes "unat x < 2 ^ LENGTH('b::len)"
  shows "ucast (ucast x :: 'b word) = (ucast x :: 'c::len word)"
proof -
  have "unat (ucast x :: 'b word) = unat x"
    using assms by (simp add: unsigned_ucast_eq take_bit_nat_eq_self)
  then show ?thesis by (metis of_nat_unat)
qed

lemma sint_small:
  assumes "unat (x :: u64) < 2 ^ 63"
  shows "sint x = int (unat x)"
proof -
  have "int (unat x) < int (2 ^ 63)" using assms by (simp only: of_nat_less_iff)
  then have "uint x < 2 ^ 63" "- (2 ^ 63) \<le> uint x" by (simp_all add: order_trans [OF _ unsigned_greater_eq])
  then show ?thesis by (simp add: sint_uint signed_take_bit_int_eq_self_iff)
qed

end
