(* ===== verification/ByteOrder.thy ===== *)
theory ByteOrder
  imports Prelude
begin

text \<open>
  \<^verbatim>\<open>internal/utils\<close>: the two implementations of the interface \<^verbatim>\<open>ByteOrder\<close>, which convert
  between byte sequences and unsigned integers, and the choice between them by QUIC version.
  The laws a \<^verbatim>\<open>ByteOrder\<close> promises to the frame formats are the locale \<open>byte_order_laws\<close>; both
  implementations, and the implementation selected for any version, satisfy it.
\<close>

section \<open>The two implementations\<close>

datatype ByteOrder = LittleEndian | BigEndian

definition GetByteOrder :: "VersionNumber \<Rightarrow> ByteOrder" where
  "GetByteOrder v = (if v < 39 then LittleEndian else BigEndian)"

subsection \<open>Little endian\<close>

text \<open>
  \<^verbatim>\<open>for i := uint8(0); i < length; i++\<close>: the loop counter and the remaining number of
  iterations; the shift amount \<^verbatim>\<open>i * 8\<close> is computed in \<^verbatim>\<open>uint8\<close>.
\<close>

fun littleEndian_ReadUintN_loop :: "nat \<Rightarrow> nat \<Rightarrow> u64 \<Rightarrow> u64 parser" where
  "littleEndian_ReadUintN_loop i 0 res = return_p res"
| "littleEndian_ReadUintN_loop i (Suc k) res =
     bind_p ReadByte (\<lambda>bt.
       littleEndian_ReadUintN_loop (Suc i) k (res XOR push_bit ((i * 8) mod 256) (ucast bt)))"

definition littleEndian_ReadUintN :: "8 word \<Rightarrow> u64 parser" where
  "littleEndian_ReadUintN len = littleEndian_ReadUintN_loop 0 (unat len) 0"

definition littleEndian_ReadUint64 :: "u64 parser" where
  "littleEndian_ReadUint64 =
     bind_p ReadByte (\<lambda>b1. bind_p ReadByte (\<lambda>b2. bind_p ReadByte (\<lambda>b3. bind_p ReadByte (\<lambda>b4.
     bind_p ReadByte (\<lambda>b5. bind_p ReadByte (\<lambda>b6. bind_p ReadByte (\<lambda>b7. bind_p ReadByte (\<lambda>b8.
     return_p (ucast b1 + push_bit 8 (ucast b2) + push_bit 16 (ucast b3) + push_bit 24 (ucast b4)
       + push_bit 32 (ucast b5) + push_bit 40 (ucast b6) + push_bit 48 (ucast b7)
       + push_bit 56 (ucast b8))))))))))"

definition littleEndian_ReadUint32 :: "u32 parser" where
  "littleEndian_ReadUint32 =
     bind_p ReadByte (\<lambda>b1. bind_p ReadByte (\<lambda>b2. bind_p ReadByte (\<lambda>b3. bind_p ReadByte (\<lambda>b4.
     return_p (ucast b1 + push_bit 8 (ucast b2) + push_bit 16 (ucast b3) + push_bit 24 (ucast b4))))))"

definition littleEndian_ReadUint16 :: "u16 parser" where
  "littleEndian_ReadUint16 =
     bind_p ReadByte (\<lambda>b1. bind_p ReadByte (\<lambda>b2. return_p (ucast b1 + push_bit 8 (ucast b2))))"

definition littleEndian_WriteUint64 :: "u64 \<Rightarrow> byte list" where
  "littleEndian_WriteUint64 i =
     [ucast i, ucast (drop_bit 8 i), ucast (drop_bit 16 i), ucast (drop_bit 24 i),
      ucast (drop_bit 32 i), ucast (drop_bit 40 i), ucast (drop_bit 48 i), ucast (drop_bit 56 i)]"

definition littleEndian_WriteUint56 :: "u64 \<Rightarrow> error + byte list" where
  "littleEndian_WriteUint56 i =
     (if i \<ge> 2 ^ 56 then Inl (Panic ''doesn't fit into 56 bits'')
      else Inr [ucast i, ucast (drop_bit 8 i), ucast (drop_bit 16 i), ucast (drop_bit 24 i),
                ucast (drop_bit 32 i), ucast (drop_bit 40 i), ucast (drop_bit 48 i)])"

definition littleEndian_WriteUint48 :: "u64 \<Rightarrow> error + byte list" where
  "littleEndian_WriteUint48 i =
     (if i \<ge> 2 ^ 48 then Inl (Panic ''doesn't fit into 48 bits'')
      else Inr [ucast i, ucast (drop_bit 8 i), ucast (drop_bit 16 i), ucast (drop_bit 24 i),
                ucast (drop_bit 32 i), ucast (drop_bit 40 i)])"

definition littleEndian_WriteUint40 :: "u64 \<Rightarrow> error + byte list" where
  "littleEndian_WriteUint40 i =
     (if i \<ge> 2 ^ 40 then Inl (Panic ''doesn't fit into 40 bits'')
      else Inr [ucast i, ucast (drop_bit 8 i), ucast (drop_bit 16 i), ucast (drop_bit 24 i),
                ucast (drop_bit 32 i)])"

definition littleEndian_WriteUint32 :: "u32 \<Rightarrow> byte list" where
  "littleEndian_WriteUint32 i =
     [ucast i, ucast (drop_bit 8 i), ucast (drop_bit 16 i), ucast (drop_bit 24 i)]"

definition littleEndian_WriteUint24 :: "u32 \<Rightarrow> error + byte list" where
  "littleEndian_WriteUint24 i =
     (if i \<ge> 2 ^ 24 then Inl (Panic ''doesn't fit into 24 bits'')
      else Inr [ucast i, ucast (drop_bit 8 i), ucast (drop_bit 16 i)])"

definition littleEndian_WriteUint16 :: "u16 \<Rightarrow> byte list" where
  "littleEndian_WriteUint16 i = [ucast i, ucast (drop_bit 8 i)]"

subsection \<open>Big endian\<close>

text \<open>Here the shift amount is \<^verbatim>\<open>(length - 1 - i) * 8\<close>, where \<^verbatim>\<open>length - 1 - i\<close> is the number
  of iterations still to come.\<close>

fun bigEndian_ReadUintN_loop :: "nat \<Rightarrow> u64 \<Rightarrow> u64 parser" where
  "bigEndian_ReadUintN_loop 0 res = return_p res"
| "bigEndian_ReadUintN_loop (Suc k) res =
     bind_p ReadByte (\<lambda>bt.
       bigEndian_ReadUintN_loop k (res XOR push_bit ((k * 8) mod 256) (ucast bt)))"

definition bigEndian_ReadUintN :: "8 word \<Rightarrow> u64 parser" where
  "bigEndian_ReadUintN len = bigEndian_ReadUintN_loop (unat len) 0"

definition bigEndian_ReadUint64 :: "u64 parser" where
  "bigEndian_ReadUint64 =
     bind_p ReadByte (\<lambda>b8. bind_p ReadByte (\<lambda>b7. bind_p ReadByte (\<lambda>b6. bind_p ReadByte (\<lambda>b5.
     bind_p ReadByte (\<lambda>b4. bind_p ReadByte (\<lambda>b3. bind_p ReadByte (\<lambda>b2. bind_p ReadByte (\<lambda>b1.
     return_p (ucast b1 + push_bit 8 (ucast b2) + push_bit 16 (ucast b3) + push_bit 24 (ucast b4)
       + push_bit 32 (ucast b5) + push_bit 40 (ucast b6) + push_bit 48 (ucast b7)
       + push_bit 56 (ucast b8))))))))))"

definition bigEndian_ReadUint32 :: "u32 parser" where
  "bigEndian_ReadUint32 =
     bind_p ReadByte (\<lambda>b4. bind_p ReadByte (\<lambda>b3. bind_p ReadByte (\<lambda>b2. bind_p ReadByte (\<lambda>b1.
     return_p (ucast b1 + push_bit 8 (ucast b2) + push_bit 16 (ucast b3) + push_bit 24 (ucast b4))))))"

definition bigEndian_ReadUint16 :: "u16 parser" where
  "bigEndian_ReadUint16 =
     bind_p ReadByte (\<lambda>b2. bind_p ReadByte (\<lambda>b1. return_p (ucast b1 + push_bit 8 (ucast b2))))"

definition bigEndian_WriteUint64 :: "u64 \<Rightarrow> byte list" where
  "bigEndian_WriteUint64 i =
     [ucast (drop_bit 56 i), ucast (drop_bit 48 i), ucast (drop_bit 40 i), ucast (drop_bit 32 i),
      ucast (drop_bit 24 i), ucast (drop_bit 16 i), ucast (drop_bit 8 i), ucast i]"

definition bigEndian_WriteUint56 :: "u64 \<Rightarrow> error + byte list" where
  "bigEndian_WriteUint56 i =
     (if i \<ge> 2 ^ 56 then Inl (Panic ''doesn't fit into 56 bits'')
      else Inr [ucast (drop_bit 48 i), ucast (drop_bit 40 i), ucast (drop_bit 32 i),
                ucast (drop_bit 24 i), ucast (drop_bit 16 i), ucast (drop_bit 8 i), ucast i])"

definition bigEndian_WriteUint48 :: "u64 \<Rightarrow> error + byte list" where
  "bigEndian_WriteUint48 i =
     (if i \<ge> 2 ^ 48 then Inl (Panic ''doesn't fit into 48 bits'')
      else Inr [ucast (drop_bit 40 i), ucast (drop_bit 32 i),
                ucast (drop_bit 24 i), ucast (drop_bit 16 i), ucast (drop_bit 8 i), ucast i])"

definition bigEndian_WriteUint40 :: "u64 \<Rightarrow> error + byte list" where
  "bigEndian_WriteUint40 i =
     (if i \<ge> 2 ^ 40 then Inl (Panic ''doesn't fit into 40 bits'')
      else Inr [ucast (drop_bit 32 i),
                ucast (drop_bit 24 i), ucast (drop_bit 16 i), ucast (drop_bit 8 i), ucast i])"

definition bigEndian_WriteUint32 :: "u32 \<Rightarrow> byte list" where
  "bigEndian_WriteUint32 i =
     [ucast (drop_bit 24 i), ucast (drop_bit 16 i), ucast (drop_bit 8 i), ucast i]"

definition bigEndian_WriteUint24 :: "u32 \<Rightarrow> error + byte list" where
  "bigEndian_WriteUint24 i =
     (if i \<ge> 2 ^ 24 then Inl (Panic ''doesn't fit into 24 bits'')
      else Inr [ucast (drop_bit 16 i), ucast (drop_bit 8 i), ucast i])"

definition bigEndian_WriteUint16 :: "u16 \<Rightarrow> byte list" where
  "bigEndian_WriteUint16 i = [ucast (drop_bit 8 i), ucast i]"

subsection \<open>Method dispatch\<close>

fun ReadUintN :: "ByteOrder \<Rightarrow> 8 word \<Rightarrow> u64 parser" where
  "ReadUintN LittleEndian = littleEndian_ReadUintN"
| "ReadUintN BigEndian = bigEndian_ReadUintN"

fun ReadUint64 :: "ByteOrder \<Rightarrow> u64 parser" where
  "ReadUint64 LittleEndian = littleEndian_ReadUint64"
| "ReadUint64 BigEndian = bigEndian_ReadUint64"

fun ReadUint32 :: "ByteOrder \<Rightarrow> u32 parser" where
  "ReadUint32 LittleEndian = littleEndian_ReadUint32"
| "ReadUint32 BigEndian = bigEndian_ReadUint32"

fun ReadUint16 :: "ByteOrder \<Rightarrow> u16 parser" where
  "ReadUint16 LittleEndian = littleEndian_ReadUint16"
| "ReadUint16 BigEndian = bigEndian_ReadUint16"

fun WriteUint64 :: "ByteOrder \<Rightarrow> u64 \<Rightarrow> byte list" where
  "WriteUint64 LittleEndian = littleEndian_WriteUint64"
| "WriteUint64 BigEndian = bigEndian_WriteUint64"

fun WriteUint56 :: "ByteOrder \<Rightarrow> u64 \<Rightarrow> error + byte list" where
  "WriteUint56 LittleEndian = littleEndian_WriteUint56"
| "WriteUint56 BigEndian = bigEndian_WriteUint56"

fun WriteUint48 :: "ByteOrder \<Rightarrow> u64 \<Rightarrow> error + byte list" where
  "WriteUint48 LittleEndian = littleEndian_WriteUint48"
| "WriteUint48 BigEndian = bigEndian_WriteUint48"

fun WriteUint40 :: "ByteOrder \<Rightarrow> u64 \<Rightarrow> error + byte list" where
  "WriteUint40 LittleEndian = littleEndian_WriteUint40"
| "WriteUint40 BigEndian = bigEndian_WriteUint40"

fun WriteUint32 :: "ByteOrder \<Rightarrow> u32 \<Rightarrow> byte list" where
  "WriteUint32 LittleEndian = littleEndian_WriteUint32"
| "WriteUint32 BigEndian = bigEndian_WriteUint32"

fun WriteUint24 :: "ByteOrder \<Rightarrow> u32 \<Rightarrow> error + byte list" where
  "WriteUint24 LittleEndian = littleEndian_WriteUint24"
| "WriteUint24 BigEndian = bigEndian_WriteUint24"

fun WriteUint16 :: "ByteOrder \<Rightarrow> u16 \<Rightarrow> byte list" where
  "WriteUint16 LittleEndian = littleEndian_WriteUint16"
| "WriteUint16 BigEndian = bigEndian_WriteUint16"

section \<open>Reading \<open>n\<close> bytes\<close>

text \<open>The \<open>n\<close> low bytes of a word, lowest first.\<close>

definition le_bytes :: "nat \<Rightarrow> 'a::len word \<Rightarrow> byte list" where
  "le_bytes n x = map (\<lambda>i. ucast (drop_bit (8 * i) x)) [0..<n]"

lemma length_le_bytes [simp]: "length (le_bytes n x) = n"
  by (simp add: le_bytes_def)

lemma le_bytes_ucast:
  fixes x :: "'a::len word"
  assumes "LENGTH('a) \<le> LENGTH('b::len)"
  shows "le_bytes n (ucast x :: 'b word) = le_bytes n x"
proof -
  have "(ucast (drop_bit k (ucast x :: 'b word)) :: byte) = ucast (drop_bit k x)" for k
    using assms by (intro bit_word_eqI) (auto simp: bit_simps dest: bit_imp_le_length)
  then show ?thesis by (simp add: le_bytes_def)
qed

lemma byte_step: "push_bit n (ucast (ucast (drop_bit n x) :: byte)) = push_bit n (take_bit 8 (drop_bit n (x::u64)))"
  by (rule arg_cong [where f = "push_bit n"]) (rule bit_word_eqI, auto simp: bit_simps)

lemma littleEndian_loop_bytes:
  assumes "i + k \<le> 8"
  shows "littleEndian_ReadUintN_loop i k (take_bit (8 * i) x)
           (map (\<lambda>j. ucast (drop_bit (8 * j) x)) [i..<i + k] @ r) = Inr (take_bit (8 * (i + k)) x, r)"
  using assms
proof (induction k arbitrary: i)
  case 0
  then show ?case by simp
next
  case (Suc k)
  have sh: "(i * 8) mod 256 = 8 * i" using Suc.prems by simp
  have step: "littleEndian_ReadUintN_loop i (Suc k) res (b # s) =
      littleEndian_ReadUintN_loop (Suc i) k (res XOR push_bit (8 * i) (ucast b)) s" for res b s
    unfolding littleEndian_ReadUintN_loop.simps sh by (simp add: bind_p_apply)
  have acc: "take_bit (8 * i) x XOR push_bit (8 * i) (ucast (ucast (drop_bit (8 * i) x) :: byte))
      = take_bit (8 * Suc i) x"
    by (simp only: byte_step take_bit_xor_next) (simp add: add.commute)
  have "[i..<i + Suc k] = i # [Suc i..<Suc i + k]"
    by (simp add: upt_conv_Cons del: upt_Suc)
  with Suc.IH [of "Suc i"] Suc.prems show ?case
    by (simp only: list.map append_Cons step acc) simp
qed

lemma littleEndian_ReadUintN_bytes:
  "unat n \<le> 8 \<Longrightarrow> littleEndian_ReadUintN n (le_bytes (unat n) x @ r) = Inr (take_bit (8 * unat n) x, r)"
  using littleEndian_loop_bytes [of 0 "unat n" x r]
  by (simp add: littleEndian_ReadUintN_def le_bytes_def)

lemma bigEndian_loop_bytes:
  assumes "k \<le> n" and "n \<le> 8"
  shows "bigEndian_ReadUintN_loop k (push_bit (8 * k) (drop_bit (8 * k) (take_bit (8 * n) x)))
           (rev (le_bytes k x) @ r) = Inr (take_bit (8 * n) x, r)"
  using assms
proof (induction k)
  case 0
  then show ?case by (simp add: le_bytes_def)
next
  case (Suc k)
  have sh: "(k * 8) mod 256 = 8 * k" using Suc.prems by simp
  have step: "bigEndian_ReadUintN_loop (Suc k) res (b # s) =
      bigEndian_ReadUintN_loop k (res XOR push_bit (8 * k) (ucast b)) s" for res b s
    unfolding bigEndian_ReadUintN_loop.simps sh by (simp add: bind_p_apply)
  have acc: "push_bit (8 * Suc k) (drop_bit (8 * Suc k) (take_bit (8 * n) x))
      XOR push_bit (8 * k) (ucast (ucast (drop_bit (8 * k) x) :: byte))
      = push_bit (8 * k) (drop_bit (8 * k) (take_bit (8 * n) x))"
    using Suc.prems unfolding byte_step by (intro bit_word_eqI) (auto simp: bit_simps)
  have "rev (le_bytes (Suc k) x) = ucast (drop_bit (8 * k) x) # rev (le_bytes k x)"
    by (simp add: le_bytes_def)
  with Suc.IH Suc.prems show ?case
    by (simp only: append_Cons step acc)
qed

lemma bigEndian_ReadUintN_bytes:
  assumes "unat n \<le> 8"
  shows "bigEndian_ReadUintN n (rev (le_bytes (unat n) x) @ r) = Inr (take_bit (8 * unat n) x, r)"
proof -
  have "push_bit (8 * unat n) (drop_bit (8 * unat n) (take_bit (8 * unat n) x)) = 0"
    by (rule bit_word_eqI) (auto simp: bit_simps)
  then show ?thesis
    using bigEndian_loop_bytes [OF order_refl assms, of x r] by (simp add: bigEndian_ReadUintN_def)
qed

text \<open>A number read from \<open>n\<close> bytes has no bits beyond them, and the reader takes exactly \<open>n\<close> bytes.\<close>

lemma littleEndian_loop_bits:
  assumes "i + k \<le> 8" "take_bit (8 * i) res = res" "littleEndian_ReadUintN_loop i k res s = Inr (x, r)"
  shows "take_bit (8 * (i + k)) x = x"
  using assms
proof (induction k arbitrary: i res s)
  case (Suc k)
  from Suc.prems(3) obtain b s' where
    s': "littleEndian_ReadUintN_loop (Suc i) k (res XOR push_bit (8 * i) (ucast (b :: byte))) s' = Inr (x, r)"
    using Suc.prems(1) by (auto simp: bind_p_eq_Inr mult.commute)
  have "take_bit (8 * Suc i) (take_bit (8 * i) res XOR push_bit (8 * i) (ucast b)) =
      take_bit (8 * i) res XOR push_bit (8 * i) (ucast b)"
    by (rule bit_word_eqI) (auto simp: bit_simps dest: bit_imp_le_length)
  with Suc.prems(2) have "take_bit (8 * Suc i) (res XOR push_bit (8 * i) (ucast b)) = res XOR push_bit (8 * i) (ucast b)"
    by simp
  with Suc.IH [OF _ _ s'] Suc.prems(1) show ?case by simp
qed auto

lemma bigEndian_loop_bits:
  assumes "k \<le> n" "n \<le> 8" "take_bit (8 * n) res = res" "bigEndian_ReadUintN_loop k res s = Inr (x, r)"
  shows "take_bit (8 * n) x = x"
  using assms
proof (induction k arbitrary: res s)
  case (Suc k)
  from Suc.prems obtain b s' where
    s': "bigEndian_ReadUintN_loop k (res XOR push_bit (8 * k) (ucast (b :: byte))) s' = Inr (x, r)"
    by (auto simp: bind_p_eq_Inr mult.commute)
  have "take_bit (8 * n) (take_bit (8 * n) res XOR push_bit (8 * k) (ucast b)) =
      take_bit (8 * n) res XOR push_bit (8 * k) (ucast b)"
    using Suc.prems(1) by (intro bit_word_eqI) (auto simp: bit_simps dest: bit_imp_le_length)
  with Suc.prems(3) have "take_bit (8 * n) (res XOR push_bit (8 * k) (ucast b)) = res XOR push_bit (8 * k) (ucast b)"
    by simp
  with Suc.IH [OF _ _ _ s'] Suc.prems(1,2) show ?case by simp
qed auto

lemma ReadUintN_loop_consumes:
  "littleEndian_ReadUintN_loop i k res s = Inr (x, r) \<Longrightarrow> \<exists>pre. length pre = k \<and> s = pre @ r"
  "bigEndian_ReadUintN_loop k res s = Inr (x, r) \<Longrightarrow> \<exists>pre. length pre = k \<and> s = pre @ r"
  by (induction k arbitrary: i res s; force simp: bind_p_eq_Inr length_Suc_conv dest!: ReadByte_shorter)+

lemma ReadUintN_bits:
  "littleEndian_ReadUintN n s = Inr (x, r) \<Longrightarrow> unat n \<le> 8 \<Longrightarrow> take_bit (8 * unat n) x = x"
  "bigEndian_ReadUintN n s = Inr (x, r) \<Longrightarrow> unat n \<le> 8 \<Longrightarrow> take_bit (8 * unat n) x = x"
  using littleEndian_loop_bits [of 0 "unat n" 0 s x r] bigEndian_loop_bits [of "unat n" "unat n" 0 s x r]
  by (simp_all add: littleEndian_ReadUintN_def bigEndian_ReadUintN_def)

lemma ReadUintN_consumes:
  "littleEndian_ReadUintN n s = Inr (x, r) \<Longrightarrow> \<exists>pre. length pre = unat n \<and> s = pre @ r"
  "bigEndian_ReadUintN n s = Inr (x, r) \<Longrightarrow> \<exists>pre. length pre = unat n \<and> s = pre @ r"
  by (auto simp: littleEndian_ReadUintN_def bigEndian_ReadUintN_def dest: ReadUintN_loop_consumes)

text \<open>The fixed-width readers agree with \<^verbatim>\<open>ReadUintN\<close>: the sum of shifted bytes is their
  exclusive or, since the bytes occupy disjoint bits.\<close>

lemma xor_byte_take_bit:
  fixes a :: "'a::len word" and b :: byte
  shows "take_bit n a = a \<Longrightarrow> m = n + 8 \<Longrightarrow>
    take_bit m (a XOR push_bit n (ucast b)) = a XOR push_bit n (ucast b)"
proof -
  assume a: "take_bit n a = a" and m: "m = n + 8"
  have "take_bit m (take_bit n a XOR push_bit n (ucast b)) = take_bit n a XOR push_bit n (ucast b)"
    unfolding m by (rule bit_word_eqI) (auto simp: bit_simps dest: bit_imp_le_length)
  then show ?thesis using a by simp
qed

lemma byte_take_bit:
  "take_bit 8 (ucast (b :: byte) :: 'a::len word) = ucast b"
  by (rule bit_word_eqI) (auto simp: bit_simps dest: bit_imp_le_length)

lemmas bytes_add_xor = word_xor_disjoint_add xor_byte_take_bit byte_take_bit

lemma ucast_xor: "(ucast (a XOR b) :: 'b::len word) = ucast a XOR ucast b" for a b :: "'a::len word"
  by (rule bit_word_eqI) (simp add: bit_simps)

lemma ucast_push_byte:
  "LENGTH('b::len) \<le> 64 \<Longrightarrow> (ucast (push_bit n (ucast (b :: byte) :: u64)) :: 'b word) = push_bit n (ucast b)"
  by (rule bit_word_eqI) (auto simp: bit_simps)

lemma ucast_byte:
  "LENGTH('b::len) \<le> 64 \<Longrightarrow> (ucast (ucast (b :: byte) :: u64) :: 'b word) = ucast b"
  by (rule bit_word_eqI) (auto simp: bit_simps)

lemma bytes_sum_u64:
  fixes b1 b2 b3 b4 b5 b6 b7 b8 :: byte
  shows "(ucast b1 :: u64) + push_bit 8 (ucast b2) + push_bit 16 (ucast b3) + push_bit 24 (ucast b4)
       + push_bit 32 (ucast b5) + push_bit 40 (ucast b6) + push_bit 48 (ucast b7)
       + push_bit 56 (ucast b8) =
     ucast b1 XOR push_bit 8 (ucast b2) XOR push_bit 16 (ucast b3) XOR push_bit 24 (ucast b4)
       XOR push_bit 32 (ucast b5) XOR push_bit 40 (ucast b6) XOR push_bit 48 (ucast b7)
       XOR push_bit 56 (ucast b8)"
  by (simp only: bytes_add_xor arith_simps) (simp only: xor.assoc)

lemma bytes_sum_u32:
  fixes b1 b2 b3 b4 :: byte
  shows "(ucast b1 :: u32) + push_bit 8 (ucast b2) + push_bit 16 (ucast b3) + push_bit 24 (ucast b4)
     = ucast (ucast b1 XOR push_bit 8 (ucast b2) XOR push_bit 16 (ucast b3) XOR push_bit 24 (ucast b4) :: u64)"
proof -
  have "(ucast b1 :: u32) + push_bit 8 (ucast b2) + push_bit 16 (ucast b3) + push_bit 24 (ucast b4)
     = ucast b1 XOR push_bit 8 (ucast b2) XOR push_bit 16 (ucast b3) XOR push_bit 24 (ucast b4)"
    by (simp only: bytes_add_xor arith_simps) (simp only: xor.assoc)
  also have "\<dots> = ucast (ucast b1 XOR push_bit 8 (ucast b2) XOR push_bit 16 (ucast b3) XOR push_bit 24 (ucast b4) :: u64)"
    by (simp add: ucast_xor ucast_push_byte ucast_byte)
  finally show ?thesis .
qed

lemma bytes_sum_u16:
  fixes b1 b2 :: byte
  shows "(ucast b1 :: u16) + push_bit 8 (ucast b2) = ucast (ucast b1 XOR push_bit 8 (ucast b2) :: u64)"
proof -
  have "(ucast b1 :: u16) + push_bit 8 (ucast b2) = ucast b1 XOR push_bit 8 (ucast b2)"
    by (simp only: bytes_add_xor arith_simps)
  also have "\<dots> = ucast (ucast b1 XOR push_bit 8 (ucast b2) :: u64)"
    by (simp add: ucast_xor ucast_push_byte ucast_byte)
  finally show ?thesis .
qed

text \<open>Unfolding of the loops at a literal number of bytes.\<close>

lemma ReadUintN_loop_literal:
  "littleEndian_ReadUintN_loop i (numeral v) res = bind_p ReadByte (\<lambda>bt.
     littleEndian_ReadUintN_loop (i + 1) (pred_numeral v) (res XOR push_bit ((i * 8) mod 256) (ucast bt)))"
  "littleEndian_ReadUintN_loop i 1 res = bind_p ReadByte (\<lambda>bt.
     return_p (res XOR push_bit ((i * 8) mod 256) (ucast bt)))"
  "bigEndian_ReadUintN_loop (numeral v) res = bind_p ReadByte (\<lambda>bt.
     bigEndian_ReadUintN_loop (pred_numeral v) (res XOR push_bit ((pred_numeral v * 8) mod 256) (ucast bt)))"
  "bigEndian_ReadUintN_loop 1 res = bind_p ReadByte (\<lambda>bt. return_p (res XOR ucast bt))"
  by (simp_all only: numeral_eq_Suc [of v] One_nat_def add_Suc_right add_0_right
      littleEndian_ReadUintN_loop.simps bigEndian_ReadUintN_loop.simps) simp

lemma littleEndian_ReadUint64_eq: "littleEndian_ReadUint64 = littleEndian_ReadUintN 8"
  unfolding littleEndian_ReadUint64_def littleEndian_ReadUintN_def bytes_sum_u64
  by (simp add: ReadUintN_loop_literal xor.assoc xor.commute xor.left_commute del: One_nat_def)

lemma littleEndian_ReadUint32_eq:
  "littleEndian_ReadUint32 = bind_p (littleEndian_ReadUintN 4) (\<lambda>x. return_p (ucast x))"
  unfolding littleEndian_ReadUint32_def littleEndian_ReadUintN_def bytes_sum_u32
  by (simp add: bind_p_assoc ReadUintN_loop_literal xor.assoc xor.commute xor.left_commute del: One_nat_def)
    (simp add: return_p_def)

lemma littleEndian_ReadUint16_eq:
  "littleEndian_ReadUint16 = bind_p (littleEndian_ReadUintN 2) (\<lambda>x. return_p (ucast x))"
  unfolding littleEndian_ReadUint16_def littleEndian_ReadUintN_def bytes_sum_u16
  by (simp add: bind_p_assoc ReadUintN_loop_literal xor.assoc xor.commute xor.left_commute del: One_nat_def)
    (simp add: return_p_def)

lemma bigEndian_ReadUint64_eq: "bigEndian_ReadUint64 = bigEndian_ReadUintN 8"
  unfolding bigEndian_ReadUint64_def bigEndian_ReadUintN_def bytes_sum_u64
  by (simp add: ReadUintN_loop_literal xor.assoc xor.commute xor.left_commute del: One_nat_def)

lemma bigEndian_ReadUint32_eq:
  "bigEndian_ReadUint32 = bind_p (bigEndian_ReadUintN 4) (\<lambda>x. return_p (ucast x))"
  unfolding bigEndian_ReadUint32_def bigEndian_ReadUintN_def bytes_sum_u32
  by (simp add: bind_p_assoc ReadUintN_loop_literal xor.assoc xor.commute xor.left_commute del: One_nat_def)
    (simp add: return_p_def)

lemma bigEndian_ReadUint16_eq:
  "bigEndian_ReadUint16 = bind_p (bigEndian_ReadUintN 2) (\<lambda>x. return_p (ucast x))"
  unfolding bigEndian_ReadUint16_def bigEndian_ReadUintN_def bytes_sum_u16
  by (simp add: bind_p_assoc ReadUintN_loop_literal xor.assoc xor.commute xor.left_commute del: One_nat_def)
    (simp add: return_p_def)

section \<open>What a byte order promises\<close>

locale byte_order_laws =
  fixes readN :: "8 word \<Rightarrow> u64 parser"
    and read64 :: "u64 parser" and read32 :: "u32 parser" and read16 :: "u16 parser"
    and write64 :: "u64 \<Rightarrow> byte list" and write56 :: "u64 \<Rightarrow> error + byte list"
    and write48 :: "u64 \<Rightarrow> error + byte list" and write40 :: "u64 \<Rightarrow> error + byte list"
    and write32 :: "u32 \<Rightarrow> byte list" and write24 :: "u32 \<Rightarrow> error + byte list"
    and write16 :: "u16 \<Rightarrow> byte list"
  assumes read64_write64: "read64 (write64 x @ r) = Inr (x, r)"
    and read32_write32: "read32 (write32 y @ r) = Inr (y, r)"
    and read16_write16: "read16 (write16 z @ r) = Inr (z, r)"
    and readN_write64: "readN 8 (write64 x @ r) = Inr (x, r)"
    and readN_write56: "write56 x = Inr bs \<Longrightarrow> readN 7 (bs @ r) = Inr (x, r)"
    and readN_write48: "write48 x = Inr bs \<Longrightarrow> readN 6 (bs @ r) = Inr (x, r)"
    and readN_write40: "write40 x = Inr bs \<Longrightarrow> readN 5 (bs @ r) = Inr (x, r)"
    and readN_write32: "readN 4 (write32 y @ r) = Inr (ucast y, r)"
    and readN_write24: "write24 y = Inr bs \<Longrightarrow> readN 3 (bs @ r) = Inr (ucast y, r)"
    and readN_write16: "readN 2 (write16 z @ r) = Inr (ucast z, r)"
    and readN_byte: "readN 1 (b # r) = Inr (ucast b, r)"
    and readN_nothing: "readN 0 r = Inr (0, r)"
    and write56_fits: "x < 2 ^ 56 \<Longrightarrow> \<exists>bs. write56 x = Inr bs"
    and write48_fits: "x < 2 ^ 48 \<Longrightarrow> \<exists>bs. write48 x = Inr bs"
    and write40_fits: "x < 2 ^ 40 \<Longrightarrow> \<exists>bs. write40 x = Inr bs"
    and write24_fits: "y < 2 ^ 24 \<Longrightarrow> \<exists>bs. write24 y = Inr bs"
    and readN_bits: "readN n s = Inr (v, r) \<Longrightarrow> unat n \<le> 8 \<Longrightarrow> take_bit (8 * unat n) v = v"
    and readN_consumes: "readN n s = Inr (v, r) \<Longrightarrow> \<exists>pre. length pre = unat n \<and> s = pre @ r"
    and length_write64: "length (write64 x) = 8"
    and length_write32: "length (write32 y) = 4"
    and length_write16: "length (write16 z) = 2"
    and length_write56: "write56 x = Inr bs \<Longrightarrow> length bs = 7"
    and length_write48: "write48 x = Inr bs \<Longrightarrow> length bs = 6"
    and length_write40: "write40 x = Inr bs \<Longrightarrow> length bs = 5"
    and length_write24: "write24 y = Inr bs \<Longrightarrow> length bs = 3"

text \<open>Numbers kept in 64 bits but written with fewer bytes: the low-order bytes survive.\<close>

context byte_order_laws
begin

lemma readN_trunc1: "readN 1 (ucast (x :: u64) # r) = Inr (take_bit 8 x, r)"
  by (simp add: readN_byte unsigned_ucast_eq)

lemma readN_trunc2: "readN 2 (write16 (ucast (x :: u64)) @ r) = Inr (take_bit 16 x, r)"
  by (simp add: readN_write16 unsigned_ucast_eq)

lemma readN_trunc4: "readN 4 (write32 (ucast (x :: u64)) @ r) = Inr (take_bit 32 x, r)"
  by (simp add: readN_write32 unsigned_ucast_eq)

text \<open>A number that fits the bytes it is written in is read back.\<close>

lemma readN_narrow:
  "unat (x :: 'a::len word) < 2 ^ 8 \<Longrightarrow> readN 1 (ucast x # r) = Inr (ucast x, r)"
  "unat (x :: 'a::len word) < 2 ^ 16 \<Longrightarrow> readN 2 (write16 (ucast x) @ r) = Inr (ucast x, r)"
  "unat (x :: 'a::len word) < 2 ^ 32 \<Longrightarrow> readN 4 (write32 (ucast x) @ r) = Inr (ucast x, r)"
  by (simp_all add: readN_byte readN_write16 readN_write32 ucast_narrow)

lemma write24_narrow:
  assumes "unat (x :: 'a::len word) < 2 ^ 24"
  shows "\<exists>bs. write24 (ucast x) = Inr bs \<and> length bs = 3 \<and> (\<forall>r. readN 3 (bs @ r) = Inr (ucast x, r))"
proof -
  have "unat (ucast x :: u32) = unat x"
    using assms by (simp add: unsigned_ucast_eq take_bit_nat_eq_self)
  then have "(ucast x :: u32) < 2 ^ 24" using assms by (simp add: word_less_nat_alt)
  moreover have "ucast (ucast x :: u32) = (ucast x :: u64)" using assms by (intro ucast_narrow) simp
  ultimately show ?thesis using write24_fits readN_write24 length_write24 by metis
qed

lemma write40_small:
  "x < 2 ^ 40 \<Longrightarrow> \<exists>bs. write40 x = Inr bs \<and> length bs = 5 \<and> (\<forall>r. readN 5 (bs @ r) = Inr (x, r))"
  using write40_fits readN_write40 length_write40 by metis

lemma write56_small:
  "x < 2 ^ 56 \<Longrightarrow> \<exists>bs. write56 x = Inr bs \<and> length bs = 7 \<and> (\<forall>r. readN 7 (bs @ r) = Inr (x, r))"
  using write56_fits readN_write56 length_write56 by metis

lemma write48_mask:
  "\<exists>bs. write48 (x AND (2 ^ 48 - 1)) = Inr bs \<and> length bs = 6 \<and> (\<forall>r. readN 6 (bs @ r) = Inr (take_bit 48 x, r))"
proof -
  have mask: "x AND (2 ^ 48 - 1) = take_bit 48 x" by (simp add: take_bit_eq_mask mask_eq_exp_minus_1)
  have "take_bit 48 x < 2 ^ 48"
    unfolding word_less_nat_alt unat_take_bit by simp
  then show ?thesis unfolding mask using write48_fits readN_write48 length_write48 by metis
qed

lemma readN_less:
  assumes "readN n s = Inr (v, r)" "unat n \<le> 7"
  shows "unat v < 2 ^ (8 * unat n)"
proof -
  have "take_bit (8 * unat n) v = v" using assms by (intro readN_bits) auto
  then have "unat v = unat v mod 2 ^ (8 * unat n)" unfolding unat_take_bit [symmetric] by simp
  then show ?thesis by (metis mod_less_divisor zero_less_power zero_less_numeral)
qed

lemma consumes_readN: "consumes (readN n)"
  by (auto simp: consumes_def dest: readN_consumes)

lemma write48_small:
  assumes "x < 2 ^ 48"
  shows "\<exists>bs. write48 x = Inr bs \<and> length bs = 6 \<and> (\<forall>r. readN 6 (bs @ r) = Inr (x, r))"
  using write48_fits [OF assms] readN_write48 length_write48 by metis

end

lemmas write_defs =
  littleEndian_WriteUint64_def littleEndian_WriteUint56_def littleEndian_WriteUint48_def
  littleEndian_WriteUint40_def littleEndian_WriteUint32_def littleEndian_WriteUint24_def
  littleEndian_WriteUint16_def bigEndian_WriteUint64_def bigEndian_WriteUint56_def
  bigEndian_WriteUint48_def bigEndian_WriteUint40_def bigEndian_WriteUint32_def
  bigEndian_WriteUint24_def bigEndian_WriteUint16_def

lemma write_le_bytes:
  "littleEndian_WriteUint64 x = le_bytes 8 x"
  "littleEndian_WriteUint56 x = (if x \<ge> 2 ^ 56 then Inl (Panic ''doesn't fit into 56 bits'') else Inr (le_bytes 7 x))"
  "littleEndian_WriteUint48 x = (if x \<ge> 2 ^ 48 then Inl (Panic ''doesn't fit into 48 bits'') else Inr (le_bytes 6 x))"
  "littleEndian_WriteUint40 x = (if x \<ge> 2 ^ 40 then Inl (Panic ''doesn't fit into 40 bits'') else Inr (le_bytes 5 x))"
  "littleEndian_WriteUint32 y = le_bytes 4 y"
  "littleEndian_WriteUint24 y = (if y \<ge> 2 ^ 24 then Inl (Panic ''doesn't fit into 24 bits'') else Inr (le_bytes 3 y))"
  "littleEndian_WriteUint16 z = le_bytes 2 z"
  by (simp_all add: write_defs le_bytes_def upt_rec)

lemma write_be_bytes:
  "bigEndian_WriteUint64 x = rev (le_bytes 8 x)"
  "bigEndian_WriteUint56 x = (if x \<ge> 2 ^ 56 then Inl (Panic ''doesn't fit into 56 bits'') else Inr (rev (le_bytes 7 x)))"
  "bigEndian_WriteUint48 x = (if x \<ge> 2 ^ 48 then Inl (Panic ''doesn't fit into 48 bits'') else Inr (rev (le_bytes 6 x)))"
  "bigEndian_WriteUint40 x = (if x \<ge> 2 ^ 40 then Inl (Panic ''doesn't fit into 40 bits'') else Inr (rev (le_bytes 5 x)))"
  "bigEndian_WriteUint32 y = rev (le_bytes 4 y)"
  "bigEndian_WriteUint24 y = (if y \<ge> 2 ^ 24 then Inl (Panic ''doesn't fit into 24 bits'') else Inr (rev (le_bytes 3 y)))"
  "bigEndian_WriteUint16 z = rev (le_bytes 2 z)"
  by (simp_all add: write_defs le_bytes_def upt_rec)

text \<open>Reading \<open>n\<close> bytes of a word that fits in them, whatever the width it was written at.\<close>

lemma ReadUintN_le_bytes:
  fixes x :: "'a::len word"
  assumes n: "unat n = k" "k \<le> 8" and fits: "take_bit (8 * k) (ucast x :: u64) = ucast x"
    and w: "LENGTH('a) \<le> 64"
  shows "littleEndian_ReadUintN n (le_bytes k x @ r) = Inr (ucast x, r)"
    and "bigEndian_ReadUintN n (rev (le_bytes k x) @ r) = Inr (ucast x, r)"
proof -
  have b: "le_bytes k x = le_bytes k (ucast x :: u64)"
    using w by (simp add: le_bytes_ucast)
  show "littleEndian_ReadUintN n (le_bytes k x @ r) = Inr (ucast x, r)"
    using littleEndian_ReadUintN_bytes [of n "ucast x" r] n fits unfolding b by simp
  show "bigEndian_ReadUintN n (rev (le_bytes k x) @ r) = Inr (ucast x, r)"
    using bigEndian_ReadUintN_bytes [of n "ucast x" r] n fits unfolding b by simp
qed

lemma take_bit_ucast_small:
  "LENGTH('a::len) \<le> n \<Longrightarrow> take_bit n (ucast (x :: 'a word) :: u64) = ucast x"
  by (rule bit_word_eqI) (auto simp: bit_simps dest: bit_imp_le_length)

lemma take_bit_fits_u64: "\<not> 2 ^ n \<le> x \<Longrightarrow> n < 64 \<Longrightarrow> take_bit n (x :: u64) = x"
  by (simp add: take_bit_eq_self_less not_le)

lemma take_bit_fits_u32: "\<not> 2 ^ n \<le> y \<Longrightarrow> n < 32 \<Longrightarrow> take_bit n (ucast (y :: u32) :: u64) = ucast y"
proof -
  assume "\<not> 2 ^ n \<le> y" "n < 32"
  then have "take_bit n y = y" by (simp add: take_bit_eq_self_less not_le)
  then have "ucast (take_bit n y) = (ucast y :: u64)" by simp
  moreover have "(ucast (take_bit n y) :: u64) = take_bit n (ucast y)"
    by (rule bit_word_eqI) (auto simp: bit_simps)
  ultimately show ?thesis by simp
qed

lemmas fits_lemmas = take_bit_word_eq_self take_bit_ucast_small take_bit_fits_u64 take_bit_fits_u32

lemma ReadUintN_singleton:
  "littleEndian_ReadUintN 1 (b # r) = Inr (ucast b, r)"
  "bigEndian_ReadUintN 1 (b # r) = Inr (ucast b, r)"
  by (simp_all add: littleEndian_ReadUintN_def bigEndian_ReadUintN_def bind_p_apply)

lemma ReadUintN_nothing:
  "littleEndian_ReadUintN 0 r = Inr (0, r)"
  "bigEndian_ReadUintN 0 r = Inr (0, r)"
  by (simp_all add: littleEndian_ReadUintN_def bigEndian_ReadUintN_def)

lemma ucast_ucast_u64: "LENGTH('a::len) \<le> 64 \<Longrightarrow> ucast (ucast (x :: 'a word) :: u64) = x"
  by (rule bit_word_eqI) (auto simp: bit_simps)

interpretation le: byte_order_laws littleEndian_ReadUintN littleEndian_ReadUint64
  littleEndian_ReadUint32 littleEndian_ReadUint16 littleEndian_WriteUint64 littleEndian_WriteUint56
  littleEndian_WriteUint48 littleEndian_WriteUint40 littleEndian_WriteUint32
  littleEndian_WriteUint24 littleEndian_WriteUint16
  by unfold_locales ((erule ReadUintN_bits ReadUintN_consumes, assumption?)
    | auto simp: write_le_bytes littleEndian_ReadUint64_eq littleEndian_ReadUint32_eq
      littleEndian_ReadUint16_eq bind_p_apply ReadUintN_le_bytes fits_lemmas ucast_ucast_u64
      ReadUintN_singleton ReadUintN_nothing simp flip: not_le split: if_splits)+

interpretation be: byte_order_laws bigEndian_ReadUintN bigEndian_ReadUint64
  bigEndian_ReadUint32 bigEndian_ReadUint16 bigEndian_WriteUint64 bigEndian_WriteUint56
  bigEndian_WriteUint48 bigEndian_WriteUint40 bigEndian_WriteUint32
  bigEndian_WriteUint24 bigEndian_WriteUint16
  by unfold_locales ((erule ReadUintN_bits ReadUintN_consumes, assumption?)
    | auto simp: write_be_bytes bigEndian_ReadUint64_eq bigEndian_ReadUint32_eq
      bigEndian_ReadUint16_eq bind_p_apply ReadUintN_le_bytes fits_lemmas ucast_ucast_u64
      ReadUintN_singleton ReadUintN_nothing simp flip: not_le split: if_splits)+

text \<open>The byte order that \<^verbatim>\<open>GetByteOrder\<close> selects satisfies the laws whatever the version.\<close>

interpretation bo: byte_order_laws "ReadUintN bo" "ReadUint64 bo" "ReadUint32 bo" "ReadUint16 bo"
  "WriteUint64 bo" "WriteUint56 bo" "WriteUint48 bo" "WriteUint40 bo" "WriteUint32 bo"
  "WriteUint24 bo" "WriteUint16 bo" for bo :: ByteOrder
  by (cases bo) (simp_all add: le.byte_order_laws_axioms be.byte_order_laws_axioms)

lemmas byte_order_codec [simp, codec] =
  bo.read64_write64 bo.read32_write32 bo.read16_write16 bo.readN_write64 bo.readN_write32
  bo.readN_write16 bo.readN_byte bo.readN_nothing bo.readN_write56 bo.readN_write48
  bo.readN_write40 bo.readN_write24 bo.length_write64 bo.length_write32 bo.length_write16
  bo.length_write56 bo.length_write48 bo.length_write40 bo.length_write24

lemma consumes_ReadUint [consumes_intros, intro!]:
  "consumes (ReadUintN bo n)" "consumes (ReadUint64 bo)" "consumes (ReadUint32 bo)" "consumes (ReadUint16 bo)"
proof -
  have N: "consumes (ReadUintN bo n)" for bo n by (rule bo.consumes_readN)
  show "consumes (ReadUintN bo n)" by (rule N)
  have "consumes (littleEndian_ReadUintN n)" "consumes (bigEndian_ReadUintN n)" for n
    using N [of LittleEndian n] N [of BigEndian n] by simp_all
  then show "consumes (ReadUint64 bo)" "consumes (ReadUint32 bo)" "consumes (ReadUint16 bo)"
    by (cases bo; simp add: littleEndian_ReadUint64_eq littleEndian_ReadUint32_eq littleEndian_ReadUint16_eq
        bigEndian_ReadUint64_eq bigEndian_ReadUint32_eq bigEndian_ReadUint16_eq consumes_bind consumes_return)+
qed

end
