(* ===== verification/Float16.thy ===== *)
theory Float16
  imports ByteOrder
begin

text \<open>
  \<^verbatim>\<open>internal/utils/float16.go\<close>: the unsigned 16-bit floating point format of ACK delays and
  remote round-trip times. The binary search that normalises a value is the function
  \<open>writeUfloat16_loop\<close>; the main result is how far a value read back may be from the value written.
\<close>

section \<open>The format\<close>

definition uFloat16MantissaBits :: nat where "uFloat16MantissaBits = 11"
definition uFloat16MantissaEffectiveBits :: nat where "uFloat16MantissaEffectiveBits = 12"
definition uFloat16MaxExponent :: nat where "uFloat16MaxExponent = 30"

definition uFloat16MaxValue :: u64 where
  "uFloat16MaxValue = push_bit uFloat16MaxExponent (push_bit uFloat16MantissaEffectiveBits 1 - 1)"

lemmas ufloat16_consts = uFloat16MantissaBits_def uFloat16MantissaEffectiveBits_def
  uFloat16MaxExponent_def

text \<open>The value a 16-bit pattern stands for, and the reader.\<close>

definition readUfloat16_value :: "u16 \<Rightarrow> u64" where
  "readUfloat16_value val =
     (let res = (ucast val :: u64) in
      if res < 2 ^ uFloat16MantissaEffectiveBits then res
      else let exponent = drop_bit uFloat16MantissaBits val - 1;
               res = res - push_bit uFloat16MantissaBits (ucast exponent)
           in push_bit (unat exponent) res)"

definition readUfloat16 :: "ByteOrder \<Rightarrow> u64 parser" where
  "readUfloat16 byteOrder = bind_p (ReadUint16 byteOrder) (\<lambda>val. return_p (readUfloat16_value val))"

text \<open>\<^verbatim>\<open>for offset := uint16(16); offset > 0; offset /= 2\<close>\<close>

fun writeUfloat16_loop :: "nat \<Rightarrow> u16 \<Rightarrow> u64 \<Rightarrow> u16 \<times> u64" where
  "writeUfloat16_loop offset exponent value =
     (if offset > 0 then
        (if value \<ge> 2 ^ (uFloat16MantissaBits + offset)
         then writeUfloat16_loop (offset div 2) (exponent + of_nat offset) (drop_bit offset value)
         else writeUfloat16_loop (offset div 2) exponent value)
      else (exponent, value))"

declare writeUfloat16_loop.simps [simp del]

definition writeUfloat16_value :: "u64 \<Rightarrow> u16" where
  "writeUfloat16_value value =
     (if value < 2 ^ uFloat16MantissaEffectiveBits then ucast value
      else if value \<ge> uFloat16MaxValue then 65535
      else let (exponent, value) = writeUfloat16_loop 16 0 value
           in ucast value + push_bit uFloat16MantissaBits exponent)"

definition writeUfloat16 :: "ByteOrder \<Rightarrow> u64 \<Rightarrow> byte list" where
  "writeUfloat16 byteOrder value = WriteUint16 byteOrder (writeUfloat16_value value)"

lemma readUfloat16_write [simp, codec]:
  "readUfloat16 bo (writeUfloat16 bo x @ r) = Inr (readUfloat16_value (writeUfloat16_value x), r)"
  by (simp add: readUfloat16_def writeUfloat16_def bind_p_apply)

lemma length_writeUfloat16 [simp, codec]: "length (writeUfloat16 bo x) = 2"
  by (simp add: writeUfloat16_def)

section \<open>Normalisation\<close>

text \<open>
  With \<open>b\<close> halvings still to do, the search handles every value below \<open>2 ^ (11 + 2 ^ b)\<close>: it ends
  with the highest bit at position 11, and the exponent counts the shifts.
\<close>

lemma writeUfloat16_loop_normal:
  assumes "unat v < 2 ^ (11 + 2 ^ b)" "2 ^ 11 \<le> unat v" "b \<le> 5"
  shows "\<exists>e. writeUfloat16_loop (2 ^ b div 2) x v = (x + of_nat e, drop_bit e v)
           \<and> 2 ^ 11 \<le> unat v div 2 ^ e \<and> unat v div 2 ^ e < 2 ^ 12"
  using assms
proof (induction b arbitrary: x v)
  case 0
  then show ?case
    by (intro exI [of _ 0]) (simp add: writeUfloat16_loop.simps)
next
  case (Suc b)
  let ?o = "2 ^ b :: nat"
  have b5: "b \<le> 4" using Suc.prems by simp
  then have o16: "?o \<le> 2 ^ 4" by (intro power_increasing) auto
  have half: "2 ^ Suc b div 2 = ?o" by simp
  show ?case
  proof (cases "2 ^ (11 + ?o) \<le> v")
    case True
    then have ge: "2 ^ (11 + ?o) \<le> unat v" using o16 by (simp add: two_power_le_word)
    have split: "(2::nat) ^ (11 + 2 ^ Suc b) = 2 ^ ?o * 2 ^ (11 + ?o)" by (simp flip: power_add)
    have lt: "unat (drop_bit ?o v) < 2 ^ (11 + 2 ^ b)"
      using Suc.prems(1) unfolding unat_drop_bit split
      by (simp add: less_mult_imp_div_less mult.commute)
    have "2 ^ 11 * 2 ^ ?o \<le> unat v" using ge by (simp add: power_add)
    then have lo: "2 ^ 11 \<le> unat (drop_bit ?o v)"
      unfolding unat_drop_bit by (simp add: less_eq_div_iff_mult_less_eq)
    from Suc.IH [OF lt lo, of "x + of_nat ?o"] b5 obtain e where
      e: "writeUfloat16_loop (?o div 2) (x + of_nat ?o) (drop_bit ?o v)
            = (x + of_nat ?o + of_nat e, drop_bit e (drop_bit ?o v))"
         "2 ^ 11 \<le> unat (drop_bit ?o v) div 2 ^ e" "unat (drop_bit ?o v) div 2 ^ e < 2 ^ 12"
      by auto
    have "writeUfloat16_loop ?o x v = writeUfloat16_loop (?o div 2) (x + of_nat ?o) (drop_bit ?o v)"
      using True by (subst writeUfloat16_loop.simps) (simp add: ufloat16_consts)
    then show ?thesis
      using e unfolding half unat_drop_bit
      by (intro exI [of _ "?o + e"])
        (simp add: drop_bit_drop_bit ac_simps power_add flip: div_mult2_eq)
  next
    case False
    then have "unat v < 2 ^ (11 + 2 ^ b)" using o16 by (simp add: not_le less_two_power_word)
    from Suc.IH [OF this Suc.prems(2), of x] b5 obtain e where
      "writeUfloat16_loop (?o div 2) x v = (x + of_nat e, drop_bit e v)"
      "2 ^ 11 \<le> unat v div 2 ^ e" "unat v div 2 ^ e < 2 ^ 12" by auto
    moreover have "writeUfloat16_loop ?o x v = writeUfloat16_loop (?o div 2) x v"
      using False by (subst writeUfloat16_loop.simps) (simp add: ufloat16_consts)
    ultimately show ?thesis unfolding half by auto
  qed
qed

section \<open>Precision\<close>

text \<open>A value in the normalised range loses exactly the bits below its twelve highest.\<close>

lemma ufloat16_normal:
  assumes lo: "2 ^ 12 \<le> unat v" and hi: "v < uFloat16MaxValue"
  shows "\<exists>e \<le> 30. unat (readUfloat16_value (writeUfloat16_value v)) = unat v div 2 ^ e * 2 ^ e
           \<and> 2 ^ 11 * 2 ^ e \<le> unat v"
proof -
  have mx: "unat uFloat16MaxValue = 4095 * 2 ^ 30"
    by (simp add: uFloat16MaxValue_def ufloat16_consts)
  then have v42: "unat v < 4095 * 2 ^ 30" using hi by (simp add: word_less_nat_alt)
  then have "unat v < 2 ^ (11 + 2 ^ 5)" by simp
  from writeUfloat16_loop_normal [OF this, of 0] lo obtain e where
    e: "writeUfloat16_loop 16 0 v = (of_nat e, drop_bit e v)"
       "2 ^ 11 \<le> unat v div 2 ^ e" "unat v div 2 ^ e < 2 ^ 12"
    by auto
  define m where "m = unat v div 2 ^ e"
  have m: "2048 \<le> m" "m < 4096" using e(2,3) by (simp_all add: m_def)
  have ev: "2 ^ 11 * 2 ^ e \<le> unat v"
    using e(2) by (simp add: less_eq_div_iff_mult_less_eq)
  have e30: "e \<le> 30"
  proof (rule ccontr)
    assume "\<not> e \<le> 30"
    then have "(2::nat) ^ 31 \<le> 2 ^ e" by (intro power_increasing) auto
    with ev v42 show False by simp
  qed
  have e1: "1 \<le> e" using e(3) lo by (cases e) auto
  have ue: "unat (of_nat e :: u16) = e" using e30 by (simp add: unat_of_nat)
  have um: "unat (ucast (drop_bit e v) :: u16) = m"
    using m by (simp add: unsigned_ucast_eq take_bit_nat_eq_self unat_drop_bit m_def)
  have up: "unat (push_bit 11 (of_nat e :: u16)) = e * 2048"
    using unat_push_bit_noov [of "of_nat e :: u16" 11] ue e30 by simp
  define w where "w = writeUfloat16_value v"
  have "w = ucast (drop_bit e v) + push_bit 11 (of_nat e)"
    using lo hi e(1) by (simp add: w_def writeUfloat16_value_def ufloat16_consts word_less_nat_alt word_le_nat_alt)
  then have uw: "unat w = m + e * 2048"
    using um up m e30 by (simp add: unat_add_noov)
  have big: "\<not> (ucast w :: u64) < 2 ^ 12" using uw m e1 by (simp add: word_less_nat_alt)
  have ex: "drop_bit 11 w - 1 = of_nat e"
  proof (rule iffD2 [OF word_unat_eq_iff])
    have "unat (drop_bit 11 w) = e + 1" using m by (simp add: unat_drop_bit uw)
    then show "unat (drop_bit 11 w - 1) = unat (of_nat e :: u16)"
      using ue by (simp add: unat_sub word_le_nat_alt)
  qed
  have "unat (ucast w - push_bit 11 (ucast (of_nat e :: u16)) :: u64) = m"
    using unat_push_bit_noov [of "ucast (of_nat e :: u16) :: u64" 11] ue e30
    by (simp add: unat_sub word_le_nat_alt uw)
  moreover have "m * 2 ^ e < 2 ^ 64"
  proof -
    have "m * 2 ^ e \<le> unat v" unfolding m_def by simp
    with v42 show ?thesis by simp
  qed
  ultimately have "unat (push_bit e (ucast w - push_bit 11 (ucast (of_nat e :: u16)) :: u64)) = m * 2 ^ e"
    by (simp add: unat_push_bit_noov)
  then have "unat (readUfloat16_value w) = m * 2 ^ e"
    using big ex ue by (simp add: readUfloat16_value_def ufloat16_consts Let_def)
  then show ?thesis using e30 ev unfolding w_def m_def by blast
qed

lemma ufloat16_value_precision:
  fixes v :: u64
  defines "v' \<equiv> readUfloat16_value (writeUfloat16_value v)"
  shows "v' \<le> v \<and> (unat v < 4096 \<longrightarrow> v' = v) \<and>
    (v < uFloat16MaxValue \<longrightarrow> 2048 * (unat v - unat v') \<le> unat v) \<and>
    (uFloat16MaxValue \<le> v \<longrightarrow> v' = uFloat16MaxValue)"
proof -
  let ?v' = "readUfloat16_value (writeUfloat16_value v)"
  have mx: "unat uFloat16MaxValue = 4095 * 2 ^ 30"
    by (simp add: uFloat16MaxValue_def ufloat16_consts)
  consider (small) "unat v < 4096" | (normal) "4096 \<le> unat v" "v < uFloat16MaxValue"
    | (clamped) "uFloat16MaxValue \<le> v" by fastforce
  then show ?thesis
  proof cases
    case small
    then have "unat (ucast v :: u16) = unat v"
      by (simp add: unsigned_ucast_eq take_bit_nat_eq_self)
    then have "?v' = v"
      using small
      by (simp add: readUfloat16_value_def writeUfloat16_value_def ufloat16_consts word_less_nat_alt
          word_unat_eq_iff)
    then show ?thesis using small mx by (auto simp: v'_def word_le_nat_alt)
  next
    case normal
    from ufloat16_normal [of v] normal obtain e where
      e: "unat ?v' = unat v div 2 ^ e * 2 ^ e" "2 ^ 11 * 2 ^ e \<le> unat v" by auto
    have "unat v - unat ?v' = unat v mod 2 ^ e" unfolding e(1) by (rule minus_div_mult_eq_mod)
    also have "\<dots> < 2 ^ e" by simp
    finally have "2048 * (unat v - unat ?v') \<le> 2 ^ 11 * 2 ^ e" by simp
    then have "2048 * (unat v - unat ?v') \<le> unat v" using e(2) by (rule order_trans)
    moreover have "?v' \<le> v" unfolding word_le_nat_alt e(1) by simp
    ultimately show ?thesis using normal by (auto simp: v'_def)
  next
    case clamped
    then have "writeUfloat16_value v = 65535"
      using mx by (simp add: writeUfloat16_value_def ufloat16_consts word_less_nat_alt word_le_nat_alt)
    then have "?v' = uFloat16MaxValue"
      by (simp add: readUfloat16_value_def uFloat16MaxValue_def ufloat16_consts Let_def)
    moreover have "\<not> unat v < 4096" using clamped mx by (simp add: word_le_nat_alt)
    ultimately show ?thesis using clamped by (simp add: v'_def not_less)
  qed
qed

text \<open>
  C29. A duration written as a 16-bit float reads back, whatever follows it, as a value that is
  never larger; it is exact below 4096, off by at most one part in 2048 below the largest
  representable value, and clamped to that value from there on.
\<close>

theorem ufloat16_precision:
  "\<exists>v'. readUfloat16 bo (writeUfloat16 bo v @ r) = Inr (v', r)
      \<and> v' \<le> v
      \<and> (unat v < 4096 \<longrightarrow> v' = v)
      \<and> (v < uFloat16MaxValue \<longrightarrow> 2048 * (unat v - unat v') \<le> unat v)
      \<and> (uFloat16MaxValue \<le> v \<longrightarrow> v' = uFloat16MaxValue)"
  using ufloat16_value_precision [of v] by simp

theorem ufloat16_precision_witness:
  "\<exists>v'. readUfloat16 BigEndian (writeUfloat16 BigEndian 5001 @ [7]) = Inr (v', [7])
      \<and> v' \<le> 5001 \<and> 2048 * (unat (5001 :: u64) - unat v') \<le> unat (5001 :: u64)"
proof -
  have "(5001 :: u64) < uFloat16MaxValue"
    by (simp add: uFloat16MaxValue_def ufloat16_consts)
  then show ?thesis using ufloat16_precision [of BigEndian 5001 "[7]"] by blast
qed

end
