(* ===== verification/Protocol.thy ===== *)
theory Protocol
  imports Prelude
begin

text \<open>
  \<^verbatim>\<open>internal/protocol\<close>: the constants, the choice and the reconstruction of truncated packet
  numbers (\<^verbatim>\<open>packet_number.go\<close>), and version numbers with their wire tags (\<^verbatim>\<open>version.go\<close>).
\<close>

section \<open>Constants\<close>

definition MaxByteCount :: ByteCount where "MaxByteCount = 18446744073709551615"
definition MaxPacketSize :: ByteCount where "MaxPacketSize = 1350"
definition InitialPathID :: PathID where "InitialPathID = 0"

definition PacketNumberLenInvalid :: PacketNumberLen where "PacketNumberLenInvalid = 0"
definition PacketNumberLen1 :: PacketNumberLen where "PacketNumberLen1 = 1"
definition PacketNumberLen2 :: PacketNumberLen where "PacketNumberLen2 = 2"
definition PacketNumberLen4 :: PacketNumberLen where "PacketNumberLen4 = 4"
definition PacketNumberLen6 :: PacketNumberLen where "PacketNumberLen6 = 6"

lemmas packet_number_len_defs [simp] = PacketNumberLenInvalid_def PacketNumberLen1_def
  PacketNumberLen2_def PacketNumberLen4_def PacketNumberLen6_def

definition Version37 :: VersionNumber where "Version37 = 37"
definition Version38 :: VersionNumber where "Version38 = 38"
definition Version39 :: VersionNumber where "Version39 = 39"
definition VersionTLS :: VersionNumber where "VersionTLS = 101"
definition VersionWhatever :: VersionNumber where "VersionWhatever = 0"
definition VersionUnsupported :: VersionNumber where "VersionUnsupported = -1"
definition VersionUnknown :: VersionNumber where "VersionUnknown = -2"
definition VersionMP :: VersionNumber where "VersionMP = 512"

definition SupportedVersions :: "VersionNumber list" where
  "SupportedVersions = [VersionMP, Version39, Version38, Version37]"

lemmas version_defs = Version37_def Version38_def Version39_def VersionTLS_def VersionWhatever_def
  VersionUnsupported_def VersionUnknown_def VersionMP_def

section \<open>Packet numbers\<close>

definition delta :: "PacketNumber \<Rightarrow> PacketNumber \<Rightarrow> PacketNumber" where
  "delta a b = (if a < b then b - a else a - b)"

definition closestTo :: "PacketNumber \<Rightarrow> PacketNumber \<Rightarrow> PacketNumber \<Rightarrow> PacketNumber" where
  "closestTo target a b = (if delta target a < delta target b then a else b)"

definition InferPacketNumber :: "PacketNumberLen \<Rightarrow> PacketNumber \<Rightarrow> PacketNumber \<Rightarrow> PacketNumber" where
  "InferPacketNumber packetNumberLength lastPacketNumber wirePacketNumber =
     (let epochDelta = push_bit (unat (packetNumberLength * 8)) 1;
          epoch = lastPacketNumber AND NOT (epochDelta - 1);
          prevEpochBegin = epoch - epochDelta;
          nextEpochBegin = epoch + epochDelta
      in closestTo (lastPacketNumber + 1) (epoch + wirePacketNumber)
           (closestTo (lastPacketNumber + 1) (prevEpochBegin + wirePacketNumber)
              (nextEpochBegin + wirePacketNumber)))"

definition GetPacketNumberLengthForPublicHeader :: "PacketNumber \<Rightarrow> PacketNumber \<Rightarrow> PacketNumberLen" where
  "GetPacketNumberLengthForPublicHeader packetNumber leastUnacked =
     (let diff = packetNumber - leastUnacked in
      if diff < push_bit (unat (PacketNumberLen2 * 8 - 2)) 2 then PacketNumberLen2
      else if diff < push_bit (unat (PacketNumberLen4 * 8 - 2)) 2 then PacketNumberLen4
      else PacketNumberLen6)"

definition GetPacketNumberLength :: "PacketNumber \<Rightarrow> PacketNumberLen" where
  "GetPacketNumberLength packetNumber =
     (if packetNumber < push_bit (unat (PacketNumberLen1 * 8)) 1 then PacketNumberLen1
      else if packetNumber < push_bit (unat (PacketNumberLen2 * 8)) 1 then PacketNumberLen2
      else if packetNumber < push_bit (unat (PacketNumberLen4 * 8)) 1 then PacketNumberLen4
      else PacketNumberLen6)"

section \<open>Versions\<close>

definition UsesTLS :: "VersionNumber \<Rightarrow> bool" where
  "UsesTLS vn = (vn = VersionTLS)"

text \<open>The characters \<^verbatim>\<open>'Q'\<close> and \<^verbatim>\<open>'0'\<close> are 81 and 48.\<close>

definition VersionNumberToTag :: "VersionNumber \<Rightarrow> u32" where
  "VersionNumberToTag vn =
     (let v = (word_of_int vn :: u32) in
      81 + push_bit 8 (v div 100 mod 10 + 48) + push_bit 16 (v div 10 mod 10 + 48)
         + push_bit 24 (v mod 10 + 48))"

definition VersionTagToNumber :: "u32 \<Rightarrow> VersionNumber" where
  "VersionTagToNumber v =
     uint (((drop_bit 8 v AND 255) - 48) * 100 + ((drop_bit 16 v AND 255) - 48) * 10
           + ((drop_bit 24 v AND 255) - 48))"

fun IsSupportedVersion :: "VersionNumber list \<Rightarrow> VersionNumber \<Rightarrow> bool" where
  "IsSupportedVersion [] v = False"
| "IsSupportedVersion (t # supported) v = (if t = v then True else IsSupportedVersion supported v)"

fun ChooseSupportedVersion :: "VersionNumber list \<Rightarrow> VersionNumber list \<Rightarrow> VersionNumber" where
  "ChooseSupportedVersion [] theirs = VersionUnsupported"
| "ChooseSupportedVersion (ourVer # ours) theirs =
     (if list_ex (\<lambda>theirVer. ourVer = theirVer) theirs then ourVer
      else ChooseSupportedVersion ours theirs)"

section \<open>Reconstruction of a truncated packet number\<close>

lemma unat_delta: "unat (delta a b) = (if unat a < unat b then unat b - unat a else unat a - unat b)"
  by (simp add: delta_def word_less_nat_alt unat_sub word_le_nat_alt)

text \<open>A candidate strictly closer to the target than the two others is chosen.\<close>

lemma closestTo_three:
  "delta t x < delta t y \<Longrightarrow> delta t x < delta t z \<Longrightarrow> closestTo t x (closestTo t y z) = x"
  "delta t y < delta t x \<Longrightarrow> delta t y < delta t z \<Longrightarrow> closestTo t x (closestTo t y z) = y"
  "delta t z < delta t x \<Longrightarrow> delta t z < delta t y \<Longrightarrow> closestTo t x (closestTo t y z) = z"
  by (auto simp: closestTo_def)

lemma unat_and_not_mask:
  assumes "n < 64"
  shows "unat ((x :: u64) AND NOT (push_bit n 1 - 1)) = unat x div 2 ^ n * 2 ^ n"
proof -
  have "x AND NOT (push_bit n 1 - 1) = x AND NOT (mask n)"
    by (simp add: mask_eq_decr_exp push_bit_of_1)
  also have "\<dots> = push_bit n (drop_bit n x)"
    by (rule bit_word_eqI) (auto simp: bit_simps)
  finally have eq: "x AND NOT (push_bit n 1 - 1) = push_bit n (drop_bit n x)" .
  have "unat x div 2 ^ n * 2 ^ n \<le> unat x" by simp
  also have "\<dots> < 2 ^ 64" using unsigned_less [of x] by simp
  finally show ?thesis
    unfolding eq by (simp add: unat_push_bit_noov unat_drop_bit)
qed

lemma div_block: "0 < E \<Longrightarrow> l div E * E \<le> l \<and> l < l div E * E + E" for l E :: nat
  using dividend_less_div_times [of E l] by (simp add: add.commute)

text \<open>The arithmetic core: of the three candidates one epoch apart, the true number is the
  only one within half an epoch of the target.\<close>

lemma three_candidates:
  fixes p l E H m w :: nat
  assumes E: "E = 2 * H" "0 < H" and near: "p < l + 1 + H" "l + 1 < p + H"
    and m: "m = l div E" and w: "w = p mod E"
  shows "p = m * E + w \<or> p = m * E + E + w \<or> (E \<le> m * E \<and> p + E = m * E + w)"
proof -
  define q where "q = p div E"
  have p: "p = q * E + w" by (simp add: q_def w)
  have wE: "w < E" using E by (simp add: w)
  have lE: "m * E \<le> l" "l < m * E + E" using div_block [of E l] E by (simp_all add: m)
  have "q * E < (m + 2) * E" using p near lE E by simp
  then have 1: "q < m + 2" by (rule mult_right_less_imp_less) simp
  have "m * E < (q + 2) * E" using p near lE wE E by simp
  then have 2: "m < q + 2" by (rule mult_right_less_imp_less) simp
  from 1 2 consider "q = m" | "q = m + 1" | "m = q + 1" by linarith
  then show ?thesis using p by cases simp_all
qed

lemma farther_candidate:
  assumes "E = 2 * H" "unat p < unat t + H" "unat t < unat p + H"
    and "unat p + E \<le> unat x \<or> unat x + E \<le> unat p"
  shows "delta t p < delta t x"
  using assms unfolding word_less_nat_alt unat_delta by (auto; linarith)

lemma InferPacketNumber_near:
  assumes len: "unat len = 1 \<or> unat len = 2 \<or> unat len = 4 \<or> unat len = 6"
    and near: "unat pn < unat lst + 1 + 2 ^ (8 * unat len - 1)" "unat lst + 1 < unat pn + 2 ^ (8 * unat len - 1)"
    and small: "unat pn < 2 ^ 62"
  shows "InferPacketNumber len lst (take_bit (8 * unat len) pn) = pn"
proof -
  define n where "n = 8 * unat len"
  define H E m w where "H = (2::nat) ^ (n - 1)" and "E = (2::nat) ^ n"
    and "m = unat lst div E" and "w = unat pn mod E"
  have n: "n < 64" "0 < n" "n \<le> 48" and shift: "unat (len * 8) = n"
    using len by (auto simp: n_def unat_word_ariths)
  have EH: "E = 2 * H" "0 < H" using n by (simp_all add: E_def H_def power_eq_if)
  have "E \<le> 2 ^ 48" unfolding E_def by (rule power_increasing) (use n in auto)
  then have E48: "E \<le> 281474976710656" by simp
  have near': "unat pn < unat lst + 1 + H" "unat lst + 1 < unat pn + H"
    using near by (simp_all add: H_def n_def)
  have wE: "w < E" using EH by (simp add: w_def)
  have lE: "m * E \<le> unat lst" "unat lst < m * E + E"
    using div_block [of E "unat lst"] EH(2) by (simp_all add: m_def EH(1))
  have lst: "unat lst < 2 ^ 62 + 2 ^ 47" using near' small EH E48 by simp
  define epoch where "epoch = lst AND NOT (push_bit n 1 - 1)"
  define wire where "wire = take_bit n pn"
  define e where "e = m * E"
  have le: "e \<le> unat lst" "unat lst < e + E" using lE by (simp_all add: e_def)
  have ue: "unat epoch = e"
    using unat_and_not_mask [OF n(1), of lst] by (simp add: epoch_def e_def m_def E_def)
  have uw: "unat wire = w" by (simp add: wire_def w_def E_def unat_take_bit)
  have uE: "unat (push_bit n 1 :: u64) = E"
    using n by (simp add: push_bit_of_1 unat_two_power E_def)
  have c0: "unat (epoch + wire) = e + w"
    using ue uw le wE lst E48 by (subst unat_add_noov) auto
  have cp: "unat (epoch + push_bit n 1 + wire) = e + E + w"
    using ue uw uE le wE lst E48 by (simp add: unat_add_noov)
  have cm': "unat (epoch - push_bit n 1) = (if E \<le> e then e - E else e + 2 ^ 64 - E)"
    unfolding unat_sub_if' ue uE by simp
  have e0: "\<not> E \<le> e \<Longrightarrow> e = 0" by (cases m) (auto simp: e_def)
  have cm: "unat (epoch - push_bit n 1 + wire) = (if E \<le> e then e - E + w else e + 2 ^ 64 - E + w)"
    using cm' uw le wE lst E48 e0 by (subst unat_add_noov) auto
  have t: "unat (lst + 1) = unat lst + 1" using lst by (simp add: unat_add_noov)
  have eq: "InferPacketNumber len lst wire = closestTo (lst + 1) (epoch + wire)
      (closestTo (lst + 1) (epoch - push_bit n 1 + wire) (epoch + push_bit n 1 + wire))"
    unfolding InferPacketNumber_def Let_def shift epoch_def ..
  note far = farther_candidate [OF EH(1), of pn "lst + 1", unfolded t, OF near']
  from three_candidates [OF EH near' m_def w_def]
  consider (same) "unat pn = e + w" | (after) "unat pn = e + E + w"
    | (before) "E \<le> e" "unat pn = e - E + w"
    unfolding e_def [symmetric] by linarith
  then have "InferPacketNumber len lst wire = pn"
  proof cases
    case same
    then have pn: "pn = epoch + wire" using c0 by (simp add: word_unat_eq_iff)
    have "unat pn + E \<le> unat (epoch - push_bit n 1 + wire) \<or> unat (epoch - push_bit n 1 + wire) + E \<le> unat pn"
      using cm e0 same wE E48 by (cases "E \<le> e") auto
    moreover have "unat pn + E \<le> unat (epoch + push_bit n 1 + wire)" using cp same by simp
    ultimately show ?thesis
      unfolding eq using closestTo_three(1) [OF far far] pn by simp
  next
    case after
    then have pn: "pn = epoch + push_bit n 1 + wire" using cp by (simp add: word_unat_eq_iff)
    have "unat pn + E \<le> unat (epoch - push_bit n 1 + wire) \<or> unat (epoch - push_bit n 1 + wire) + E \<le> unat pn"
      using cm e0 after wE E48 by (cases "E \<le> e") auto
    moreover have "unat (epoch + wire) + E \<le> unat pn" using c0 after by simp
    ultimately show ?thesis
      unfolding eq using closestTo_three(3) [OF far far] pn by simp
  next
    case before
    then have pn: "pn = epoch - push_bit n 1 + wire" using cm by (simp add: word_unat_eq_iff)
    have "unat pn + E \<le> unat (epoch + wire)" "unat pn + E \<le> unat (epoch + push_bit n 1 + wire)"
      using c0 cp before by simp_all
    then show ?thesis
      unfolding eq using closestTo_three(2) [OF far far] pn by simp
  qed
  then show ?thesis by (simp add: wire_def n_def)
qed

text \<open>
  C24. The length the sender chooses for the packet number from the least unacknowledged packet is
  enough for the receiver: if the receiver has seen everything below \<^verbatim>\<open>leastUnacked\<close> (so that the
  largest number it has seen is at least \<^verbatim>\<open>leastUnacked - 1\<close>) and is at most \<open>2 ^ 15 - 2\<close> packets
  ahead, the truncated number on the wire is reconstructed exactly.
\<close>

theorem header_packet_number_recovered:
  assumes "leastUnacked \<le> pn" "unat leastUnacked \<le> unat seen + 1" "unat seen + 1 < unat pn + 2 ^ 15"
    and "unat pn < unat leastUnacked + 2 ^ 46" "unat pn < 2 ^ 62"
    and len: "len = GetPacketNumberLengthForPublicHeader pn leastUnacked"
  shows "InferPacketNumber len seen (take_bit (8 * unat len) pn) = pn"
proof (rule InferPacketNumber_near)
  have diff: "unat (pn - leastUnacked) = unat pn - unat leastUnacked"
    using assms(1) by (simp add: unat_sub)
  have cases: "(len = 2 \<and> unat pn < unat leastUnacked + 2 ^ 15)
      \<or> (len = 4 \<and> unat pn < unat leastUnacked + 2 ^ 31)
      \<or> len = 6"
    using assms(1) unfolding len GetPacketNumberLengthForPublicHeader_def Let_def
    by (auto simp: word_less_nat_alt diff word_le_nat_alt split: if_splits)
  then show "unat len = 1 \<or> unat len = 2 \<or> unat len = 4 \<or> unat len = 6" by auto
  show "unat pn < unat seen + 1 + 2 ^ (8 * unat len - 1)"
    using cases assms by auto
  show "unat seen + 1 < unat pn + 2 ^ (8 * unat len - 1)"
    using cases assms by auto
  show "unat pn < 2 ^ 62" by fact
qed

theorem header_packet_number_recovered_witness:
  "InferPacketNumber (GetPacketNumberLengthForPublicHeader 70000 60000) 69990
     (take_bit (8 * unat (GetPacketNumberLengthForPublicHeader 70000 60000)) 70000) = 70000"
  using header_packet_number_recovered [of 60000 70000 69990] by simp

section \<open>Version tags and version choice\<close>

text \<open>A version number below 1000 survives the trip through its four-character tag.\<close>

lemma unat_and_255: "unat ((x :: u32) AND 255) = unat x mod 256"
proof -
  have "x AND 255 = take_bit 8 x"
    by (simp add: take_bit_eq_mask mask_eq_decr_exp)
  then show ?thesis by (simp add: unat_take_bit)
qed

lemma base256: "r < 256 \<Longrightarrow> (r + q * 256) div 256 = q \<and> (r + q * 256) mod 256 = r" for r q :: nat
  by simp

lemma VersionTagToNumber_digits:
  fixes a b c :: u32
  assumes d: "unat a < 10" "unat b < 10" "unat c < 10"
  shows "VersionTagToNumber (81 + push_bit 8 (a + 48) + push_bit 16 (b + 48) + push_bit 24 (c + 48))
     = int (unat a * 100 + unat b * 10 + unat c)"
proof -
  define t where "t = 81 + push_bit 8 (a + 48) + push_bit 16 (b + 48) + push_bit 24 (c + 48)"
  have dd: "unat (a + 48) = unat a + 48" "unat (b + 48) = unat b + 48" "unat (c + 48) = unat c + 48"
    using d by (simp_all add: unat_add_noov)
  have pp: "unat (push_bit 8 (a + 48)) = (unat a + 48) * 256"
    "unat (push_bit 16 (b + 48)) = (unat b + 48) * 65536"
    "unat (push_bit 24 (c + 48)) = (unat c + 48) * 16777216"
    using d unfolding dd [symmetric] by (subst unat_push_bit_noov; simp add: dd)+
  have t: "unat t = 81 + (unat a + 48) * 256 + (unat b + 48) * 65536 + (unat c + 48) * 16777216"
    using d unfolding t_def by (simp add: unat_add_noov pp)
  define q1 where "q1 = (unat b + 48) + (unat c + 48) * 256"
  have t1: "unat t = 81 + ((unat a + 48) + q1 * 256) * 256" unfolding t q1_def by simp
  have t2: "unat t div 2 ^ 8 = (unat a + 48) + q1 * 256"
    using base256 [of 81 "(unat a + 48) + q1 * 256"] unfolding t1 by simp
  have "unat t div 2 ^ 16 = unat t div 2 ^ 8 div 2 ^ 8" by (simp flip: div_mult2_eq)
  also have "\<dots> = q1" unfolding t2 using base256 [of "unat a + 48" q1] d by simp
  finally have t3: "unat t div 2 ^ 16 = q1" .
  have "unat t div 2 ^ 24 = unat t div 2 ^ 16 div 2 ^ 8" by (simp flip: div_mult2_eq)
  also have "\<dots> = unat c + 48" unfolding t3 q1_def using base256 [of "unat b + 48"] d by simp
  finally have t4: "unat t div 2 ^ 24 = unat c + 48" .
  have f: "unat (drop_bit 8 t AND 255) = unat (a + 48)" "unat (drop_bit 16 t AND 255) = unat (b + 48)"
    "unat (drop_bit 24 t AND 255) = unat (c + 48)"
    using d base256 [of "unat a + 48" q1] base256 [of "unat b + 48" "unat c + 48"]
    unfolding unat_and_255 unat_drop_bit t2 t3 t4 dd by (simp_all add: q1_def)
  then have f': "drop_bit 8 t AND 255 = a + 48" "drop_bit 16 t AND 255 = b + 48"
    "drop_bit 24 t AND 255 = c + 48"
    unfolding word_unat_eq_iff by blast+
  have u: "unat (a * 100 + b * 10 + c) = unat a * 100 + unat b * 10 + unat c"
    using d by (simp add: unat_word_ariths)
  show ?thesis
    unfolding VersionTagToNumber_def t_def [symmetric] f' u [symmetric] by simp
qed

lemma VersionTag_roundtrip:
  assumes "0 \<le> vn" "vn < 1000"
  shows "VersionTagToNumber (VersionNumberToTag vn) = vn"
proof -
  define v where "v = nat vn"
  have v: "v < 1000" "vn = int v" using assms by (auto simp: v_def)
  have uv: "unat (word_of_int vn :: u32) = v" using v by (simp add: unat_of_nat)
  have d: "unat ((word_of_int vn :: u32) div 100 mod 10) = v div 100 mod 10"
    "unat ((word_of_int vn :: u32) div 10 mod 10) = v div 10 mod 10"
    "unat ((word_of_int vn :: u32) mod 10) = v mod 10"
    unfolding unat_div unat_mod uv by simp_all
  define q x y z where "q = v div 10" and "x = q div 10" and "y = q mod 10" and "z = v mod 10"
  have "v div 100 mod 10 = x" "v div 10 mod 10 = y" "v mod 10 = z"
    using v by (simp_all add: q_def x_def y_def z_def flip: div_mult2_eq)
  moreover have "q * 10 + z = v" "x * 10 + y = q" by (simp_all add: q_def x_def y_def z_def)
  then have "x * 100 + y * 10 + z = v" by linarith
  ultimately have sum: "v div 100 mod 10 * 100 + v div 10 mod 10 * 10 + v mod 10 = v"
    by (simp only:)
  let ?w = "word_of_int vn :: u32"
  have "VersionTagToNumber (VersionNumberToTag vn) =
      int (unat (?w div 100 mod 10) * 100 + unat (?w div 10 mod 10) * 10 + unat (?w mod 10))"
    unfolding VersionNumberToTag_def Let_def
    by (rule VersionTagToNumber_digits) (simp_all add: d)
  also have "\<dots> = int v" by (simp only: d sum)
  finally show ?thesis using v(2) by simp
qed

text \<open>The chosen version is the first of ours that the peer offers.\<close>

lemma ChooseSupportedVersion_filter:
  "ChooseSupportedVersion ours theirs =
     (case filter (\<lambda>v. v \<in> set theirs) ours of [] \<Rightarrow> VersionUnsupported | v # _ \<Rightarrow> v)"
  by (induction ours) (auto simp: list_ex_iff)

lemma IsSupportedVersion_iff: "IsSupportedVersion supported v \<longleftrightarrow> v \<in> set supported"
  by (induction supported) auto

end
