(* ===== verification/Qerr.thy ===== *)
theory Qerr
  imports Prelude
begin

text \<open>
  The error codes of \<^verbatim>\<open>qerr/error_codes.go\<close> that the modelled components return.
\<close>

definition InternalError :: ErrorCode where "InternalError = 1"
definition StreamDataAfterTermination :: ErrorCode where "StreamDataAfterTermination = 2"
definition InvalidPacketHeader :: ErrorCode where "InvalidPacketHeader = 3"
definition InvalidFrameData :: ErrorCode where "InvalidFrameData = 4"
definition InvalidRstStreamData :: ErrorCode where "InvalidRstStreamData = 6"
definition InvalidConnectionCloseData :: ErrorCode where "InvalidConnectionCloseData = 7"
definition InvalidGoawayData :: ErrorCode where "InvalidGoawayData = 8"
definition InvalidAckData :: ErrorCode where "InvalidAckData = 9"
definition InvalidVersionNegotiationPacket :: ErrorCode where "InvalidVersionNegotiationPacket = 10"
definition DecryptionFailure :: ErrorCode where "DecryptionFailure = 12"
definition CryptoTooManyEntries :: ErrorCode where "CryptoTooManyEntries = 30"
definition CryptoInvalidValueLength :: ErrorCode where "CryptoInvalidValueLength = 31"
definition InvalidCryptoMessageParameter :: ErrorCode where "InvalidCryptoMessageParameter = 34"
definition InvalidStreamData :: ErrorCode where "InvalidStreamData = 46"
definition MissingPayload :: ErrorCode where "MissingPayload = 48"
definition EmptyStreamFrameNoFin :: ErrorCode where "EmptyStreamFrameNoFin = 50"
definition InvalidWindowUpdateData :: ErrorCode where "InvalidWindowUpdateData = 57"
definition InvalidBlockedData :: ErrorCode where "InvalidBlockedData = 58"
definition FlowControlReceivedTooMuchData :: ErrorCode where "FlowControlReceivedTooMuchData = 59"
definition InvalidStopWaitingData :: ErrorCode where "InvalidStopWaitingData = 60"
definition UnencryptedStreamData :: ErrorCode where "UnencryptedStreamData = 61"
definition TooManyOutstandingReceivedPackets :: ErrorCode where "TooManyOutstandingReceivedPackets = 69"
definition InvalidPathCloseData :: ErrorCode where "InvalidPathCloseData = 78"

section \<open>Errors on the wire\<close>

text \<open>
  \<^verbatim>\<open>ToQuicError\<close>: a bare error code gets an empty message, any other error that is not a \<^verbatim>\<open>QuicError\<close> is
  an internal error. \<open>errorCodeOf\<close> is the field \<^verbatim>\<open>ErrorCode\<close> of the result.
\<close>

fun ToQuicError :: "error \<Rightarrow> error" where
  "ToQuicError (QuicError c m) = QuicError c m"
| "ToQuicError (QuicErrorf c m args) = QuicErrorf c m args"
| "ToQuicError (QuicErrorWrap c e) = QuicErrorWrap c e"
| "ToQuicError (Code c) = QuicError c []"
| "ToQuicError e = QuicErrorWrap InternalError e"

fun errorCodeOf :: "error \<Rightarrow> ErrorCode" where
  "errorCodeOf (QuicError c m) = c"
| "errorCodeOf (QuicErrorf c m args) = c"
| "errorCodeOf (QuicErrorWrap c e) = c"
| "errorCodeOf (Code c) = c"
| "errorCodeOf e = InternalError"

end
