(* ===== verification/AckRanges.thy ===== *)
theory AckRanges
  imports ByteOrder Protocol
begin

text \<open>
  The ACK ranges that \<^verbatim>\<open>AckFrame\<close> and \<^verbatim>\<open>ClosePathFrame\<close> share (\<^verbatim>\<open>internal/wire\<close>: \<^verbatim>\<open>ack_range.go\<close> and
  the code that \<^verbatim>\<open>ack_frame.go\<close> and \<^verbatim>\<open>close_path_frame.go\<close> have in common): validation of received
  ranges, the number of blocks that can be written, the width of a block length, and the encoding
  of the ranges as blocks of a gap and a length, where a gap of more than 255 packets takes several
  blocks. The writer and the reader of a block length are the interface \<open>block_codec\<close>.
\<close>

section \<open>Definitions\<close>

record AckRange =
  First :: PacketNumber
  Last :: PacketNumber

lemma AckRange_eta [simp]: "\<lparr>First = First r, Last = Last r\<rparr> = r"
  by (cases r) simp

definition ErrInvalidAckRanges :: error where
  "ErrInvalidAckRanges = ErrNew ''AckFrame: ACK frame contains invalid ACK ranges''"
definition ErrInvalidFirstAckRange :: error where
  "ErrInvalidFirstAckRange = ErrNew ''AckFrame: ACK frame has invalid first ACK range''"
definition errInconsistentAckLargestAcked :: error where
  "errInconsistentAckLargestAcked = ErrNew ''internal inconsistency: LargestAcked does not match ACK ranges''"
definition errInconsistentAckLowestAcked :: error where
  "errInconsistentAckLowestAcked = ErrNew ''internal inconsistency: LowestAcked does not match ACK ranges''"

subsection \<open>Validation and measures\<close>

text \<open>The second loop of \<^verbatim>\<open>validateAckRanges\<close>: each range against the one before it.\<close>

fun ranges_consistent :: "AckRange list \<Rightarrow> bool" where
  "ranges_consistent (lastAckRange # ackRange # rs) =
     (if First lastAckRange \<le> First ackRange then False
      else if First lastAckRange \<le> Last ackRange + 1 then False
      else ranges_consistent (ackRange # rs))"
| "ranges_consistent rs = True"

definition validateAckRanges :: "PacketNumber \<Rightarrow> AckRange list \<Rightarrow> bool" where
  "validateAckRanges largestAcked ackRanges =
     (case ackRanges of
        [] \<Rightarrow> True
      | [r] \<Rightarrow> False
      | r # _ \<Rightarrow>
          if Last r \<noteq> largestAcked then False
          else if \<not> list_all (\<lambda>r. First r \<le> Last r) ackRanges then False
          else ranges_consistent ackRanges)"

text \<open>The number of blocks for the gap between two ranges.\<close>

definition gapBetween :: "AckRange \<Rightarrow> AckRange \<Rightarrow> PacketNumber" where
  "gapBetween lastAckRange ackRange = First lastAckRange - Last ackRange - 1"

definition gapBlocks :: "PacketNumber \<Rightarrow> u64" where
  "gapBlocks gap = (if gap mod 255 = 0 then gap div 255 + 1 - 1 else gap div 255 + 1)"

fun numWritableNackRanges_loop :: "u64 \<Rightarrow> AckRange list \<Rightarrow> u64" where
  "numWritableNackRanges_loop numRanges (lastAckRange # ackRange # rs) =
     (let rangeLength = gapBlocks (gapBetween lastAckRange ackRange) in
      if numRanges + rangeLength < 255
      then numWritableNackRanges_loop (numRanges + rangeLength) (ackRange # rs)
      else numRanges)"
| "numWritableNackRanges_loop numRanges rs = numRanges"

definition numWritableNackRanges :: "AckRange list \<Rightarrow> u64" where
  "numWritableNackRanges ackRanges =
     (if ackRanges = [] then 0 else numWritableNackRanges_loop 0 ackRanges + 1)"

definition rangeLen :: "AckRange \<Rightarrow> PacketNumber" where
  "rangeLen r = Last r - First r + 1"

definition maxRangeLength :: "AckRange list \<Rightarrow> PacketNumber" where
  "maxRangeLength ackRanges = fold (\<lambda>r m. if rangeLen r > m then rangeLen r else m) ackRanges 0"

definition getMissingSequenceNumberDeltaLen ::
    "PacketNumber \<Rightarrow> PacketNumber \<Rightarrow> AckRange list \<Rightarrow> PacketNumberLen" where
  "getMissingSequenceNumberDeltaLen largestAcked lowestAcked ackRanges =
     (let m = (if ackRanges \<noteq> [] then maxRangeLength ackRanges else largestAcked - lowestAcked + 1) in
      if m \<le> 0xFF then PacketNumberLen1
      else if m \<le> 0xFFFF then PacketNumberLen2
      else if m \<le> 0xFFFFFFFF then PacketNumberLen4
      else PacketNumberLen6)"

definition AcksPacket :: "PacketNumber \<Rightarrow> PacketNumber \<Rightarrow> AckRange list \<Rightarrow> PacketNumber \<Rightarrow> bool" where
  "AcksPacket largestAcked lowestAcked ackRanges p =
     (if p < lowestAcked \<or> p > largestAcked then False
      else if ackRanges \<noteq> [] then list_ex (\<lambda>r. p \<ge> First r \<and> p \<le> Last r) ackRanges
      else p \<ge> lowestAcked \<and> p \<le> largestAcked)"

subsection \<open>Writing blocks\<close>

text \<open>
  The \<^verbatim>\<open>switch\<close> over the length of a number. \<open>wr48\<close> is the 48-bit case, where the two frame
  types differ; no case applies to any other length.
\<close>

definition writeBySwitch ::
    "ByteOrder \<Rightarrow> (u64 \<Rightarrow> error + byte list) \<Rightarrow> PacketNumberLen \<Rightarrow> u64 \<Rightarrow> error + byte list" where
  "writeBySwitch bo wr48 len x =
     (if len = PacketNumberLen1 then Inr [ucast x]
      else if len = PacketNumberLen2 then Inr (WriteUint16 bo (ucast x))
      else if len = PacketNumberLen4 then Inr (WriteUint32 bo (ucast x))
      else if len = PacketNumberLen6 then wr48 x
      else Inr [])"

text \<open>The loop for a gap of several blocks, by the number of blocks still to write: the last block
  carries the length of the range, the others carry length 0 and gap 255.\<close>

fun writeLongGap ::
    "(u64 \<Rightarrow> error + byte list) \<Rightarrow> PacketNumber \<Rightarrow> PacketNumber \<Rightarrow> nat \<Rightarrow> error + byte list" where
  "writeLongGap wr gap len 0 = Inr []"
| "writeLongGap wr gap len (Suc k) =
     (let (lengthWritten, gapWritten) =
            (if k = 0 then (len, ucast (1 + (gap - 1) mod 255)) else (0, 0xFF :: byte))
      in bind_r (wr lengthWritten) (\<lambda>bs.
         bind_r (writeLongGap wr gap len k) (\<lambda>rest. Inr (gapWritten # bs @ rest))))"

definition writeAckRange ::
    "(u64 \<Rightarrow> error + byte list) \<Rightarrow> AckRange \<Rightarrow> AckRange \<Rightarrow> error + (byte list \<times> u64)" where
  "writeAckRange wr lastAckRange ackRange =
     (let len = rangeLen ackRange;
          gap = gapBetween lastAckRange ackRange;
          num = gapBlocks gap
      in if num = 1 then bind_r (wr len) (\<lambda>bs. Inr (ucast gap # bs, 1))
         else bind_r (writeLongGap wr gap len (unat num)) (\<lambda>bs. Inr (bs, num)))"

fun writeAckRanges ::
    "(u64 \<Rightarrow> error + byte list) \<Rightarrow> u64 \<Rightarrow> u64 \<Rightarrow> AckRange list \<Rightarrow> error + (byte list \<times> u64)" where
  "writeAckRanges wr numRanges numRangesWritten (lastAckRange # ackRange # rs) =
     bind_r (writeAckRange wr lastAckRange ackRange) (\<lambda>(bs, n).
       if numRangesWritten + n \<ge> numRanges then Inr (bs, numRangesWritten + n)
       else bind_r (writeAckRanges wr numRanges (numRangesWritten + n) (ackRange # rs)) (\<lambda>(bs', n').
         Inr (bs @ bs', n')))"
| "writeAckRanges wr numRanges numRangesWritten rs = Inr ([], numRangesWritten)"

text \<open>The first block length, after the two consistency checks.\<close>

definition firstAckBlockLength ::
    "PacketNumber \<Rightarrow> PacketNumber \<Rightarrow> AckRange list \<Rightarrow> error + PacketNumber" where
  "firstAckBlockLength largestAcked lowestAcked ackRanges =
     (if ackRanges = [] then Inr (largestAcked - lowestAcked + 1)
      else if largestAcked \<noteq> Last (hd ackRanges) then Inl errInconsistentAckLargestAcked
      else if lowestAcked \<noteq> First (last ackRanges) then Inl errInconsistentAckLowestAcked
      else Inr (largestAcked - First (hd ackRanges) + 1))"

subsection \<open>Reading blocks\<close>

text \<open>The length of a number from two bits of the type byte: twice their value, or 1.\<close>

definition flagLen :: "byte \<Rightarrow> byte" where
  "flagLen bits = (if 2 * bits = 0 then 1 else 2 * bits)"

text \<open>
  The loop over \<^verbatim>\<open>numAckBlocks\<close>, by the number of blocks still to read. The list of ranges is not
  empty when the loop is entered, so \<^verbatim>\<open>frame.AckRanges[len(frame.AckRanges)-1]\<close> is its last element.
  The result is \<^verbatim>\<open>lastRangeComplete\<close> and the ranges.
\<close>

definition addBlock :: "bool \<Rightarrow> AckRange list \<Rightarrow> byte \<Rightarrow> PacketNumber \<Rightarrow> AckRange list" where
  "addBlock inLongBlock ackRanges gap len =
     (if inLongBlock
      then butlast ackRanges @
        [\<lparr>First = First (last ackRanges) - (ucast gap + len), Last = Last (last ackRanges) - ucast gap\<rparr>]
      else let lst = First (last ackRanges) - ucast gap - 1
           in ackRanges @ [\<lparr>First = lst - len + 1, Last = lst\<rparr>])"

fun parseAckBlocks :: "u64 parser \<Rightarrow> nat \<Rightarrow> bool \<Rightarrow> bool \<Rightarrow> AckRange list \<Rightarrow> (bool \<times> AckRange list) parser" where
  "parseAckBlocks rd 0 inLongBlock lastRangeComplete ackRanges = return_p (lastRangeComplete, ackRanges)"
| "parseAckBlocks rd (Suc n) inLongBlock lastRangeComplete ackRanges =
     bind_p ReadByte (\<lambda>gap.
     bind_p rd (\<lambda>len.
       let complete = (if inLongBlock then lastRangeComplete else False)
       in parseAckBlocks rd n (len = 0) (if len > 0 then True else complete)
            (addBlock inLongBlock ackRanges gap len)))"

text \<open>The part of the two parsers from the first block length to the lowest acknowledged packet.\<close>

definition parseAckRanges ::
    "u64 parser \<Rightarrow> bool \<Rightarrow> byte \<Rightarrow> PacketNumber \<Rightarrow> (PacketNumber \<times> AckRange list) parser" where
  "parseAckRanges rd hasMissingRanges numAckBlocks largestAcked =
     bind_p rd (\<lambda>ackBlockLength.
       if largestAcked > 0 \<and> ackBlockLength < 1 then fail_p ErrInvalidFirstAckRange
       else if ackBlockLength > largestAcked then fail_p ErrInvalidAckRanges
       else if hasMissingRanges then
         bind_p (parseAckBlocks rd (unat numAckBlocks) False False
                   [\<lparr>First = largestAcked - ackBlockLength + 1, Last = largestAcked\<rparr>])
           (\<lambda>(lastRangeComplete, ackRanges).
              let ackRanges = (if \<not> lastRangeComplete then butlast ackRanges else ackRanges)
              in return_p (First (last ackRanges), ackRanges))
       else return_p (if largestAcked = 0 then 0 else largestAcked + 1 - ackBlockLength, []))"

section \<open>Well-formed ranges\<close>

text \<open>
  Ranges in descending order, each not empty, with at least one packet missing between two of them;
  stated on the unsigned values, so that nothing wraps around.
\<close>

definition wf_ranges :: "AckRange list \<Rightarrow> bool" where
  "wf_ranges rs \<longleftrightarrow>
     sorted_wrt (\<lambda>a b. unat (Last b) + 1 < unat (First a)) rs \<and> (\<forall>r \<in> set rs. First r \<le> Last r)"

definition range_set :: "AckRange list \<Rightarrow> PacketNumber set" where
  "range_set rs = {p. \<exists>r \<in> set rs. First r \<le> p \<and> p \<le> Last r}"

lemma wf_ranges_Cons:
  "wf_ranges (a # b # rs) \<longleftrightarrow>
     unat (Last b) + 1 < unat (First a) \<and> First a \<le> Last a \<and> wf_ranges (b # rs)"
proof -
  have "unat (Last r) + 1 < unat (First a)"
    if "unat (Last b) + 1 < unat (First a)" "wf_ranges (b # rs)" "r \<in> set rs" for r
  proof -
    have "unat (Last r) + 1 < unat (First b)" "First b \<le> Last b"
      using that by (auto simp: wf_ranges_def)
    with that(1) show ?thesis by (simp add: word_le_nat_alt)
  qed
  then show ?thesis unfolding wf_ranges_def by auto
qed

lemma wf_ranges_ConsD:
  assumes "wf_ranges (a # b # rs)"
  shows "unat (Last b) + 1 < unat (First a)" "First b \<le> Last b" "wf_ranges (b # rs)"
  using assms by (auto simp: wf_ranges_def)

lemma wf_ranges_single [simp]: "wf_ranges [a] \<longleftrightarrow> First a \<le> Last a"
  by (simp add: wf_ranges_def)

lemma wf_ranges_hd_greatest:
  "wf_ranges (a # rs) \<Longrightarrow> r \<in> set (a # rs) \<Longrightarrow> Last r \<le> Last a"
  by (auto simp: wf_ranges_def word_le_nat_alt dest!: bspec)

lemma wf_ranges_last_least:
  assumes "wf_ranges rs" "r \<in> set rs"
  shows "First (last rs) \<le> First r"
  using assms
proof (induction rs arbitrary: r rule: induct_list012)
  case (3 a b rs)
  from 3(3) have wf: "unat (Last b) + 1 < unat (First a)" "wf_ranges (b # rs)"
    by (auto simp: wf_ranges_Cons)
  have b: "First (last (b # rs)) \<le> First b" using 3(2) [OF wf(2)] by simp
  show ?case
  proof (cases "r = a")
    case True
    have "First b \<le> Last b" using wf(2) by (simp add: wf_ranges_def)
    with b wf(1) True show ?thesis by (simp add: word_le_nat_alt)
  next
    case False
    with 3 wf show ?thesis by simp
  qed
qed auto

text \<open>The linear search of \<^verbatim>\<open>AcksPacket\<close>, and its shortcut, decide membership in the ranges.\<close>

lemma AcksPacket_ranges:
  assumes "wf_ranges rs" "rs \<noteq> []" "Last (hd rs) = largest" "First (last rs) = lowest"
  shows "AcksPacket largest lowest rs p \<longleftrightarrow> p \<in> range_set rs"
proof -
  obtain a rs' where rs: "rs = a # rs'" using assms(2) by (cases rs) auto
  have "lowest \<le> p \<and> p \<le> largest" if "p \<in> range_set rs"
  proof -
    from that obtain r where r: "r \<in> set rs" "First r \<le> p" "p \<le> Last r" by (auto simp: range_set_def)
    have "Last r \<le> largest" using wf_ranges_hd_greatest [of a rs' r] assms(1,3) r(1) rs by simp
    moreover have "lowest \<le> First r" using wf_ranges_last_least [OF assms(1) r(1)] assms(4) by simp
    ultimately show ?thesis using r by (meson order_trans)
  qed
  moreover have "AcksPacket largest lowest rs p \<longleftrightarrow> lowest \<le> p \<and> p \<le> largest \<and> p \<in> range_set rs"
    using assms(2) by (auto simp: AcksPacket_def range_set_def list_ex_iff)
  ultimately show ?thesis by blast
qed

section \<open>Gaps\<close>

lemma unat_gapBetween:
  assumes "unat (Last b) + 1 < unat (First a)"
  shows "unat (gapBetween a b) = unat (First a) - unat (Last b) - 1" "1 \<le> unat (gapBetween a b)"
proof -
  have "unat (First a - Last b) = unat (First a) - unat (Last b)"
    using assms by (simp add: unat_sub word_le_nat_alt)
  then show "unat (gapBetween a b) = unat (First a) - unat (Last b) - 1"
    using assms unfolding gapBetween_def by (subst unat_sub) (auto simp: word_le_nat_alt)
  then show "1 \<le> unat (gapBetween a b)" using assms by simp
qed

lemma ceil_div_255: "1 \<le> g \<Longrightarrow>
    (if g mod 255 = 0 then g div 255 else g div 255 + 1) = (g - 1) div 255 + 1" for g :: nat
proof -
  assume "1 \<le> g"
  then obtain h where g: "g = Suc h" by (cases g) auto
  show ?thesis
  proof (cases "Suc h mod 255 = 0")
    case True
    then have "Suc (h mod 255) = 255" by (auto simp: mod_Suc split: if_splits)
    then show ?thesis using True g by (simp add: div_Suc)
  next
    case False
    then show ?thesis using g by (simp add: div_Suc)
  qed
qed

lemma unat_gapBlocks:
  assumes "1 \<le> unat gap"
  shows "unat (gapBlocks gap) = (unat gap - 1) div 255 + 1"
proof -
  have "unat gap div 255 + 1 < 2 ^ 64"
  proof -
    have "unat gap \<le> 2 ^ 64"
      using unsigned_less [of gap, where 'a = nat] by simp
    then have "unat gap div 255 \<le> 2 ^ 64 div 255" by (rule div_le_mono)
    then show ?thesis by simp
  qed
  then have 1: "unat (gap div 255 + 1) = unat gap div 255 + 1"
    by (simp add: unat_add_noov unat_div)
  have 2: "(gap mod 255 = 0) = (unat gap mod 255 = 0)"
    by (simp add: word_unat_eq_iff unat_mod)
  show ?thesis
    using ceil_div_255 [OF assms] unfolding gapBlocks_def 2
    by (simp add: 1 unat_div split: if_splits)
qed

lemma gap_split: "1 \<le> g \<Longrightarrow> (g - 1) div 255 * 255 + (1 + (g - 1) mod 255) = g" for g :: nat
  by simp

text \<open>A gap below 256 fits a byte, and so does the gap in the last of several blocks.\<close>

lemma small_gap_byte: "unat gap < 256 \<Longrightarrow> ucast (ucast (gap :: u64) :: byte) = gap"
  unfolding word_unat_eq_iff by (simp add: unsigned_ucast_eq unat_take_bit)

lemma last_gap_byte: "ucast (ucast (1 + (gap - 1) mod 255 :: u64) :: byte) = 1 + (gap - 1) mod 255"
proof -
  have "unat ((gap - 1) mod 255) < 255" by (simp add: unat_mod)
  then have u: "unat (1 + (gap - 1) mod 255 :: u64) = 1 + unat ((gap - 1) mod 255)"
    and lt: "unat (1 + (gap - 1) mod 255 :: u64) < 256"
    by (simp_all add: unat_add_noov)
  show ?thesis
    using lt by (rule small_gap_byte)
qed

lemma rangeLen_pos:
  assumes "First b \<le> Last b" "unat (Last b) + 1 < unat (First a)"
  shows "rangeLen b > 0"
proof -
  have "unat (Last b - First b) = unat (Last b) - unat (First b)"
    using assms(1) by (simp add: unat_sub)
  moreover have "unat (Last b) + 1 < 2 ^ 64"
    using assms(2) unsigned_less [of "First a", where 'a = nat] by simp
  ultimately have "unat (rangeLen b) = unat (Last b) - unat (First b) + 1"
    unfolding rangeLen_def by (subst unat_add_noov) auto
  then show ?thesis by (simp add: word_less_nat_alt)
qed

text \<open>A first range that does not contain packet 0 passes the two checks on the first block.\<close>

lemma first_len:
  assumes "First a \<le> Last a" "First a \<noteq> 0"
  shows "(rangeLen a < 1) = False" "(Last a < rangeLen a) = False" "Last a - rangeLen a + 1 = First a"
proof -
  have "unat (Last a - First a) = unat (Last a) - unat (First a)"
    using assms(1) by (simp add: unat_sub)
  moreover have "1 \<le> unat (First a)" using assms(2) by (simp add: Suc_leI unat_gt_0)
  ultimately have "unat (rangeLen a) = unat (Last a) - unat (First a) + 1"
    using unsigned_less [of "Last a", where 'a = nat] assms(1)
    unfolding rangeLen_def by (subst unat_add_noov) (auto simp: word_le_nat_alt)
  with \<open>1 \<le> unat (First a)\<close> assms(1)
  show "(rangeLen a < 1) = False" "(Last a < rangeLen a) = False"
    by (auto simp: word_less_nat_alt word_le_nat_alt)
  show "Last a - rangeLen a + 1 = First a" by (simp add: rangeLen_def)
qed

text \<open>The blocks of a long gap add up to the gap.\<close>

lemma long_gap_sum:
  assumes "1 \<le> unat (g :: u64)" "(unat g - 1) div 255 = Suc k"
  shows "255 + (of_nat (k * 255) + (1 + (g - 1) mod 255)) = g"
proof -
  have pred: "unat (g - 1) = unat g - 1" using assms(1) by (subst unat_sub) (auto simp: word_le_nat_alt)
  have "255 + (k * 255 + (1 + (unat g - 1) mod 255)) = unat g"
    using gap_split [OF assms(1)] unfolding assms(2) by (simp only: mult_Suc add.assoc)
  then have "(of_nat (255 + (k * 255 + (1 + (unat g - 1) mod 255))) :: u64) = of_nat (unat g)"
    by (rule arg_cong)
  moreover have "(of_nat ((unat g - 1) mod 255) :: u64) = (g - 1) mod 255"
    by (simp add: word_unat_eq_iff unat_mod pred unat_of_nat)
  ultimately show ?thesis by (simp del: unat_minus_one)
qed

section \<open>Which ranges are written\<close>

text \<open>
  The ranges after the first that \<^verbatim>\<open>numWritableNackRanges\<close> counts, when \<open>m\<close> blocks are used up
  already: as many as fit below 255 blocks.
\<close>

fun writableRanges :: "u64 \<Rightarrow> AckRange list \<Rightarrow> AckRange list" where
  "writableRanges m (a # b # rs) =
     (if m + gapBlocks (gapBetween a b) < 255
      then b # writableRanges (m + gapBlocks (gapBetween a b)) (b # rs) else [])"
| "writableRanges m rs = []"

lemma writableRanges_prefix: "\<exists>k. writableRanges m rs = take k (tl rs)"
proof (induction m rs rule: writableRanges.induct)
  case (1 m a b rs)
  then show ?case
    by (auto intro: exI [of _ 0]) (metis take_Suc_Cons)
qed (auto intro: exI [of _ 0])

lemma gapBlocks_bounds:
  assumes "unat (Last b) + 1 < unat (First a)"
  shows "1 \<le> unat (gapBlocks (gapBetween a b))" "unat (gapBlocks (gapBetween a b)) < 2 ^ 63"
proof -
  note g = unat_gapBetween [OF assms]
  have "(unat (gapBetween a b) - 1) div 255 \<le> 2 ^ 64 div 255"
    using unsigned_less [of "gapBetween a b", where 'a = nat] by (intro div_le_mono) simp
  then show "1 \<le> unat (gapBlocks (gapBetween a b))" "unat (gapBlocks (gapBetween a b)) < 2 ^ 63"
    using unat_gapBlocks [OF g(2)] by simp_all
qed

text \<open>Adding the blocks of one more range to a number of blocks below 255 does not wrap around.\<close>

lemma blocks_add:
  assumes "unat (Last b) + 1 < unat (First a)" "m < 255"
  shows "unat (m + gapBlocks (gapBetween a b)) = unat m + unat (gapBlocks (gapBetween a b))"
    "m < m + gapBlocks (gapBetween a b)"
proof -
  have "unat m < 255" using assms(2) by (simp add: word_less_nat_alt)
  then show add: "unat (m + gapBlocks (gapBetween a b)) = unat m + unat (gapBlocks (gapBetween a b))"
    using gapBlocks_bounds(2) [OF assms(1)] by (intro unat_add_noov) simp
  then show "m < m + gapBlocks (gapBetween a b)"
    using gapBlocks_bounds(1) [OF assms(1)] by (simp add: word_less_nat_alt)
qed

lemma succ_le_iff_eq:
  assumes "m \<le> N" "N < 255" "m < 255"
  shows "N + 1 \<le> m + 1 \<longleftrightarrow> N = (m :: u64)"
proof -
  have "unat N < 255" "unat m < 255" using assms by (simp_all add: word_less_nat_alt)
  then have "unat (N + 1) = unat N + 1" "unat (m + 1) = unat m + 1" by (simp_all add: unat_add_noov)
  then show ?thesis using assms(1) by (simp add: word_le_nat_alt word_unat_eq_iff le_antisym)
qed

lemma numWritableNackRanges_loop_bounds:
  assumes "wf_ranges rs" "m < 255"
  shows "m \<le> numWritableNackRanges_loop m rs \<and> numWritableNackRanges_loop m rs < 255"
  using assms
proof (induction m rs rule: numWritableNackRanges_loop.induct)
  case (1 m a b rs)
  then have "unat (Last b) + 1 < unat (First a)" "wf_ranges (b # rs)" by (auto simp: wf_ranges_Cons)
  with 1 blocks_add(2) [of b a m] show ?case by (fastforce simp: Let_def)
qed auto

lemma numWritableNackRanges_loop_stuck:
  assumes "wf_ranges rs" "m < 255" "numWritableNackRanges_loop m rs = m"
  shows "writableRanges m rs = []"
  using assms
proof (induction m rs rule: numWritableNackRanges_loop.induct)
  case (1 m a b rs)
  then have wf: "unat (Last b) + 1 < unat (First a)" "wf_ranges (b # rs)" by (auto simp: wf_ranges_Cons)
  have "\<not> m + gapBlocks (gapBetween a b) < 255"
  proof
    assume lt: "m + gapBlocks (gapBetween a b) < 255"
    then show False
      using numWritableNackRanges_loop_bounds [OF wf(2) lt] blocks_add(2) [OF wf(1) 1(3)] 1(4)
      by (auto simp: Let_def)
  qed
  then show ?case by simp
qed auto

text \<open>The number of blocks minus one fits a byte, and is not zero when a second range is written.\<close>

lemma numWritableNackRanges_Nil [simp]: "numWritableNackRanges [] = 0"
  by (simp add: numWritableNackRanges_def)

lemma numWritableNackRanges_le:
  assumes "wf_ranges rs"
  shows "numWritableNackRanges rs \<le> 255"
proof (cases "rs = []")
  case False
  have "unat (numWritableNackRanges_loop 0 rs) < 255"
    using numWritableNackRanges_loop_bounds [OF assms, of 0] by (simp add: word_less_nat_alt)
  then show ?thesis
    using False unfolding numWritableNackRanges_def word_le_nat_alt by (simp add: unat_add_noov)
qed (simp add: numWritableNackRanges_def)

lemma numWritableNackRanges_byte:
  assumes "wf_ranges rs" "writableRanges 0 rs \<noteq> []"
  shows "(ucast (numWritableNackRanges rs - 1) :: byte) \<noteq> 0"
proof
  assume 0: "(ucast (numWritableNackRanges rs - 1) :: byte) = 0"
  have "rs \<noteq> []" using assms(2) by auto
  then have num: "numWritableNackRanges rs - 1 = numWritableNackRanges_loop 0 rs"
    by (simp add: numWritableNackRanges_def)
  have "unat (numWritableNackRanges_loop 0 rs) < 256"
    using numWritableNackRanges_loop_bounds [OF assms(1), of 0] by (simp add: word_less_nat_alt)
  from small_gap_byte [OF this] 0 have "numWritableNackRanges_loop 0 rs = 0" by (simp add: num)
  with numWritableNackRanges_loop_stuck [OF assms(1), of 0] assms(2) show False by simp
qed

text \<open>A second range is written unless the first gap takes 255 blocks or more.\<close>

lemma writableRanges_first_gap:
  assumes "unat (Last b) + 1 < unat (First a)"
  shows "writableRanges 0 (a # b # rs) \<noteq> [] \<longleftrightarrow> unat (First a) - unat (Last b) - 1 \<le> 64770"
proof -
  define g where "g = unat (gapBetween a b)"
  have "gapBlocks (gapBetween a b) < 255 \<longleftrightarrow> (g - 1) div 255 < 254"
    using unat_gapBlocks [OF unat_gapBetween(2) [OF assms]] by (simp add: word_less_nat_alt g_def)
  also have "\<dots> \<longleftrightarrow> g - 1 < 254 * 255" by (rule div_less_iff_less_mult) simp
  also have "\<dots> \<longleftrightarrow> g \<le> 64770" by auto
  finally show ?thesis using unat_gapBetween(1) [OF assms] by (auto simp: g_def)
qed

section \<open>Blocks read back what was written\<close>

text \<open>
  What the encoding of the ranges needs from the writer and the reader of a block length: every
  length that \<open>fits\<close> is written, in \<open>width\<close> bytes, and read back.
\<close>

locale block_codec =
  fixes wr :: "u64 \<Rightarrow> error + byte list" and rd :: "u64 parser"
    and fits :: "u64 \<Rightarrow> bool" and width :: nat
  assumes fits_0: "fits 0"
    and wr_ok: "fits x \<Longrightarrow> \<exists>bs. wr x = Inr bs \<and> length bs = width \<and> (\<forall>r. rd (bs @ r) = Inr (x, r))"
begin

lemma parse_block:
  assumes "wr x = Inr bs" "fits x"
  shows "parseAckBlocks rd (Suc n) il c rs (g # bs @ r) =
     parseAckBlocks rd n (x = 0) (if x > 0 then True else if il then c else False)
       (if il then butlast rs @ [\<lparr>First = First (last rs) - (ucast g + x), Last = Last (last rs) - ucast g\<rparr>]
        else rs @ [\<lparr>First = First (last rs) - ucast g - 1 - x + 1, Last = First (last rs) - ucast g - 1\<rparr>]) r"
  using wr_ok [OF assms(2)] assms(1) by (auto simp: bind_p_apply Let_def addBlock_def)

text \<open>Inside a long gap, the remaining blocks move the last range down by what is left of the gap.\<close>

lemma parse_long_gap:
  assumes fits: "fits len" and len: "len > 0"
  shows "\<exists>bs. writeLongGap wr gap len (Suc k) = Inr bs \<and> length bs = Suc k * (1 + width) \<and>
     (\<forall>n c rs F L r. parseAckBlocks rd (Suc k + n) True c (rs @ [\<lparr>First = F, Last = L\<rparr>]) (bs @ r) =
        parseAckBlocks rd n False True
          (rs @ [\<lparr>First = F - (of_nat (k * 255) + (1 + (gap - 1) mod 255)) - len,
                  Last = L - (of_nat (k * 255) + (1 + (gap - 1) mod 255))\<rparr>]) r)"
proof (induction k)
  case 0
  from wr_ok [OF fits] obtain bs where bs: "wr len = Inr bs" "length bs = width" by blast
  have pos: "(len = 0) = False" "(0 < len) = True" using len by auto
  have "parseAckBlocks rd (Suc 0 + n) True c (rs @ [\<lparr>First = F, Last = L\<rparr>])
      ((ucast (1 + (gap - 1) mod 255) # bs) @ r) =
    parseAckBlocks rd n False True
      (rs @ [\<lparr>First = F - (1 + (gap - 1) mod 255) - len, Last = L - (1 + (gap - 1) mod 255)\<rparr>]) r"
    for n c rs F L r
    using parse_block [OF bs(1) fits, of n True c "rs @ [\<lparr>First = F, Last = L\<rparr>]"
        "ucast (1 + (gap - 1) mod 255)" r]
    by (simp only: last_gap_byte pos if_True append_Cons plus_nat.add_Suc plus_nat.add_0
        butlast_snoc last_snoc AckRange.select_convs diff_diff_eq)
  then show ?case using bs by simp
next
  case (Suc k)
  from wr_ok [OF fits_0] obtain z where z: "wr 0 = Inr z" "length z = width" by blast
  from Suc.IH obtain bs where bs: "writeLongGap wr gap len (Suc k) = Inr bs"
      "length bs = Suc k * (1 + width)"
    and IH: "\<And>n c rs F L r. parseAckBlocks rd (Suc k + n) True c (rs @ [\<lparr>First = F, Last = L\<rparr>]) (bs @ r) =
        parseAckBlocks rd n False True
          (rs @ [\<lparr>First = F - (of_nat (k * 255) + (1 + (gap - 1) mod 255)) - len,
                  Last = L - (of_nat (k * 255) + (1 + (gap - 1) mod 255))\<rparr>]) r"
    by blast
  have "writeLongGap wr gap len (Suc (Suc k)) = Inr (255 # z @ bs)"
    using bs(1) z(1) by (subst writeLongGap.simps) simp
  moreover have "length (255 # z @ bs) = Suc (Suc k) * (1 + width)"
    using bs(2) z(2) by simp
  moreover have more: "of_nat (Suc k * 255) + (1 + (gap - 1) mod 255) =
      255 + (of_nat (k * 255) + (1 + (gap - 1) mod 255))"
    by (simp only: mult_Suc of_nat_add of_nat_numeral add.assoc)
  moreover have "parseAckBlocks rd (Suc (Suc k) + n) True c (rs @ [\<lparr>First = F, Last = L\<rparr>]) ((255 # z @ bs) @ r) =
        parseAckBlocks rd n False True
          (rs @ [\<lparr>First = F - (of_nat (Suc k * 255) + (1 + (gap - 1) mod 255)) - len,
                  Last = L - (of_nat (Suc k * 255) + (1 + (gap - 1) mod 255))\<rparr>]) r"
    for n c rs F L r
    using parse_block [OF z(1) fits_0, of "Suc k + n" True c "rs @ [\<lparr>First = F, Last = L\<rparr>]" 255 "bs @ r"]
      IH [of n c rs "F - 255" "L - 255" r]
    unfolding more by (simp add: diff_diff_eq del: parseAckBlocks.simps)
  ultimately show ?case by blast
qed

lemma parse_range:
  assumes gap: "unat (Last b) + 1 < unat (First a)" and "First b \<le> Last b" and fits: "fits (rangeLen b)"
  shows "\<exists>bs. writeAckRange wr a b = Inr (bs, gapBlocks (gapBetween a b)) \<and>
     length bs = unat (gapBlocks (gapBetween a b)) * (1 + width) \<and>
     (\<forall>n c rs r. parseAckBlocks rd (unat (gapBlocks (gapBetween a b)) + n) False c (rs @ [a]) (bs @ r) =
        parseAckBlocks rd n False True (rs @ [a, b]) r)"
proof -
  define g where "g = gapBetween a b"
  note gu = unat_gapBetween [OF gap, folded g_def]
  have blocks: "unat (gapBlocks g) = (unat g - 1) div 255 + 1"
    by (rule unat_gapBlocks [OF gu(2)])
  have len: "rangeLen b > 0" by (rule rangeLen_pos [OF assms(2) gap])
  have pos: "(rangeLen b = 0) = False" "(0 < rangeLen b) = True" using len by auto
  have ends: "First a - g - 1 = Last b" "Last b - rangeLen b + 1 = First b"
    by (simp_all add: g_def gapBetween_def rangeLen_def)
  show ?thesis
  proof (cases "gapBlocks g = 1")
    case True
    then have "(unat g - 1) div 255 = 0" using blocks by simp
    then have "unat g < 256" by (simp add: div_eq_0_iff)
    note byte = small_gap_byte [OF this]
    from wr_ok [OF fits] obtain bs where bs: "wr (rangeLen b) = Inr bs" "length bs = width" by blast
    have "parseAckBlocks rd (1 + n) False c (rs @ [a]) ((ucast g # bs) @ r) =
        parseAckBlocks rd n False True (rs @ [a, b]) r" for n c rs r
      using parse_block [OF bs(1) fits, of n False c "rs @ [a]" "ucast g" r]
      by (simp add: byte ends pos del: parseAckBlocks.simps)
    then show ?thesis
      using True bs unfolding writeAckRange_def g_def [symmetric] by (auto simp: Let_def)
  next
    case False
    then have "(unat g - 1) div 255 \<noteq> 0" using blocks by (simp add: word_unat_eq_iff)
    then obtain k where k: "(unat g - 1) div 255 = Suc k" by (cases "(unat g - 1) div 255") auto
    with blocks have num: "unat (gapBlocks g) = Suc (Suc k)" by simp
    obtain z where z: "wr 0 = Inr z" "length z = width" using wr_ok [OF fits_0] by blast
    obtain bs where bs: "writeLongGap wr g (rangeLen b) (Suc k) = Inr bs" "length bs = Suc k * (1 + width)"
      and parse: "\<And>n c rs F L r. parseAckBlocks rd (Suc k + n) True c (rs @ [\<lparr>First = F, Last = L\<rparr>]) (bs @ r) =
        parseAckBlocks rd n False True
          (rs @ [\<lparr>First = F - (of_nat (k * 255) + (1 + (g - 1) mod 255)) - rangeLen b,
                  Last = L - (of_nat (k * 255) + (1 + (g - 1) mod 255))\<rparr>]) r"
      using parse_long_gap [OF fits len, of g k] by blast
    define t where "t = of_nat (k * 255) + (1 + (g - 1) mod 255)"
    have t: "g = 255 + t" unfolding t_def by (rule long_gap_sum [OF gu(2) k, symmetric])
    have last: "First a - 256 - t = Last b"
      using ends(1) unfolding t by (simp add: diff_diff_eq add.commute)
    moreover have "First a - 255 - t - rangeLen b = (First a - 256 - t) - rangeLen b + 1"
      by simp
    ultimately have ends': "First a - 255 - t - rangeLen b = First b" "First a - 256 - t = Last b"
      using ends(2) by simp_all
    have "writeLongGap wr g (rangeLen b) (Suc (Suc k)) = Inr (255 # z @ bs)"
      using bs(1) z(1) by (subst writeLongGap.simps) simp
    moreover have "parseAckBlocks rd (Suc (Suc k) + n) False c (rs @ [a]) ((255 # z @ bs) @ r) =
        parseAckBlocks rd n False True (rs @ [a, b]) r" for n c rs r
      using parse_block [OF z(1) fits_0, of "Suc k + n" False c "rs @ [a]" 255 "bs @ r"]
        parse [of n False "rs @ [a]" "First a - 255" "First a - 256" r, folded t_def] ends'
      by (simp del: parseAckBlocks.simps)
    ultimately show ?thesis
      using False z bs num unfolding writeAckRange_def g_def [symmetric] by (auto simp: Let_def)
  qed
qed

text \<open>
  The writer's loop emits exactly the blocks that were counted beforehand, and reading them gives
  the counted ranges; the loop must be entered with something left to write.
\<close>

lemma parse_ranges:
  assumes "wf_ranges rs" "m < 255" "numWritableNackRanges_loop m rs \<noteq> m"
    and "\<And>r. r \<in> set rs \<Longrightarrow> fits (rangeLen r)"
  shows "\<exists>bs. writeAckRanges wr (numWritableNackRanges_loop m rs + 1) (m + 1) rs =
       Inr (bs, numWritableNackRanges_loop m rs + 1) \<and>
     length bs = (unat (numWritableNackRanges_loop m rs) - unat m) * (1 + width) \<and>
     (\<forall>n c pre r. parseAckBlocks rd (unat (numWritableNackRanges_loop m rs) - unat m + n) False c (pre @ [hd rs]) (bs @ r) =
        parseAckBlocks rd n False True (pre @ hd rs # writableRanges m rs) r)"
  using assms
proof (induction m rs rule: numWritableNackRanges_loop.induct)
  case (1 m a b rs)
  define g where "g = gapBlocks (gapBetween a b)"
  define N where "N = numWritableNackRanges_loop m (a # b # rs)"
  note wf = wf_ranges_ConsD [OF 1(2)]
  have lt: "m + g < 255" and N: "N = numWritableNackRanges_loop (m + g) (b # rs)"
    using 1(4) by (auto simp: N_def g_def Let_def split: if_splits)
  have mg: "unat (m + g) = unat m + unat g" using blocks_add [OF wf(1) 1(3)] by (simp add: g_def)
  have N_bounds: "m + g \<le> N" "N < 255"
    using numWritableNackRanges_loop_bounds [OF wf(3) lt] by (simp_all add: N)
  obtain bs where bs: "writeAckRange wr a b = Inr (bs, g)" "length bs = unat g * (1 + width)"
    and parse: "\<And>n c rs r. parseAckBlocks rd (unat g + n) False c (rs @ [a]) (bs @ r) =
        parseAckBlocks rd n False True (rs @ [a, b]) r"
    using parse_range [OF wf(1,2) 1(5)] unfolding g_def by auto
  have writable: "writableRanges m (a # b # rs) = b # writableRanges (m + g) (b # rs)"
    using lt by (simp add: g_def)
  have le_iff: "N + 1 \<le> m + 1 + g \<longleftrightarrow> N = m + g"
    using succ_le_iff_eq [OF N_bounds lt] by (simp only: add.commute add.left_commute)
  show ?case
  proof (cases "N = m + g")
    case True
    then have "writableRanges (m + g) (b # rs) = []"
      using numWritableNackRanges_loop_stuck [OF wf(3) lt] N by simp
    moreover have "writeAckRanges wr (N + 1) (m + 1) (a # b # rs) = Inr (bs, N + 1)"
      using bs(1) le_iff True by (simp add: add.commute add.left_commute)
    moreover have "unat N - unat m = unat g" using True mg by simp
    ultimately show ?thesis
      using bs parse unfolding N_def [symmetric] writable by simp
  next
    case False
    then have less: "\<not> N + 1 \<le> m + 1 + g" by (simp add: le_iff)
    have "numWritableNackRanges_loop (m + g) (b # rs) \<noteq> m + g" using False N by simp
    from 1(1) [OF g_def lt wf(3) lt this 1(5)] obtain bs' where
      bs': "writeAckRanges wr (N + 1) (m + g + 1) (b # rs) = Inr (bs', N + 1)"
        "length bs' = (unat N - unat (m + g)) * (1 + width)"
      and parse': "\<And>n c pre r. parseAckBlocks rd (unat N - unat (m + g) + n) False c (pre @ [b]) (bs' @ r) =
        parseAckBlocks rd n False True (pre @ b # writableRanges (m + g) (b # rs)) r"
      unfolding N [symmetric] by auto
    have "unat (m + g) \<le> unat N" using N_bounds(1) by (simp add: word_le_nat_alt)
    then have split: "unat N - unat m = unat g + (unat N - unat (m + g))" using mg by simp
    have "writeAckRanges wr (N + 1) (m + 1) (a # b # rs) = Inr (bs @ bs', N + 1)"
      using bs(1) bs'(1) less by (simp add: add.commute add.left_commute)
    moreover have "length (bs @ bs') = (unat N - unat m) * (1 + width)"
      using bs(2) bs'(2) by (simp add: split algebra_simps)
    moreover have "parseAckBlocks rd (unat N - unat m + n) False c (pre @ [a]) ((bs @ bs') @ r) =
        parseAckBlocks rd n False True (pre @ a # writableRanges m (a # b # rs)) r" for n c pre r
      using parse [of "unat N - unat (m + g) + n" c pre "bs' @ r"] parse' [of n True "pre @ [a]" r]
      unfolding split writable by (simp add: add.assoc)
    ultimately show ?thesis unfolding N_def [symmetric] list.sel by blast
  qed
qed auto

text \<open>The ranges of a frame with missing packets, first block included.\<close>

lemma parse_missing_ranges:
  assumes "wf_ranges rs" "rs = a # b # rest" "writableRanges 0 rs \<noteq> []"
    and fits: "\<And>r. r \<in> set rs \<Longrightarrow> fits (rangeLen r)"
  shows "\<exists>f bs. wr (Last a - First a + 1) = Inr f \<and>
     writeAckRanges wr (numWritableNackRanges rs) 1 rs = Inr (bs, numWritableNackRanges rs) \<and>
     1 + length (f @ bs) = (1 + width) * unat (numWritableNackRanges rs) \<and>
     (\<forall>r. parseAckRanges rd True (ucast (numWritableNackRanges rs - 1)) (Last a) (f @ bs @ r) =
       Inr ((First (last (a # writableRanges 0 rs)), a # writableRanges 0 rs), r))"
proof -
  define N where "N = numWritableNackRanges_loop 0 rs"
  have N0: "N \<noteq> 0" using numWritableNackRanges_loop_stuck [OF assms(1)] assms(3) by (auto simp: N_def)
  have N: "N < 255" using numWritableNackRanges_loop_bounds [OF assms(1), of 0] by (simp add: N_def)
  then have uN: "unat N < 255" by (simp add: word_less_nat_alt)
  have num: "numWritableNackRanges rs = N + 1"
    using assms(2) by (simp add: numWritableNackRanges_def N_def)
  have N_byte: "unat (ucast N :: byte) = unat N"
    using uN by (simp add: unsigned_ucast_eq unat_take_bit take_bit_nat_eq_self)
  note wf = wf_ranges_ConsD [OF assms(1) [unfolded assms(2)]]
  have a: "First a \<le> Last a" "First a \<noteq> 0"
    using assms(1,2) wf(1) by (simp add: wf_ranges_def, auto)
  note len = first_len [OF a]
  obtain f where f: "wr (rangeLen a) = Inr f" "length f = width" "\<And>r. rd (f @ r) = Inr (rangeLen a, r)"
    using wr_ok [OF fits [of a]] assms(2) by auto
  obtain bs where bs: "writeAckRanges wr (N + 1) 1 rs = Inr (bs, N + 1)" "length bs = unat N * (1 + width)"
    and parse: "\<And>n c pre r. parseAckBlocks rd (unat N + n) False c (pre @ [a]) (bs @ r) =
        parseAckBlocks rd n False True (pre @ a # writableRanges 0 rs) r"
    using parse_ranges [OF assms(1) _ _ fits, of 0, folded N_def] N0
    unfolding assms(2) by (simp del: parseAckBlocks.simps writeAckRanges.simps writableRanges.simps) blast
  have "parseAckBlocks rd (unat N) False False [a] (bs @ r) = Inr ((True, a # writableRanges 0 rs), r)" for r
    using parse [of 0 False "[]" r] by simp
  then have "parseAckRanges rd True (ucast N) (Last a) (f @ bs @ r) =
       Inr ((First (last (a # writableRanges 0 rs)), a # writableRanges 0 rs), r)" for r
    by (simp add: parseAckRanges_def bind_p_apply N_byte Let_def len f(3) del: word_less_1)
  moreover have "unat (N + 1) = unat N + 1" using uN by (subst unat_add_noov) auto
  then have "1 + length (f @ bs) = (1 + width) * unat (N + 1)"
    by (simp add: f(2) bs(2) mult.commute)
  ultimately show ?thesis using f(1) bs(1) unfolding num by (simp add: rangeLen_def)
qed

lemma parse_no_missing:
  assumes "1 \<le> lowest" "lowest \<le> largest" "fits (largest - lowest + 1)"
  shows "\<exists>f. wr (largest - lowest + 1) = Inr f \<and> length f = width \<and>
    (\<forall>r. parseAckRanges rd False n largest (f @ r) = Inr ((lowest, []), r))"
proof -
  define a where "a = \<lparr>First = lowest, Last = largest\<rparr>"
  have a: "First a \<le> Last a" "First a \<noteq> 0" "lowest = First a" "largest = Last a"
    using assms(1,2) by (auto simp: a_def)
  then have "(Last a = 0) = False" by auto
  note len = this first_len [OF a(1,2)]
  have "fits (rangeLen a)" using assms(3) by (simp add: a_def rangeLen_def)
  from wr_ok [OF this] obtain f where
    f: "wr (rangeLen a) = Inr f" "length f = width" "\<And>r. rd (f @ r) = Inr (rangeLen a, r)"
    by blast
  have "Last a + 1 - rangeLen a = First a" by (simp add: rangeLen_def)
  then have "parseAckRanges rd False n (Last a) (f @ r) = Inr ((First a, []), r)" for r
    by (simp add: parseAckRanges_def bind_p_apply len f(3) del: word_less_1)
  then show ?thesis using f(1,2) unfolding a(3,4) by (simp add: rangeLen_def)
qed

end

section \<open>The two frame types write and read block lengths this way\<close>

text \<open>
  The 48-bit case of the two writers: \<^verbatim>\<open>AckFrame\<close> masks the number to 48 bits, \<^verbatim>\<open>ClosePathFrame\<close>
  does not.
\<close>

definition maskedUint48 :: "ByteOrder \<Rightarrow> u64 \<Rightarrow> error + byte list" where
  "maskedUint48 bo x = WriteUint48 bo (x AND (push_bit 48 1 - 1))"

lemma maskedUint48_small:
  assumes "x < 2 ^ 48"
  shows "maskedUint48 bo x = WriteUint48 bo x"
proof -
  have "x AND (push_bit 48 1 - 1) = take_bit 48 x"
    by (simp add: take_bit_eq_mask mask_eq_exp_minus_1)
  also have "\<dots> = x" using assms by (rule take_bit_eq_self_less) simp
  finally show ?thesis by (simp add: maskedUint48_def)
qed

definition number_lens :: "PacketNumberLen set" where
  "number_lens = {PacketNumberLen1, PacketNumberLen2, PacketNumberLen4, PacketNumberLen6}"

text \<open>A number that fits the chosen length is written in that length and read back.\<close>

lemma writeBySwitch_read:
  assumes len: "len \<in> number_lens" and x: "unat x < 2 ^ (8 * unat len)"
    and wr48: "x < 2 ^ 48 \<Longrightarrow> wr48 x = WriteUint48 bo x"
  shows "\<exists>bs. writeBySwitch bo wr48 len x = Inr bs \<and> length bs = unat len \<and>
    (\<forall>r. ReadUintN bo len (bs @ r) = Inr (x, r))"
proof -
  have small: "take_bit n x = x" if "unat x < 2 ^ n" "n < 64" for n
    using that by (intro take_bit_eq_self_less) (simp_all add: word_less_nat_alt unat_two_power)
  consider "len = 1" | "len = 2" | "len = 4" | "len = 6" using len by (auto simp: number_lens_def)
  then show ?thesis
  proof cases
    case 1
    then show ?thesis using x small [of 8] bo.readN_trunc1 by (simp add: writeBySwitch_def)
  next
    case 2
    then show ?thesis using x small [of 16] bo.readN_trunc2 by (simp add: writeBySwitch_def)
  next
    case 3
    then show ?thesis using x small [of 32] bo.readN_trunc4 by (simp add: writeBySwitch_def)
  next
    case 4
    then have "x < 2 ^ 48" using x by (simp add: word_less_nat_alt)
    then show ?thesis using 4 bo.write48_small [of x bo] wr48 by (simp add: writeBySwitch_def)
  qed
qed

lemma getMissingSequenceNumberDeltaLen_range: "getMissingSequenceNumberDeltaLen l lo rs \<in> number_lens"
  by (simp add: getMissingSequenceNumberDeltaLen_def number_lens_def Let_def)

lemma GetPacketNumberLength_range: "GetPacketNumberLength p \<in> number_lens"
  by (simp add: GetPacketNumberLength_def number_lens_def)

lemma GetPacketNumberLength_fits:
  assumes "unat p < 2 ^ 48"
  shows "unat p < 2 ^ (8 * unat (GetPacketNumberLength p))"
  using assms by (simp add: GetPacketNumberLength_def word_less_nat_alt)

abbreviation deltaLen_fits :: "PacketNumber \<Rightarrow> PacketNumber \<Rightarrow> AckRange list \<Rightarrow> u64 \<Rightarrow> bool" where
  "deltaLen_fits l lo rs x \<equiv> unat x < 2 ^ (8 * unat (getMissingSequenceNumberDeltaLen l lo rs))"

interpretation ack_blocks: block_codec
  "writeBySwitch bo (maskedUint48 bo) (getMissingSequenceNumberDeltaLen l lo rs)"
  "ReadUintN bo (getMissingSequenceNumberDeltaLen l lo rs)"
  "deltaLen_fits l lo rs" "unat (getMissingSequenceNumberDeltaLen l lo rs)" for bo l lo rs
  by unfold_locales
    (simp, blast intro: writeBySwitch_read getMissingSequenceNumberDeltaLen_range maskedUint48_small)

interpretation close_blocks: block_codec
  "writeBySwitch bo (WriteUint48 bo) (getMissingSequenceNumberDeltaLen l lo rs)"
  "ReadUintN bo (getMissingSequenceNumberDeltaLen l lo rs)"
  "deltaLen_fits l lo rs" "unat (getMissingSequenceNumberDeltaLen l lo rs)" for bo l lo rs
  by unfold_locales (simp, blast intro: writeBySwitch_read getMissingSequenceNumberDeltaLen_range)

text \<open>The chosen length fits every range, if the ranges have fewer than \<open>2\<^sup>4\<^sup>8\<close> packets.\<close>

lemma maxRangeLength_ge: "r \<in> set rs \<Longrightarrow> rangeLen r \<le> maxRangeLength rs"
proof -
  have mono: "m \<le> fold (\<lambda>r m. if rangeLen r > m then rangeLen r else m) rs m" for m rs
    by (induction rs arbitrary: m) (auto, meson less_imp_le order_trans)
  have "rangeLen r \<le> fold (\<lambda>r m. if rangeLen r > m then rangeLen r else m) rs m"
    if "r \<in> set rs" for m rs
    using that mono by (induction rs arbitrary: m) (auto, meson not_le order_trans)
  then show "r \<in> set rs \<Longrightarrow> ?thesis" by (simp add: maxRangeLength_def)
qed

lemma maxRangeLength_less:
  assumes "\<And>r. r \<in> set rs \<Longrightarrow> unat (rangeLen r) < n" "0 < n"
  shows "unat (maxRangeLength rs) < n"
proof -
  have "unat (fold (\<lambda>r m. if rangeLen r > m then rangeLen r else m) rs m) < n" if "unat m < n" for m
    using assms(1) that by (induction rs arbitrary: m) auto
  then show ?thesis using assms(2) by (simp add: maxRangeLength_def)
qed

lemma deltaLen_fits_ranges:
  assumes "\<And>r. r \<in> set rs \<Longrightarrow> unat (rangeLen r) < 2 ^ 48" "r \<in> set rs"
  shows "deltaLen_fits l lo rs (rangeLen r)"
proof -
  have "unat (rangeLen r) \<le> unat (maxRangeLength rs)"
    using maxRangeLength_ge [OF assms(2)] by (simp add: word_le_nat_alt)
  moreover have "unat (maxRangeLength rs) < 2 ^ 48" using assms(1) by (rule maxRangeLength_less) simp_all
  moreover have "rs \<noteq> []" using assms(2) by auto
  ultimately show ?thesis
    by (simp add: getMissingSequenceNumberDeltaLen_def Let_def word_le_nat_alt)
qed

lemma deltaLen_fits_single:
  "unat (l - lo + 1) < 2 ^ 48 \<Longrightarrow> deltaLen_fits l lo [] (l - lo + 1)"
  by (simp add: getMissingSequenceNumberDeltaLen_def Let_def word_le_nat_alt)

lemma write_largest:
  assumes "unat p < 2 ^ 48" "wr48 = maskedUint48 bo \<or> wr48 = WriteUint48 bo"
  shows "\<exists>bs. writeBySwitch bo wr48 (GetPacketNumberLength p) p = Inr bs \<and>
    length bs = unat (GetPacketNumberLength p) \<and>
    (\<forall>r. ReadUintN bo (GetPacketNumberLength p) (bs @ r) = Inr (p, r))"
  using assms(2) maskedUint48_small
  by (intro writeBySwitch_read GetPacketNumberLength_range GetPacketNumberLength_fits [OF assms(1)]) auto

subsection \<open>The lengths in a type byte\<close>

lemma number_lens_cases:
  assumes "len \<in> number_lens"
  obtains "len = 1" | "len = 2" | "len = 4" | "len = 6"
  using assms by (auto simp: number_lens_def)

definition lenBits :: "PacketNumberLen \<Rightarrow> byte" where
  "lenBits len = (if len \<noteq> PacketNumberLen1 then len div 2 else 0)"

text \<open>The fields of a byte that packs two lengths and two flags around fixed bits.\<close>

lemma packed_lens:
  assumes "l \<in> number_lens" "d \<in> number_lens"
    and "c \<in> {0x40, 0x50, 0x60, 0x70, 0, 0x10}"
  shows "flagLen (drop_bit 2 ((c OR (push_bit 2 (lenBits l) OR lenBits d)) AND 12)) = l"
    "flagLen ((c OR (push_bit 2 (lenBits l) OR lenBits d)) AND 3) = d"
    "(c OR (push_bit 2 (lenBits l) OR lenBits d)) AND 0x20 = c AND 0x20"
    "(c OR (push_bit 2 (lenBits l) OR lenBits d)) AND 0x10 = c AND 0x10"
  using assms(3)
  by (cases rule: number_lens_cases [OF assms(1)]; cases rule: number_lens_cases [OF assms(2)];
      auto simp: lenBits_def flagLen_def)+

section \<open>What a frame acknowledges\<close>

text \<open>
  A well-formed acknowledgement: either one range, given by its ends alone, or at least two
  well-formed ranges whose ends are the ends of the frame.
\<close>

definition wf_ack :: "PacketNumber \<Rightarrow> PacketNumber \<Rightarrow> AckRange list \<Rightarrow> bool" where
  "wf_ack largest lowest rs \<longleftrightarrow>
     (if rs = [] then lowest \<le> largest
      else wf_ranges rs \<and> 2 \<le> length rs \<and> Last (hd rs) = largest \<and> First (last rs) = lowest)"

definition acked_set :: "PacketNumber \<Rightarrow> PacketNumber \<Rightarrow> AckRange list \<Rightarrow> PacketNumber set" where
  "acked_set largest lowest rs = (if rs = [] then {lowest .. largest} else range_set rs)"

lemma AcksPacket_acked_set:
  assumes "wf_ack largest lowest rs"
  shows "AcksPacket largest lowest rs p \<longleftrightarrow> p \<in> acked_set largest lowest rs"
proof (cases "rs = []")
  case True
  then show ?thesis by (auto simp: AcksPacket_def acked_set_def)
next
  case False
  then show ?thesis
    using assms AcksPacket_ranges [of rs largest lowest p] by (simp add: wf_ack_def acked_set_def)
qed

lemma wf_ack_le: "wf_ack largest lowest rs \<Longrightarrow> lowest \<le> largest"
proof (cases rs)
  case (Cons a rs')
  assume wf: "wf_ack largest lowest rs"
  then have "First (last rs) \<le> First a" "First a \<le> Last a"
    using Cons wf_ranges_last_least [of rs a] by (auto simp: wf_ack_def wf_ranges_def)
  with wf Cons show ?thesis by (auto simp: wf_ack_def)
qed (simp add: wf_ack_def)

text \<open>Validation accepts exactly the well-formed ranges, unless the end of a range is the largest
  64-bit number: there \<^verbatim>\<open>ackRange.Last+1\<close> wraps around.\<close>

lemma ranges_consistent_wf:
  assumes "\<forall>r \<in> set (tl rs). Last r \<noteq> - 1" "\<forall>r \<in> set rs. First r \<le> Last r"
  shows "ranges_consistent rs \<longleftrightarrow> wf_ranges rs"
  using assms
proof (induction rs rule: ranges_consistent.induct)
  case (1 a b rs)
  have "unat (Last b + 1) = unat (Last b) + 1"
    using 1(2) by (intro unat_succ) simp
  then have "First a \<le> Last b + 1 \<longleftrightarrow> \<not> unat (Last b) + 1 < unat (First a)"
    by (simp add: word_le_nat_alt not_less)
  moreover have "First b \<le> Last b" "First a \<le> Last a" using 1(3) by auto
  moreover have "ranges_consistent (b # rs) \<longleftrightarrow> wf_ranges (b # rs)" if "\<not> First a \<le> First b" "\<not> First a \<le> Last b + 1"
    using 1 that by auto
  ultimately show ?case
    unfolding wf_ranges_Cons by (auto simp: word_le_nat_alt)
qed (auto simp: wf_ranges_def)

lemma wf_ack_validate:
  assumes "wf_ack largest lowest rs"
  shows "validateAckRanges largest rs"
proof (cases rs rule: ranges_consistent.cases)
  case (1 a b rest)
  then have wf: "wf_ranges (a # b # rest)" "Last a = largest" using assms by (auto simp: wf_ack_def)
  have "Last r \<noteq> - 1" if "r \<in> set (b # rest)" for r
  proof
    assume "Last r = - 1"
    moreover have "unat (Last r) + 1 < unat (First a)" using wf(1) that by (auto simp: wf_ranges_def)
    ultimately show False
      using unsigned_less [of "First a", where 'a = nat] by (simp add: unat_max)
  qed
  with wf 1 ranges_consistent_wf [of rs] show ?thesis
    by (auto simp: validateAckRanges_def list_all_iff wf_ranges_def)
qed (use assms in \<open>auto simp: wf_ack_def validateAckRanges_def\<close>)

text \<open>The ranges that reach the peer: the first one and those that can be written after it.\<close>

definition sentRanges :: "AckRange list \<Rightarrow> AckRange list" where
  "sentRanges rs = (if rs = [] then [] else hd rs # writableRanges 0 rs)"

definition sentLowest :: "PacketNumber \<Rightarrow> AckRange list \<Rightarrow> PacketNumber" where
  "sentLowest lowest rs = (if rs = [] then lowest else First (last (sentRanges rs)))"

definition firstGapFits :: "AckRange list \<Rightarrow> bool" where
  "firstGapFits rs \<longleftrightarrow> (case rs of a # b # _ \<Rightarrow> unat (First a) - unat (Last b) - 1 \<le> 64770 | _ \<Rightarrow> True)"

lemma sentRanges_prefix: "\<exists>k. sentRanges rs = take k rs"
proof (cases rs)
  case (Cons a rs')
  obtain k where "writableRanges 0 rs = take k (tl rs)" using writableRanges_prefix by blast
  then have "sentRanges rs = take (Suc k) rs" using Cons by (simp add: sentRanges_def)
  then show ?thesis by blast
qed (simp add: sentRanges_def)

lemma wf_ranges_take: "wf_ranges rs \<Longrightarrow> wf_ranges (take k rs)"
  by (auto simp: wf_ranges_def sorted_wrt_take dest: in_set_takeD)

lemma wf_ack_firstGapFits:
  assumes "wf_ack largest lowest rs" "firstGapFits rs" "rs \<noteq> []"
  obtains a b rest where "rs = a # b # rest" "writableRanges 0 rs \<noteq> []" "wf_ranges rs" "Last a = largest"
proof (cases rs rule: ranges_consistent.cases)
  case (1 a b rest)
  then have "wf_ranges rs" "Last a = largest" using assms(1) by (auto simp: wf_ack_def)
  with 1 assms(2) writableRanges_first_gap [of b a rest] wf_ranges_ConsD(1) [of a b rest]
  show ?thesis by (intro that [of a b rest]) (auto simp: firstGapFits_def)
qed (use assms in \<open>auto simp: wf_ack_def\<close>)

lemma wf_ack_sent:
  assumes "wf_ack largest lowest rs" "firstGapFits rs"
  shows "wf_ack largest (sentLowest lowest rs) (sentRanges rs)"
proof (cases "rs = []")
  case False
  then obtain a b rest where rs: "rs = a # b # rest" "writableRanges 0 rs \<noteq> []" "wf_ranges rs" "Last a = largest"
    using wf_ack_firstGapFits [OF assms] by metis
  obtain k where "sentRanges rs = take k rs" using sentRanges_prefix by blast
  then have "wf_ranges (sentRanges rs)" using wf_ranges_take rs(3) by simp
  with rs show ?thesis
    by (cases "writableRanges 0 rs") (auto simp: wf_ack_def sentLowest_def sentRanges_def)
qed (use assms in \<open>simp add: sentRanges_def sentLowest_def\<close>)

text \<open>No packet is acknowledged to the peer that was not acknowledged in the frame.\<close>

lemma acked_set_sent:
  assumes "wf_ack largest lowest rs"
  shows "acked_set largest (sentLowest lowest rs) (sentRanges rs) \<subseteq> acked_set largest lowest rs"
proof -
  obtain k where "sentRanges rs = take k rs" using sentRanges_prefix by blast
  then show ?thesis
    by (auto simp: acked_set_def sentLowest_def range_set_def sentRanges_def dest: in_set_takeD)
qed

text \<open>Every range is sent if all of them together need at most 254 blocks after the first.\<close>

fun ackBlocks :: "AckRange list \<Rightarrow> nat" where
  "ackBlocks (a # b # rs) = (unat (First a) - unat (Last b) - 2) div 255 + 1 + ackBlocks (b # rs)"
| "ackBlocks rs = 0"

lemma writableRanges_all:
  assumes "wf_ranges rs" "unat m + ackBlocks rs < 255"
  shows "writableRanges m rs = tl rs"
  using assms
proof (induction m rs rule: writableRanges.induct)
  case (1 m a b rs)
  note wf = wf_ranges_ConsD [OF 1(2)]
  have g: "unat (gapBlocks (gapBetween a b)) = (unat (First a) - unat (Last b) - 2) div 255 + 1"
    using unat_gapBlocks [OF unat_gapBetween(2) [OF wf(1)]] unat_gapBetween(1) [OF wf(1)]
    by (simp add: numeral_2_eq_2)
  have "m < 255" using 1(3) by (simp add: word_less_nat_alt)
  then have m: "unat (m + gapBlocks (gapBetween a b)) = unat m + unat (gapBlocks (gapBetween a b))"
    by (rule blocks_add [OF wf(1)])
  then have "unat (m + gapBlocks (gapBetween a b)) + ackBlocks (b # rs) < 255"
    using 1(3) g by simp
  moreover from this have "m + gapBlocks (gapBetween a b) < 255" by (simp add: word_less_nat_alt)
  ultimately show ?case using 1(1) wf(3) by simp
qed auto

lemma sentRanges_all: "wf_ranges rs \<Longrightarrow> ackBlocks rs < 255 \<Longrightarrow> sentRanges rs = rs"
  using writableRanges_all [of rs 0] by (cases rs) (auto simp: sentRanges_def)

lemma rangeLen_less:
  assumes "wf_ack largest lowest rs" "unat largest < 2 ^ 48" "1 \<le> lowest" "r \<in> set rs"
  shows "unat (rangeLen r) < 2 ^ 48"
proof -
  have "rs \<noteq> []" using assms(4) by auto
  then have wf: "wf_ranges rs" "Last (hd rs) = largest" "First (last rs) = lowest"
    using assms(1) by (auto simp: wf_ack_def)
  have "Last r \<le> largest" using wf_ranges_hd_greatest [of "hd rs" "tl rs" r] wf assms(4) \<open>rs \<noteq> []\<close> by simp
  moreover have "1 \<le> First r" using wf_ranges_last_least [OF wf(1) assms(4)] wf(3) assms(3) by simp
  moreover have "First r \<le> Last r" using wf(1) assms(4) by (simp add: wf_ranges_def)
  ultimately have "unat (Last r - First r) + 1 \<le> unat (Last r)" "unat (Last r) < 2 ^ 48"
    using assms(2) by (auto simp: unat_sub word_le_nat_alt)
  then show ?thesis unfolding rangeLen_def by (subst unat_add_noov) auto
qed

lemma wf_ack_fits:
  assumes "wf_ack largest lowest rs" "unat largest < 2 ^ 48" "1 \<le> lowest"
  shows "r \<in> set rs \<Longrightarrow> deltaLen_fits largest lowest rs (rangeLen r)"
    "rs = [] \<Longrightarrow> deltaLen_fits largest lowest rs (largest - lowest + 1)"
proof -
  show "deltaLen_fits largest lowest rs (rangeLen r)" if "r \<in> set rs"
    using rangeLen_less [OF assms] that by (rule deltaLen_fits_ranges)
  have "unat (largest - lowest + 1) < 2 ^ 48"
    using wf_ack_le [OF assms(1)] assms(2,3) by (subst unat_add_noov) (auto simp: unat_sub word_le_nat_alt)
  then show "deltaLen_fits largest lowest rs (largest - lowest + 1)" if "rs = []"
    unfolding that by (rule deltaLen_fits_single)
qed

context block_codec
begin

text \<open>
  The blocks of a well-formed acknowledgement: they are written, they take the bytes that the two
  \<^verbatim>\<open>MinLength\<close> functions count, and they read back as the ranges that can be sent.
\<close>

lemma written_blocks:
  assumes wf: "wf_ack largest lowest rs" "1 \<le> lowest" "firstGapFits rs"
    and fits: "\<And>r. r \<in> set rs \<Longrightarrow> fits (rangeLen r)" "rs = [] \<Longrightarrow> fits (largest - lowest + 1)"
  shows "\<exists>fl first blocks. firstAckBlockLength largest lowest rs = Inr fl \<and> wr fl = Inr first \<and>
     writeAckRanges wr (numWritableNackRanges rs) (if rs = [] then 0 else 1) rs =
       Inr (blocks, numWritableNackRanges rs) \<and>
     (if rs = [] then length (first @ blocks) = width
      else 1 + length (first @ blocks) = (1 + width) * unat (numWritableNackRanges rs)) \<and>
     (\<forall>nb r. (rs \<noteq> [] \<longrightarrow> nb = ucast (numWritableNackRanges rs - 1)) \<longrightarrow>
        parseAckRanges rd (rs \<noteq> []) nb largest (first @ blocks @ r) =
          Inr ((sentLowest lowest rs, sentRanges rs), r))"
proof (cases "rs = []")
  case True
  then have "lowest \<le> largest" using wf(1) by (simp add: wf_ack_def)
  note p = parse_no_missing [OF wf(2) this fits(2) [OF True]]
  obtain first where "wr (largest - lowest + 1) = Inr first" "length first = width" using p [of 0] by blast
  with True p show ?thesis
    by (auto simp: firstAckBlockLength_def sentLowest_def sentRanges_def numWritableNackRanges_def)
next
  case False
  then obtain a b rest where rs: "rs = a # b # rest" "writableRanges 0 rs \<noteq> []" "wf_ranges rs" "Last a = largest"
    using wf_ack_firstGapFits [OF wf(1,3)] by metis
  have "firstAckBlockLength largest lowest rs = Inr (Last a - First a + 1)"
    using rs wf(1) by (simp add: firstAckBlockLength_def wf_ack_def)
  moreover have "sentRanges rs = a # writableRanges 0 rs"
    "sentLowest lowest rs = First (last (a # writableRanges 0 rs))"
    using rs(1) by (simp_all add: sentRanges_def sentLowest_def del: writableRanges.simps)
  ultimately show ?thesis
    using parse_missing_ranges [OF rs(3,1,2) fits(1)] False
    unfolding rs(4) [symmetric] by auto
qed

end

context block_codec
begin

text \<open>
  A first gap that needs 255 blocks or more is not counted, but it is written before the writer
  compares the numbers: they differ.
\<close>

lemma long_first_gap:
  assumes wf: "wf_ack largest lowest rs" "rs \<noteq> []" "\<not> firstGapFits rs"
    and fits: "\<And>r. r \<in> set rs \<Longrightarrow> fits (rangeLen r)"
  shows "\<exists>fl first blocks n. firstAckBlockLength largest lowest rs = Inr fl \<and> wr fl = Inr first \<and>
     writeAckRanges wr (numWritableNackRanges rs) 1 rs = Inr (blocks, n) \<and> numWritableNackRanges rs \<noteq> n"
proof (cases rs rule: ranges_consistent.cases)
  case (1 a b rest)
  then have ends: "Last a = largest" "First (last rs) = lowest" "wf_ranges (a # b # rest)"
    using wf(1) by (auto simp: wf_ack_def)
  note w = wf_ranges_ConsD [OF ends(3)]
  define g where "g = gapBlocks (gapBetween a b)"
  have "\<not> g < 255"
    using wf(3) 1 writableRanges_first_gap [OF w(1), of rest] by (auto simp: firstGapFits_def g_def)
  then have num: "numWritableNackRanges rs = 1"
    using 1 by (simp add: numWritableNackRanges_def Let_def g_def)
  obtain bs where bs: "writeAckRange wr a b = Inr (bs, g)"
    using parse_range [OF w(1,2) fits] 1 unfolding g_def by auto
  have g: "1 \<le> unat g" "unat g < 2 ^ 63" using gapBlocks_bounds [OF w(1)] by (simp_all add: g_def)
  have "unat (1 + g) = 1 + unat g" using g(2) by (subst unat_add_noov) auto
  then have "1 \<le> 1 + g" "1 + g \<noteq> 1" using g(1) by (auto simp: word_le_nat_alt)
  then have "writeAckRanges wr (numWritableNackRanges rs) 1 rs = Inr (bs, 1 + g)"
    using 1 bs num by simp
  moreover have "firstAckBlockLength largest lowest rs = Inr (rangeLen a)"
    using 1 ends by (simp add: firstAckBlockLength_def rangeLen_def)
  moreover obtain first where "wr (rangeLen a) = Inr first" using wr_ok [OF fits [of a]] 1 by auto
  ultimately show ?thesis using \<open>1 + g \<noteq> 1\<close> num by auto
qed (use wf in \<open>auto simp: wf_ack_def\<close>)

end

section \<open>Ranges that were parsed and validated\<close>

text \<open>
  What a parsed block makes of a range, before validation: the range has a length between 1 and
  \<open>2\<^sup>4\<^sup>8 - 1\<close>, possibly wrapped around at zero.
\<close>

definition blockRange :: "AckRange \<Rightarrow> bool" where
  "blockRange r \<longleftrightarrow> 0 < unat (rangeLen r) \<and> unat (rangeLen r) < 2 ^ 48"

definition reads48 :: "u64 parser \<Rightarrow> bool" where
  "reads48 rd \<longleftrightarrow> (\<forall>s x r. rd s = Inr (x, r) \<longrightarrow> unat x < 2 ^ 48)"

lemma reads48D: "reads48 rd \<Longrightarrow> rd s = Inr (x, r) \<Longrightarrow> unat x < 2 ^ 48"
  by (auto simp: reads48_def)

definition blocks_inv :: "bool \<Rightarrow> bool \<Rightarrow> AckRange list \<Rightarrow> bool" where
  "blocks_inv inLong complete ts \<longleftrightarrow>
     (if inLong then ts \<noteq> [] \<and> rangeLen (last ts) = 0 \<and> (\<forall>r \<in> set (butlast ts). blockRange r) \<and> \<not> complete
      else (\<forall>r \<in> set ts. blockRange r) \<and> (ts \<noteq> [] \<longrightarrow> complete))"

lemma addBlock_inv:
  assumes inv: "blocks_inv il c ts" and "unat len < 2 ^ 48"
  shows "\<exists>ts'. addBlock il (a # ts) g len = a # ts' \<and> ts' \<noteq> [] \<and>
    blocks_inv (len = 0) (if len > 0 then True else if il then c else False) ts'"
proof -
  define new where "new =
     (if il then \<lparr>First = First (last ts) - (ucast g + len), Last = Last (last ts) - ucast g\<rparr>
      else \<lparr>First = First (last (a # ts)) - ucast g - 1 - len + 1, Last = First (last (a # ts)) - ucast g - 1\<rparr>)"
  define ts' where "ts' = (if il then butlast ts else ts) @ [new]"
  have "addBlock il (a # ts) g len = a # ts'"
    using inv by (auto simp: addBlock_def ts'_def new_def blocks_inv_def Let_def)
  moreover have "rangeLen new = len"
    using inv by (auto simp: new_def rangeLen_def blocks_inv_def algebra_simps)
  then have "blocks_inv (len = 0) (if len > 0 then True else if il then c else False) ts'"
    using inv assms(2) word_gt_0 [of len]
    by (cases "len = 0") (auto simp: ts'_def blocks_inv_def blockRange_def unat_gt_0 split: if_splits)
  ultimately show ?thesis by (auto simp: ts'_def)
qed

lemma parseAckBlocks_inv:
  assumes "reads48 rd" "blocks_inv il c ts" "parseAckBlocks rd n il c (a # ts) s = Inr ((c', rs'), r)"
  shows "\<exists>il' ts'. rs' = a # ts' \<and> blocks_inv il' c' ts' \<and> (0 < n \<or> ts \<noteq> [] \<longrightarrow> ts' \<noteq> [])"
  using assms(2,3)
proof (induction n arbitrary: il c ts s)
  case (Suc n)
  from Suc.prems(2) obtain g s1 len s2 where
    rd: "rd s1 = Inr (len, s2)"
    and rest: "parseAckBlocks rd n (len = 0) (if len > 0 then True else if il then c else False)
       (addBlock il (a # ts) g len) s2 = Inr ((c', rs'), r)"
    by (auto simp: bind_p_eq_Inr Let_def)
  from addBlock_inv [OF Suc.prems(1) reads48D [OF assms(1) rd], of a g] obtain ts' where
    ts': "addBlock il (a # ts) g len = a # ts'" "ts' \<noteq> []"
      "blocks_inv (len = 0) (if len > 0 then True else if il then c else False) ts'"
    by blast
  show ?case using Suc.IH [OF ts'(3) rest [unfolded ts'(1)]] ts'(2) by auto
qed auto

lemma ranges_consistent_below:
  assumes "ranges_consistent (a # rs)" "r \<in> set rs"
  shows "First r < First a"
  using assms
proof (induction rs arbitrary: a)
  case (Cons b rs)
  then have "First b < First a" "ranges_consistent (b # rs)" by (auto split: if_splits)
  with Cons show ?case by (auto intro: less_trans)
qed simp

text \<open>
  Validation of parsed ranges leaves no wrap-around: a range that ends at the largest number would
  start above the first one.
\<close>

lemma validated_wf:
  assumes "validateAckRanges largest (a # ts)" "unat largest < 2 ^ 48" "\<forall>r \<in> set ts. blockRange r"
  shows "wf_ranges (a # ts) \<and> ts \<noteq> [] \<and> Last a = largest"
proof -
  have v: "ts \<noteq> []" "Last a = largest" "\<forall>r \<in> set (a # ts). First r \<le> Last r" "ranges_consistent (a # ts)"
    using assms(1) by (auto simp: validateAckRanges_def list_all_iff split: list.splits if_splits)
  have "Last r \<noteq> - 1" if r: "r \<in> set ts" for r
  proof
    assume "Last r = - 1"
    moreover have "First r \<le> Last r" using v(3) r by simp
    ultimately have "First r + rangeLen r = 0" by (simp add: rangeLen_def)
    moreover have "0 < unat (rangeLen r)" "unat (rangeLen r) < 2 ^ 48"
      using assms(3) r by (auto simp: blockRange_def)
    moreover have "First r < largest"
      using ranges_consistent_below [OF v(4) r] v(2,3) by auto
    then have "unat (First r) < 2 ^ 48" using assms(2) by (simp add: word_less_nat_alt)
    ultimately show False using unat_add_noov [of "First r" "rangeLen r"] by simp
  qed
  then show ?thesis using ranges_consistent_wf [of "a # ts"] v by simp
qed

lemma parseAckRanges_wf:
  assumes "reads48 rd" "unat largest < 2 ^ 48"
    and "hasMissing \<Longrightarrow> numBlocks \<noteq> 0"
    and "parseAckRanges rd hasMissing numBlocks largest s = Inr ((lowest, rs), r)"
    and "validateAckRanges largest rs"
  shows "wf_ack largest lowest rs"
proof (cases hasMissing)
  case True
  with assms(4) obtain s' len c ackRanges where
    blocks: "parseAckBlocks rd (unat numBlocks) False False
       [\<lparr>First = largest - len + 1, Last = largest\<rparr>] s' = Inr ((c, ackRanges), r)"
    and rs: "rs = (if \<not> c then butlast ackRanges else ackRanges)" "lowest = First (last rs)"
    unfolding parseAckRanges_def bind_p_eq_Inr guard_eq_Inr by (auto simp: bind_p_eq_Inr Let_def)
  have start: "blocks_inv False False []" by (simp add: blocks_inv_def)
  have "0 < unat numBlocks" using assms(3) True by (simp add: unat_gt_0)
  then obtain il ts where inv: "ackRanges = \<lparr>First = largest - len + 1, Last = largest\<rparr> # ts"
      "blocks_inv il c ts" "ts \<noteq> []"
    using parseAckBlocks_inv [OF assms(1) start blocks] by auto
  obtain ts' where ts': "rs = \<lparr>First = largest - len + 1, Last = largest\<rparr> # ts'"
      "\<forall>r \<in> set ts'. blockRange r"
    using inv rs(1) by (auto simp: blocks_inv_def split: if_splits dest: in_set_butlastD)
  show ?thesis
    using validated_wf [OF _ assms(2) ts'(2)] assms(5) ts'(1) rs(2)
    by (cases ts') (auto simp: wf_ack_def)
next
  case False
  with assms(4) obtain len where
    len: "\<not> (0 < largest \<and> len < 1)" "\<not> largest < len" "rs = []"
      "lowest = (if largest = 0 then 0 else largest + 1 - len)"
    unfolding parseAckRanges_def bind_p_eq_Inr guard_eq_Inr by auto
  have "largest + 1 - len \<le> largest" if "largest \<noteq> 0"
  proof -
    have "0 < unat largest" using that by (simp add: unat_gt_0)
    then have "1 \<le> unat len" "unat len \<le> unat largest"
      using len(1,2) by (auto simp: word_less_nat_alt not_less Suc_le_eq)
    moreover have "unat (largest + 1) = unat largest + 1"
      using assms(2) by (subst unat_add_noov) auto
    ultimately show ?thesis by (simp add: word_le_nat_alt unat_sub)
  qed
  with len(3,4) show ?thesis by (auto simp: wf_ack_def)
qed

text \<open>The numbers in a frame have at most six bytes: their lengths come from two bits.\<close>

lemma flagLen_le_6: "unat (flagLen (b AND 3)) \<le> 6" "unat (flagLen (drop_bit 2 (b AND 12))) \<le> 6"
proof -
  have le: "unat (flagLen x) \<le> 6" if "x \<le> 3" for x
  proof -
    have "unat x \<le> 3" using that by (simp add: word_le_nat_alt)
    then have "unat (2 * x) \<le> 6" by (simp add: unat_word_ariths)
    then show ?thesis by (simp add: flagLen_def)
  qed
  show "unat (flagLen (b AND 3)) \<le> 6" by (rule le) (simp add: word_and_le1)
  have "drop_bit 2 (b AND 12) = drop_bit 2 b AND 3"
    by (simp add: drop_bit_and)
  then show "unat (flagLen (drop_bit 2 (b AND 12))) \<le> 6" by (intro le) (simp add: word_and_le1)
qed

lemma reads48_ReadUintN:
  assumes "unat n \<le> 6"
  shows "reads48 (ReadUintN bo n)"
proof -
  have "(2 :: nat) ^ (8 * unat n) \<le> 2 ^ 48" using assms by (intro power_increasing) auto
  then show ?thesis
    using assms bo.readN_less [of bo n] by (fastforce simp: reads48_def)
qed

lemma consumes_parseAckBlocks: "consumes rd \<Longrightarrow> consumes (parseAckBlocks rd n il c rs)"
  by (induction n arbitrary: il c rs) (auto simp: Let_def intro!: consumes_intros)

lemma consumes_parseAckRanges [consumes_intros]: "consumes rd \<Longrightarrow> consumes (parseAckRanges rd hm n l)"
  unfolding parseAckRanges_def
  by (intro consumes_intros consumes_parseAckBlocks) (auto simp: Let_def split: prod.splits)

end
