(* ===== verification/AckFrame.thy ===== *)
theory AckFrame
  imports AckRanges Float16
begin

text \<open>
  The ACK frame (\<^verbatim>\<open>internal/wire/ack_frame.go\<close>): the frame as a record, \<^verbatim>\<open>ParseAckFrame\<close>, \<^verbatim>\<open>Write\<close>,
  \<^verbatim>\<open>MinLength\<close> and \<^verbatim>\<open>AcksPacket\<close>. A written frame parses back to the ranges that fit 255 blocks, in
  exactly \<^verbatim>\<open>MinLength\<close> bytes; whatever bytes the parser accepts give a well-formed frame.
\<close>

section \<open>Definitions\<close>

record AckFrame =
  PathID :: PathID
  LargestAcked :: PacketNumber
  LowestAcked :: PacketNumber
  AckRanges :: "AckRange list"
  PacketReceivedTime :: Time
  DelayTime :: Duration

definition HasMissingRanges :: "AckFrame \<Rightarrow> bool" where
  "HasMissingRanges f = (length (AckRanges f) > 0)"

definition AckFrame_validateAckRanges :: "AckFrame \<Rightarrow> bool" where
  "AckFrame_validateAckRanges f = validateAckRanges (LargestAcked f) (AckRanges f)"

definition AckFrame_getMissingSequenceNumberDeltaLen :: "AckFrame \<Rightarrow> PacketNumberLen" where
  "AckFrame_getMissingSequenceNumberDeltaLen f =
     getMissingSequenceNumberDeltaLen (LargestAcked f) (LowestAcked f) (AckRanges f)"

definition AckFrame_AcksPacket :: "AckFrame \<Rightarrow> PacketNumber \<Rightarrow> bool" where
  "AckFrame_AcksPacket f p = AcksPacket (LargestAcked f) (LowestAcked f) (AckRanges f) p"

subsection \<open>Parsing\<close>

text \<open>The timestamps are read and dropped: the number of the remaining pairs is the argument.\<close>

fun skipTimestamps :: "ByteOrder \<Rightarrow> nat \<Rightarrow> unit parser" where
  "skipTimestamps bo 0 = return_p ()"
| "skipTimestamps bo (Suc n) =
     bind_p ReadByte (\<lambda>_. bind_p (ReadUint16 bo) (\<lambda>_. skipTimestamps bo n))"

definition parseTimestamps :: "ByteOrder \<Rightarrow> unit parser" where
  "parseTimestamps bo =
     bind_p ReadByte (\<lambda>numTimestamp.
       if numTimestamp > 0 then
         bind_p ReadByte (\<lambda>_. bind_p (ReadUint32 bo) (\<lambda>_. skipTimestamps bo (unat numTimestamp - 1)))
       else return_p ())"

definition ParseAckFrame :: "VersionNumber \<Rightarrow> AckFrame parser" where
  "ParseAckFrame version =
     (let bo = GetByteOrder version in
      bind_p ReadByte (\<lambda>typeByte.
        let hasMissingRanges = (typeByte AND 0x20 = 0x20);
            largestAckedLen = flagLen (drop_bit 2 (typeByte AND 0x0C));
            missingSequenceNumberDeltaLen = flagLen (typeByte AND 0x03)
        in
      bind_p (if typeByte AND 0x10 = 0x10 then ReadByte else return_p 0) (\<lambda>pathID.
      bind_p (ReadUintN bo largestAckedLen) (\<lambda>largestAcked.
      bind_p (readUfloat16 bo) (\<lambda>delay.
      bind_p (if hasMissingRanges then ReadByte else return_p 0) (\<lambda>numAckBlocks.
        if hasMissingRanges \<and> numAckBlocks = 0 then fail_p ErrInvalidAckRanges
        else
      bind_p (parseAckRanges (ReadUintN bo missingSequenceNumberDeltaLen) hasMissingRanges
               numAckBlocks largestAcked) (\<lambda>(lowestAcked, ackRanges).
        let frame = \<lparr>PathID = pathID, LargestAcked = largestAcked, LowestAcked = lowestAcked,
              AckRanges = ackRanges, PacketReceivedTime = zeroTime, DelayTime = sint (delay * 1000)\<rparr>
        in if \<not> AckFrame_validateAckRanges frame then fail_p ErrInvalidAckRanges
           else bind_p (parseTimestamps bo) (\<lambda>_. return_p frame))))))))"

subsection \<open>Writing\<close>

text \<open>
  \<^verbatim>\<open>Write\<close> sets the delay of the frame from the clock, so the updated frame is returned with the
  bytes. After an error the callers drop the buffer: only the error is returned.
\<close>

definition ackTypeByte :: "AckFrame \<Rightarrow> byte" where
  "ackTypeByte f =
     (let largestAckedLen = GetPacketNumberLength (LargestAcked f);
          missingSequenceNumberDeltaLen = AckFrame_getMissingSequenceNumberDeltaLen f;
          t = 0x40;
          t = (if largestAckedLen \<noteq> PacketNumberLen1 then t XOR push_bit 2 (largestAckedLen div 2) else t);
          t = (if missingSequenceNumberDeltaLen \<noteq> PacketNumberLen1
               then t XOR missingSequenceNumberDeltaLen div 2 else t);
          t = (if HasMissingRanges f then t OR 0x20 else t)
      in if PathID f \<noteq> InitialPathID then t OR 0x10 else t)"

definition AckFrame_Write :: "VersionNumber \<Rightarrow> Time \<Rightarrow> AckFrame \<Rightarrow> error + (AckFrame \<times> byte list)" where
  "AckFrame_Write version now f =
     (let bo = GetByteOrder version;
          wr = writeBySwitch bo (maskedUint48 bo);
          missingSequenceNumberDeltaLen = AckFrame_getMissingSequenceNumberDeltaLen f;
          path = (if PathID f \<noteq> InitialPathID then [PathID f] else []);
          f' = f\<lparr>DelayTime := time_Sub now (PacketReceivedTime f)\<rparr>;
          delay = writeUfloat16 bo (word_of_int (DelayTime f' sdiv 1000));
          numRanges = (if HasMissingRanges f then numWritableNackRanges (AckRanges f) else 0)
      in
      bind_r (wr (GetPacketNumberLength (LargestAcked f)) (LargestAcked f)) (\<lambda>largest.
      bind_r (if HasMissingRanges f
              then if numRanges > 0xFF then Inl (Panic ''AckFrame: Too many ACK ranges'')
                   else Inr [ucast (numRanges - 1)]
              else Inr []) (\<lambda>num.
      bind_r (firstAckBlockLength (LargestAcked f) (LowestAcked f) (AckRanges f)) (\<lambda>firstLength.
      bind_r (wr missingSequenceNumberDeltaLen firstLength) (\<lambda>first.
      bind_r (writeAckRanges (wr missingSequenceNumberDeltaLen) numRanges
               (if HasMissingRanges f then 1 else 0) (AckRanges f)) (\<lambda>(blocks, numRangesWritten).
        if numRanges \<noteq> numRangesWritten
        then Inl (ErrNew ''BUG: Inconsistent number of ACK ranges written'')
        else Inr (f', ackTypeByte f # path @ largest @ delay @ num @ first @ blocks @ [0])))))))"

definition AckFrame_MinLength :: "AckFrame \<Rightarrow> ByteCount" where
  "AckFrame_MinLength f =
     (let missingSequenceNumberDeltaLen = ucast (AckFrame_getMissingSequenceNumberDeltaLen f);
          len = 1 + 2 + 1 + ucast (GetPacketNumberLength (LargestAcked f));
          len = (if HasMissingRanges f
                 then len + (1 + missingSequenceNumberDeltaLen) * numWritableNackRanges (AckRanges f)
                 else len + missingSequenceNumberDeltaLen);
          len = len + (1 + 2) * 0
      in if PathID f \<noteq> InitialPathID then len + 1 else len)"

section \<open>The type byte\<close>

lemma ackTypeByte_packed:
  "ackTypeByte f =
     (0x40 OR (if HasMissingRanges f then 0x20 else 0) OR (if PathID f \<noteq> InitialPathID then 0x10 else 0)) OR
     (push_bit 2 (lenBits (GetPacketNumberLength (LargestAcked f))) OR
      lenBits (AckFrame_getMissingSequenceNumberDeltaLen f))"
proof -
  have "GetPacketNumberLength (LargestAcked f) \<in> number_lens" "AckFrame_getMissingSequenceNumberDeltaLen f \<in> number_lens"
    by (simp_all add: GetPacketNumberLength_range AckFrame_getMissingSequenceNumberDeltaLen_def
        getMissingSequenceNumberDeltaLen_range)
  then show ?thesis
    by (elim number_lens_cases) (simp_all add: ackTypeByte_def lenBits_def Let_def)
qed

section \<open>A written frame parses back\<close>

definition wf_AckFrame :: "AckFrame \<Rightarrow> bool" where
  "wf_AckFrame f \<longleftrightarrow> wf_ack (LargestAcked f) (LowestAcked f) (AckRanges f) \<and> unat (LargestAcked f) < 2 ^ 48"

text \<open>What the peer makes of a frame written at time \<open>now\<close>.\<close>

definition receivedDelay :: "Time \<Rightarrow> AckFrame \<Rightarrow> Duration" where
  "receivedDelay now f = sint (readUfloat16_value (writeUfloat16_value
     (word_of_int (time_Sub now (PacketReceivedTime f) sdiv 1000))) * 1000)"

definition receivedAck :: "Time \<Rightarrow> AckFrame \<Rightarrow> AckFrame" where
  "receivedAck now f = \<lparr>PathID = PathID f, LargestAcked = LargestAcked f,
     LowestAcked = sentLowest (LowestAcked f) (AckRanges f), AckRanges = sentRanges (AckRanges f),
     PacketReceivedTime = zeroTime, DelayTime = receivedDelay now f\<rparr>"

lemma AckFrame_blocks:
  assumes "wf_AckFrame f" "1 \<le> LowestAcked f" "firstGapFits (AckRanges f)"
  shows "\<exists>fl first blocks. firstAckBlockLength (LargestAcked f) (LowestAcked f) (AckRanges f) = Inr fl \<and>
     writeBySwitch bo (maskedUint48 bo) (AckFrame_getMissingSequenceNumberDeltaLen f) fl = Inr first \<and>
     writeAckRanges (writeBySwitch bo (maskedUint48 bo) (AckFrame_getMissingSequenceNumberDeltaLen f))
       (numWritableNackRanges (AckRanges f)) (if AckRanges f = [] then 0 else 1) (AckRanges f) =
     Inr (blocks, numWritableNackRanges (AckRanges f)) \<and>
     (if AckRanges f = [] then length (first @ blocks) = unat (AckFrame_getMissingSequenceNumberDeltaLen f)
      else 1 + length (first @ blocks) =
        (1 + unat (AckFrame_getMissingSequenceNumberDeltaLen f)) * unat (numWritableNackRanges (AckRanges f))) \<and>
     (\<forall>nb r. (AckRanges f \<noteq> [] \<longrightarrow> nb = ucast (numWritableNackRanges (AckRanges f) - 1)) \<longrightarrow>
        parseAckRanges (ReadUintN bo (AckFrame_getMissingSequenceNumberDeltaLen f)) (AckRanges f \<noteq> []) nb
          (LargestAcked f) (first @ blocks @ r) =
        Inr ((sentLowest (LowestAcked f) (AckRanges f), sentRanges (AckRanges f)), r))"
proof -
  have wf: "wf_ack (LargestAcked f) (LowestAcked f) (AckRanges f)" "unat (LargestAcked f) < 2 ^ 48"
    using assms(1) by (auto simp: wf_AckFrame_def)
  show ?thesis
    unfolding AckFrame_getMissingSequenceNumberDeltaLen_def
    by (rule ack_blocks.written_blocks [OF wf(1) assms(2,3) wf_ack_fits [OF wf assms(2)]])
qed

lemma AckFrame_lens:
  "GetPacketNumberLength (LargestAcked f) \<in> number_lens"
  "AckFrame_getMissingSequenceNumberDeltaLen f \<in> number_lens"
  by (simp_all add: GetPacketNumberLength_range AckFrame_getMissingSequenceNumberDeltaLen_def
      getMissingSequenceNumberDeltaLen_range)

lemma ackTypeByte_fields:
  "flagLen (drop_bit 2 (ackTypeByte f) AND 3) = GetPacketNumberLength (LargestAcked f)"
  "flagLen (ackTypeByte f AND 3) = AckFrame_getMissingSequenceNumberDeltaLen f"
  "ackTypeByte f AND 0x20 = 0x20 \<longleftrightarrow> AckRanges f \<noteq> []"
  "ackTypeByte f AND 0x10 = 0x10 \<longleftrightarrow> PathID f \<noteq> 0"
  using packed_lens [OF AckFrame_lens, of "0x40 OR (if HasMissingRanges f then 0x20 else 0) OR
      (if PathID f \<noteq> InitialPathID then 0x10 else 0)" f f]
  by (auto simp: ackTypeByte_packed HasMissingRanges_def InitialPathID_def)

lemma parseTimestamps_none: "parseTimestamps bo (0 # r) = Inr ((), r)"
  by (simp add: parseTimestamps_def bind_p_apply)

lemma unat_AckFrame_MinLength:
  assumes "numWritableNackRanges (AckRanges f) \<le> 255 \<or> AckRanges f = []"
  shows "unat (AckFrame_MinLength f) =
    4 + unat (GetPacketNumberLength (LargestAcked f)) + (if PathID f = 0 then 0 else 1) +
    (if AckRanges f = [] then unat (AckFrame_getMissingSequenceNumberDeltaLen f)
     else (1 + unat (AckFrame_getMissingSequenceNumberDeltaLen f)) * unat (numWritableNackRanges (AckRanges f)))"
proof -
  have "unat (numWritableNackRanges (AckRanges f)) \<le> 255"
    using assms by (auto simp: word_le_nat_alt numWritableNackRanges_def)
  with AckFrame_lens [of f] show ?thesis
    by (elim number_lens_cases)
      (simp_all add: AckFrame_MinLength_def HasMissingRanges_def InitialPathID_def Let_def unat_word_ariths)
qed

text \<open>Written frames, on the nose: the bytes, their number, and what they parse to.\<close>

lemma AckFrame_Write_parse:
  assumes "wf_AckFrame f" "1 \<le> LowestAcked f" "firstGapFits (AckRanges f)"
  shows "\<exists>bytes. AckFrame_Write v now f = Inr (f\<lparr>DelayTime := time_Sub now (PacketReceivedTime f)\<rparr>, bytes) \<and>
    length bytes = unat (AckFrame_MinLength f) \<and>
    (\<forall>r. ParseAckFrame v (bytes @ r) = Inr (receivedAck now f, r))"
proof -
  let ?bo = "GetByteOrder v" and ?num = "numWritableNackRanges (AckRanges f)"
  have wf: "wf_ack (LargestAcked f) (LowestAcked f) (AckRanges f)" "unat (LargestAcked f) < 2 ^ 48"
    using assms(1) by (auto simp: wf_AckFrame_def)
  obtain largest where largest:
    "writeBySwitch ?bo (maskedUint48 ?bo) (GetPacketNumberLength (LargestAcked f)) (LargestAcked f) = Inr largest"
    "length largest = unat (GetPacketNumberLength (LargestAcked f))"
    "\<And>r. ReadUintN ?bo (GetPacketNumberLength (LargestAcked f)) (largest @ r) = Inr (LargestAcked f, r)"
    using write_largest [OF wf(2) disjI1 [OF refl]] by blast
  obtain fl first blocks where blocks:
    "firstAckBlockLength (LargestAcked f) (LowestAcked f) (AckRanges f) = Inr fl"
    "writeBySwitch ?bo (maskedUint48 ?bo) (AckFrame_getMissingSequenceNumberDeltaLen f) fl = Inr first"
    "writeAckRanges (writeBySwitch ?bo (maskedUint48 ?bo) (AckFrame_getMissingSequenceNumberDeltaLen f))
       ?num (if AckRanges f = [] then 0 else 1) (AckRanges f) = Inr (blocks, ?num)"
    "if AckRanges f = [] then length (first @ blocks) = unat (AckFrame_getMissingSequenceNumberDeltaLen f)
     else 1 + length (first @ blocks) = (1 + unat (AckFrame_getMissingSequenceNumberDeltaLen f)) * unat ?num"
    "\<And>nb r. (AckRanges f \<noteq> [] \<longrightarrow> nb = ucast (?num - 1)) \<Longrightarrow>
        parseAckRanges (ReadUintN ?bo (AckFrame_getMissingSequenceNumberDeltaLen f)) (AckRanges f \<noteq> []) nb
          (LargestAcked f) (first @ blocks @ r) =
        Inr ((sentLowest (LowestAcked f) (AckRanges f), sentRanges (AckRanges f)), r)"
    using AckFrame_blocks [OF assms, of ?bo] by blast
  define num where "num = (if AckRanges f = [] then [] else [ucast (?num - 1) :: byte])"
  define bytes where "bytes = ackTypeByte f # (if PathID f \<noteq> InitialPathID then [PathID f] else []) @ largest @
    writeUfloat16 ?bo (word_of_int (time_Sub now (PacketReceivedTime f) sdiv 1000)) @ num @ first @ blocks @ [0]"
  have num_le: "AckRanges f \<noteq> [] \<Longrightarrow> \<not> ?num > 255"
    using numWritableNackRanges_le wf(1) by (auto simp: wf_ack_def not_less)
  have num_byte: "AckRanges f \<noteq> [] \<Longrightarrow> (ucast (?num - 1) :: byte) \<noteq> 0"
    using wf_ack_firstGapFits [OF wf(1) assms(3)] numWritableNackRanges_byte by metis
  have "AckFrame_Write v now f = Inr (f\<lparr>DelayTime := time_Sub now (PacketReceivedTime f)\<rparr>, bytes)"
    using num_le largest(1) blocks(1,2,3)
    by (cases "AckRanges f = []")
      (simp_all add: AckFrame_Write_def Let_def HasMissingRanges_def bytes_def num_def)
  moreover have "length bytes = unat (AckFrame_MinLength f)"
    using blocks(4) num_le largest(2)
    by (auto simp: unat_AckFrame_MinLength bytes_def num_def InitialPathID_def not_less)
  moreover have "ParseAckFrame v (bytes @ r) = Inr (receivedAck now f, r)" for r
  proof -
    have valid: "validateAckRanges (LargestAcked f) (sentRanges (AckRanges f))"
      using wf_ack_validate [OF wf_ack_sent [OF wf(1) assms(3)]] .
    have p: "parseAckRanges (ReadUintN ?bo (AckFrame_getMissingSequenceNumberDeltaLen f)) (AckRanges f \<noteq> [])
        (if AckRanges f = [] then 0 else ucast (?num - 1)) (LargestAcked f) (first @ blocks @ 0 # r) =
        Inr ((sentLowest (LowestAcked f) (AckRanges f), sentRanges (AckRanges f)), 0 # r)"
      by (rule blocks(5)) simp
    show ?thesis
      using valid p num_byte largest(3)
      by (cases "AckRanges f = []"; cases "PathID f = 0")
        (simp_all add: ParseAckFrame_def bind_p_apply Let_def ackTypeByte_fields bytes_def num_def
          InitialPathID_def parseTimestamps_none AckFrame_validateAckRanges_def receivedAck_def receivedDelay_def)
  qed
  ultimately show ?thesis by blast
qed

section \<open>What the parser accepts\<close>

lemma consumes_parseTimestamps: "consumes (parseTimestamps bo)"
proof -
  have "consumes (skipTimestamps bo n)" for n by (induction n) (auto simp del: return_p_apply intro!: consumes_intros)
  then show ?thesis unfolding parseTimestamps_def by (intro consumes_intros)
qed

lemma consumes_readUfloat16 [consumes_intros, intro!]: "consumes (readUfloat16 bo)"
  unfolding readUfloat16_def by (intro consumes_intros)

lemma ParseAckFrame_taken: "ParseAckFrame v s = Inr (f, r) \<Longrightarrow> \<exists>pre. pre \<noteq> [] \<and> s = pre @ r"
  unfolding ParseAckFrame_def Let_def
  by (erule first_byte_taken) (intro consumes_intros consumes_parseTimestamps)

text \<open>Parsed frames are well formed, whatever the bytes.\<close>

lemma ParseAckFrame_wf:
  assumes "ParseAckFrame v s = Inr (f, r)"
  shows "wf_AckFrame f"
proof -
  let ?bo = "GetByteOrder v"
  have largest: "unat l < 2 ^ 48" if "ReadUintN ?bo (flagLen (drop_bit 2 t AND 3)) s1 = Inr (l, s2)" for t l s1 s2
    using reads48D [OF reads48_ReadUintN that] flagLen_le_6(2) [of t] by simp
  have ranges: "wf_ack l lo rs"
    if "parseAckRanges (ReadUintN ?bo (flagLen (t AND 3))) hm nb l s3 = Inr ((lo, rs), s4)"
      "validateAckRanges l rs" "ReadUintN ?bo (flagLen (drop_bit 2 t AND 3)) s1 = Inr (l, s2)"
      "hm \<Longrightarrow> nb \<noteq> 0" for t l s1 s2 s3 s4 hm nb lo rs
    using parseAckRanges_wf [OF reads48_ReadUintN [OF flagLen_le_6(1)] largest [OF that(3)] that(4,1,2)] .
  show ?thesis
    using assms largest
    by (auto simp: ParseAckFrame_def Let_def bind_p_eq_Inr guard_eq_Inr AckFrame_validateAckRanges_def
        wf_AckFrame_def) (erule ranges, assumption, assumption, simp)+
qed

section \<open>Properties\<close>

text \<open>
  C9. A well-formed ACK frame whose first gap is at most 64770 packets is written in exactly
  \<^verbatim>\<open>MinLength\<close> bytes and parsed back by \<^verbatim>\<open>ParseAckFrame\<close>, whatever follows it: the path, the largest
  acknowledged packet and the ranges that fit 255 blocks are those of the frame, no other packet is
  acknowledged, and none is lost when the ranges need at most 254 further blocks.
\<close>

theorem ack_frame_roundtrip:
  assumes "wf_AckFrame f" "1 \<le> LowestAcked f" "firstGapFits (AckRanges f)"
  shows "\<exists>f' bytes. AckFrame_Write v now f = Inr (f', bytes) \<and> length bytes = unat (AckFrame_MinLength f) \<and>
    (\<forall>r. \<exists>g. ParseAckFrame v (bytes @ r) = Inr (g, r) \<and> PathID g = PathID f \<and>
       LargestAcked g = LargestAcked f \<and> AckRanges g = sentRanges (AckRanges f) \<and>
       (\<forall>p. AckFrame_AcksPacket g p \<longrightarrow> AckFrame_AcksPacket f p) \<and>
       (ackBlocks (AckRanges f) < 255 \<longrightarrow> (\<forall>p. AckFrame_AcksPacket g p = AckFrame_AcksPacket f p)))"
proof -
  let ?g = "receivedAck now f"
  have wf: "wf_ack (LargestAcked f) (LowestAcked f) (AckRanges f)" using assms(1) by (simp add: wf_AckFrame_def)
  note sent = wf_ack_sent [OF wf assms(3)]
  have sub: "AckFrame_AcksPacket ?g p \<longrightarrow> AckFrame_AcksPacket f p" for p
    using acked_set_sent [OF wf] AcksPacket_acked_set [OF sent, of p] AcksPacket_acked_set [OF wf, of p]
    by (auto simp: AckFrame_AcksPacket_def receivedAck_def)
  have "sentRanges (AckRanges f) = AckRanges f \<and> sentLowest (LowestAcked f) (AckRanges f) = LowestAcked f"
    if "ackBlocks (AckRanges f) < 255"
    using sentRanges_all [of "AckRanges f"] that wf
    by (cases "AckRanges f = []") (auto simp: wf_ack_def sentLowest_def sentRanges_def)
  then have "ackBlocks (AckRanges f) < 255 \<longrightarrow> (\<forall>p. AckFrame_AcksPacket ?g p = AckFrame_AcksPacket f p)"
    by (auto simp: AckFrame_AcksPacket_def receivedAck_def)
  with AckFrame_Write_parse [OF assms, of v now] sub show ?thesis
    by (fastforce simp: receivedAck_def)
qed

definition exampleAck :: AckFrame where
  "exampleAck = \<lparr>PathID = 1, LargestAcked = 1000, LowestAcked = 1,
     AckRanges = [\<lparr>First = 990, Last = 1000\<rparr>, \<lparr>First = 1, Last = 400\<rparr>],
     PacketReceivedTime = 5, DelayTime = 0\<rparr>"

theorem ack_frame_roundtrip_witness:
  "\<exists>f' bytes. AckFrame_Write Version39 2005 exampleAck = Inr (f', bytes) \<and>
    length bytes = unat (AckFrame_MinLength exampleAck) \<and>
    (\<exists>g. ParseAckFrame Version39 (bytes @ [7]) = Inr (g, [7]) \<and> \<not> AckFrame_AcksPacket g 500 \<and>
       AckFrame_AcksPacket g 400)"
proof -
  have "wf_AckFrame exampleAck" "1 \<le> LowestAcked exampleAck" "firstGapFits (AckRanges exampleAck)"
    by (simp_all add: exampleAck_def wf_AckFrame_def wf_ack_def wf_ranges_def firstGapFits_def)
  note t = ack_frame_roundtrip [OF this, of Version39 2005]
  have "ackBlocks (AckRanges exampleAck) < 255" "\<not> AckFrame_AcksPacket exampleAck 500"
    "AckFrame_AcksPacket exampleAck 400"
    by (simp_all add: exampleAck_def AckFrame_AcksPacket_def AcksPacket_def)
  with t show ?thesis by fastforce
qed

text \<open>
  C19. Whatever bytes \<^verbatim>\<open>ParseAckFrame\<close> accepts, the frame is well formed: at most \<open>2\<^sup>4\<^sup>8 - 1\<close> as the
  largest packet, no range wrapped around or overlapping another, the lowest and largest
  acknowledged packets those of the ranges; \<^verbatim>\<open>AcksPacket\<close> is membership in the ranges; and the frame took at
  least one byte.
\<close>

theorem parse_ack_frame_sound:
  assumes "ParseAckFrame v s = Inr (f, r)"
  shows "wf_AckFrame f \<and> length r < length s \<and>
    (\<forall>p. AckFrame_AcksPacket f p \<longleftrightarrow> p \<in> acked_set (LargestAcked f) (LowestAcked f) (AckRanges f))"
  using ParseAckFrame_wf [OF assms] ParseAckFrame_taken [OF assms] AcksPacket_acked_set
  by (auto simp: wf_AckFrame_def AckFrame_AcksPacket_def)

theorem parse_ack_frame_sound_witness:
  "\<exists>f. ParseAckFrame Version39 [0x60, 20, 0, 0, 1, 5, 3, 7, 0] = Inr (f, []) \<and> wf_AckFrame f \<and>
     AckFrame_AcksPacket f 12 \<and> \<not> AckFrame_AcksPacket f 14"
proof -
  let ?f = "\<lparr>PathID = 0, LargestAcked = 20, LowestAcked = 6,
    AckRanges = [\<lparr>First = 16, Last = 20\<rparr>, \<lparr>First = 6, Last = 12\<rparr>], PacketReceivedTime = 0, DelayTime = 0\<rparr>"
  have f: "ParseAckFrame Version39 [0x60, 20, 0, 0, 1, 5, 3, 7, 0] = Inr (?f, [])"
    by code_simp
  have "AckFrame_AcksPacket ?f 12 \<and> \<not> AckFrame_AcksPacket ?f 14"
    by (simp add: AckFrame_AcksPacket_def AcksPacket_def)
  with f parse_ack_frame_sound [OF f] show ?thesis by blast
qed

text \<open>
  C25. A frame that is well formed but whose first gap is longer than 64770 packets cannot be written:
  \<^verbatim>\<open>Write\<close> returns its \<^verbatim>\<open>BUG: Inconsistent number of ACK ranges written\<close> error.
\<close>

theorem ack_write_long_gap:
  assumes "wf_AckFrame f" "1 \<le> LowestAcked f" "\<not> firstGapFits (AckRanges f)"
  shows "AckFrame_Write v now f = Inl (ErrNew ''BUG: Inconsistent number of ACK ranges written'')"
proof -
  let ?bo = "GetByteOrder v"
  have ne: "AckRanges f \<noteq> []" using assms(3) by (auto simp: firstGapFits_def)
  have wf: "wf_ack (LargestAcked f) (LowestAcked f) (AckRanges f)" "unat (LargestAcked f) < 2 ^ 48"
    using assms(1) by (auto simp: wf_AckFrame_def)
  have num: "\<not> 255 < numWritableNackRanges (AckRanges f)"
    using numWritableNackRanges_le wf(1) ne by (auto simp: wf_ack_def not_less)
  note blocks = ack_blocks.long_first_gap [where bo = "GetByteOrder v",
      OF wf(1) ne assms(3) wf_ack_fits(1) [OF wf assms(2)]]
  from write_largest [OF wf(2) disjI1 [OF refl], of ?bo] blocks num ne show ?thesis
    by (auto simp: AckFrame_Write_def HasMissingRanges_def Let_def AckFrame_getMissingSequenceNumberDeltaLen_def)
qed

theorem ack_write_long_gap_witness:
  "AckFrame_Write Version39 9 (exampleAck\<lparr>LargestAcked := 70000,
      AckRanges := [\<lparr>First = 70000, Last = 70000\<rparr>, \<lparr>First = 1, Last = 400\<rparr>]\<rparr>) =
    Inl (ErrNew ''BUG: Inconsistent number of ACK ranges written'')"
  by (rule ack_write_long_gap)
    (simp_all add: exampleAck_def wf_AckFrame_def wf_ack_def wf_ranges_def firstGapFits_def)

end
