(* ===== verification/ClosePathFrame.thy ===== *)
theory ClosePathFrame
  imports AckRanges
begin

text \<open>
  The CLOSE_PATH frame of the multipath extension (\<^verbatim>\<open>internal/wire/close_path_frame.go\<close>): it carries
  the acknowledgement of a path that is given up, in the block encoding of the ACK frame but with
  its own order of fields and without masking the numbers to 48 bits.
\<close>

section \<open>Definitions\<close>

record ClosePathFrame =
  PathID :: PathID
  LargestAcked :: PacketNumber
  LowestAcked :: PacketNumber
  AckRanges :: "AckRange list"

definition ClosePathFrame_HasMissingRanges :: "ClosePathFrame \<Rightarrow> bool" where
  "ClosePathFrame_HasMissingRanges f = (length (AckRanges f) > 0)"

definition ClosePathFrame_validateAckRanges :: "ClosePathFrame \<Rightarrow> bool" where
  "ClosePathFrame_validateAckRanges f = validateAckRanges (LargestAcked f) (AckRanges f)"

definition ClosePathFrame_getMissingSequenceNumberDeltaLen :: "ClosePathFrame \<Rightarrow> PacketNumberLen" where
  "ClosePathFrame_getMissingSequenceNumberDeltaLen f =
     getMissingSequenceNumberDeltaLen (LargestAcked f) (LowestAcked f) (AckRanges f)"

definition ClosePathFrame_numWritableNackRanges :: "ClosePathFrame \<Rightarrow> u64" where
  "ClosePathFrame_numWritableNackRanges f = numWritableNackRanges (AckRanges f)"

definition ClosePathFrame_AcksPacket :: "ClosePathFrame \<Rightarrow> PacketNumber \<Rightarrow> bool" where
  "ClosePathFrame_AcksPacket f p = AcksPacket (LargestAcked f) (LowestAcked f) (AckRanges f) p"

definition closePathFlags :: "ClosePathFrame \<Rightarrow> byte" where
  "closePathFlags f =
     (let largestAckedLen = GetPacketNumberLength (LargestAcked f);
          missingSequenceNumberDeltaLen = ClosePathFrame_getMissingSequenceNumberDeltaLen f;
          fl = 0;
          fl = (if ClosePathFrame_HasMissingRanges f then fl OR 0x10 else fl);
          fl = (if largestAckedLen \<noteq> PacketNumberLen1 then fl XOR push_bit 2 (largestAckedLen div 2) else fl)
      in if missingSequenceNumberDeltaLen \<noteq> PacketNumberLen1
         then fl XOR missingSequenceNumberDeltaLen div 2 else fl)"

definition ClosePathFrame_Write :: "VersionNumber \<Rightarrow> ClosePathFrame \<Rightarrow> error + byte list" where
  "ClosePathFrame_Write version f =
     (let bo = GetByteOrder version;
          wr = writeBySwitch bo (WriteUint48 bo);
          missingSequenceNumberDeltaLen = ClosePathFrame_getMissingSequenceNumberDeltaLen f;
          numRanges = (if ClosePathFrame_HasMissingRanges f then ClosePathFrame_numWritableNackRanges f else 0)
      in
      bind_r (if ClosePathFrame_HasMissingRanges f
              then if numRanges > 0xFF then Inl (Panic ''ClosePathFrame: Too many ACK ranges'')
                   else Inr [ucast (numRanges - 1)]
              else Inr []) (\<lambda>num.
      bind_r (wr (GetPacketNumberLength (LargestAcked f)) (LargestAcked f)) (\<lambda>largest.
      bind_r (firstAckBlockLength (LargestAcked f) (LowestAcked f) (AckRanges f)) (\<lambda>firstLength.
      bind_r (wr missingSequenceNumberDeltaLen firstLength) (\<lambda>first.
      bind_r (writeAckRanges (wr missingSequenceNumberDeltaLen) numRanges
               (if ClosePathFrame_HasMissingRanges f then 1 else 0) (AckRanges f)) (\<lambda>(blocks, numRangesWritten).
        if numRanges \<noteq> numRangesWritten
        then Inl (ErrNew ''BUG: Inconsistent number of ACK ranges written in ClosePath'')
        else Inr (0x11 # PathID f # closePathFlags f # num @ largest @ first @ blocks)))))))"

definition ParseClosePathFrame :: "VersionNumber \<Rightarrow> ClosePathFrame parser" where
  "ParseClosePathFrame version =
     (let bo = GetByteOrder version in
      bind_p ReadByte (\<lambda>typeByte.
      bind_p ReadByte (\<lambda>pathID.
      bind_p ReadByte (\<lambda>flags.
        let hasMissingRanges = (flags AND 0x10 = 0x10);
            largestAckedLen = flagLen (drop_bit 2 (flags AND 0x0C));
            missingSequenceNumberDeltaLen = flagLen (flags AND 0x03)
        in
      bind_p (if hasMissingRanges then ReadByte else return_p 0) (\<lambda>numAckBlocks.
        if hasMissingRanges \<and> numAckBlocks = 0 then fail_p ErrInvalidAckRanges
        else
      bind_p (ReadUintN bo largestAckedLen) (\<lambda>largestAcked.
      bind_p (parseAckRanges (ReadUintN bo missingSequenceNumberDeltaLen) hasMissingRanges
               numAckBlocks largestAcked) (\<lambda>(lowestAcked, ackRanges).
        let frame = \<lparr>PathID = pathID, LargestAcked = largestAcked, LowestAcked = lowestAcked,
              AckRanges = ackRanges\<rparr>
        in if \<not> ClosePathFrame_validateAckRanges frame then fail_p ErrInvalidAckRanges
           else return_p frame)))))))"

definition ClosePathFrame_MinLength :: "ClosePathFrame \<Rightarrow> ByteCount" where
  "ClosePathFrame_MinLength f =
     (let len = 1 + 1 + 1 + ucast (GetPacketNumberLength (LargestAcked f));
          missingSequenceNumberDeltaLen = ucast (ClosePathFrame_getMissingSequenceNumberDeltaLen f)
      in if ClosePathFrame_HasMissingRanges f
         then len + (1 + missingSequenceNumberDeltaLen) * ClosePathFrame_numWritableNackRanges f
         else len + missingSequenceNumberDeltaLen)"

section \<open>A written frame parses back\<close>

definition wf_ClosePathFrame :: "ClosePathFrame \<Rightarrow> bool" where
  "wf_ClosePathFrame f \<longleftrightarrow>
     wf_ack (LargestAcked f) (LowestAcked f) (AckRanges f) \<and> unat (LargestAcked f) < 2 ^ 48"

definition receivedClosePath :: "ClosePathFrame \<Rightarrow> ClosePathFrame" where
  "receivedClosePath f = \<lparr>PathID = PathID f, LargestAcked = LargestAcked f,
     LowestAcked = sentLowest (LowestAcked f) (AckRanges f), AckRanges = sentRanges (AckRanges f)\<rparr>"

lemma ClosePathFrame_lens:
  "GetPacketNumberLength (LargestAcked f) \<in> number_lens"
  "ClosePathFrame_getMissingSequenceNumberDeltaLen f \<in> number_lens"
  by (simp_all add: GetPacketNumberLength_range ClosePathFrame_getMissingSequenceNumberDeltaLen_def
      getMissingSequenceNumberDeltaLen_range)

lemma closePathFlags_packed:
  "closePathFlags f = (if ClosePathFrame_HasMissingRanges f then 0x10 else 0) OR
     (push_bit 2 (lenBits (GetPacketNumberLength (LargestAcked f))) OR
      lenBits (ClosePathFrame_getMissingSequenceNumberDeltaLen f))"
  using ClosePathFrame_lens [of f]
  by (elim number_lens_cases) (simp_all add: closePathFlags_def lenBits_def Let_def)

lemma closePathFlags_fields:
  "flagLen (drop_bit 2 (closePathFlags f) AND 3) = GetPacketNumberLength (LargestAcked f)"
  "flagLen (closePathFlags f AND 3) = ClosePathFrame_getMissingSequenceNumberDeltaLen f"
  "closePathFlags f AND 0x10 = 0x10 \<longleftrightarrow> AckRanges f \<noteq> []"
  using packed_lens [OF ClosePathFrame_lens, of "if ClosePathFrame_HasMissingRanges f then 0x10 else 0" f f]
  by (auto simp: closePathFlags_packed ClosePathFrame_HasMissingRanges_def)

lemma unat_ClosePathFrame_MinLength:
  assumes "numWritableNackRanges (AckRanges f) \<le> 255 \<or> AckRanges f = []"
  shows "unat (ClosePathFrame_MinLength f) = 3 + unat (GetPacketNumberLength (LargestAcked f)) +
    (if AckRanges f = [] then unat (ClosePathFrame_getMissingSequenceNumberDeltaLen f)
     else (1 + unat (ClosePathFrame_getMissingSequenceNumberDeltaLen f)) * unat (numWritableNackRanges (AckRanges f)))"
proof -
  have "unat (numWritableNackRanges (AckRanges f)) \<le> 255"
    using assms by (auto simp: word_le_nat_alt)
  with ClosePathFrame_lens [of f] show ?thesis
    by (elim number_lens_cases)
      (simp_all add: ClosePathFrame_MinLength_def ClosePathFrame_HasMissingRanges_def Let_def
        ClosePathFrame_numWritableNackRanges_def unat_word_ariths)
qed

lemma ClosePathFrame_Write_parse:
  assumes "wf_ClosePathFrame f" "1 \<le> LowestAcked f" "firstGapFits (AckRanges f)"
  shows "\<exists>bytes. ClosePathFrame_Write v f = Inr bytes \<and>
    length bytes = unat (ClosePathFrame_MinLength f) \<and>
    (\<forall>r. ParseClosePathFrame v (bytes @ r) = Inr (receivedClosePath f, r))"
proof -
  let ?bo = "GetByteOrder v" and ?num = "numWritableNackRanges (AckRanges f)"
    and ?d = "ClosePathFrame_getMissingSequenceNumberDeltaLen f"
  have wf: "wf_ack (LargestAcked f) (LowestAcked f) (AckRanges f)" "unat (LargestAcked f) < 2 ^ 48"
    using assms(1) by (auto simp: wf_ClosePathFrame_def)
  obtain largest where largest:
    "writeBySwitch ?bo (WriteUint48 ?bo) (GetPacketNumberLength (LargestAcked f)) (LargestAcked f) = Inr largest"
    "length largest = unat (GetPacketNumberLength (LargestAcked f))"
    "\<And>r. ReadUintN ?bo (GetPacketNumberLength (LargestAcked f)) (largest @ r) = Inr (LargestAcked f, r)"
    using write_largest [OF wf(2) disjI2 [OF refl]] by blast
  obtain fl first blocks where blocks:
    "firstAckBlockLength (LargestAcked f) (LowestAcked f) (AckRanges f) = Inr fl"
    "writeBySwitch ?bo (WriteUint48 ?bo) ?d fl = Inr first"
    "writeAckRanges (writeBySwitch ?bo (WriteUint48 ?bo) ?d) ?num (if AckRanges f = [] then 0 else 1) (AckRanges f) =
       Inr (blocks, ?num)"
    "if AckRanges f = [] then length (first @ blocks) = unat ?d else 1 + length (first @ blocks) = (1 + unat ?d) * unat ?num"
    "\<And>nb r. (AckRanges f \<noteq> [] \<longrightarrow> nb = ucast (?num - 1)) \<Longrightarrow>
        parseAckRanges (ReadUintN ?bo ?d) (AckRanges f \<noteq> []) nb (LargestAcked f) (first @ blocks @ r) =
        Inr ((sentLowest (LowestAcked f) (AckRanges f), sentRanges (AckRanges f)), r)"
    using close_blocks.written_blocks [where bo = "GetByteOrder v",
        OF wf(1) assms(2,3) wf_ack_fits [OF wf assms(2)]]
    unfolding ClosePathFrame_getMissingSequenceNumberDeltaLen_def by blast
  define num where "num = (if AckRanges f = [] then [] else [ucast (?num - 1) :: byte])"
  define bytes where "bytes = 0x11 # PathID f # closePathFlags f # num @ largest @ first @ blocks"
  have num_le: "AckRanges f \<noteq> [] \<Longrightarrow> \<not> ?num > 255"
    using numWritableNackRanges_le wf(1) by (auto simp: wf_ack_def not_less)
  have num_byte: "AckRanges f \<noteq> [] \<Longrightarrow> (ucast (?num - 1) :: byte) \<noteq> 0"
    using wf_ack_firstGapFits [OF wf(1) assms(3)] numWritableNackRanges_byte by metis
  have "ClosePathFrame_Write v f = Inr bytes"
    using num_le largest(1) blocks(1,2,3)
    by (cases "AckRanges f = []")
      (simp_all add: ClosePathFrame_Write_def Let_def ClosePathFrame_HasMissingRanges_def
        ClosePathFrame_numWritableNackRanges_def bytes_def num_def)
  moreover have "length bytes = unat (ClosePathFrame_MinLength f)"
    using blocks(4) num_le largest(2)
    by (auto simp: unat_ClosePathFrame_MinLength bytes_def num_def not_less)
  moreover have "ParseClosePathFrame v (bytes @ r) = Inr (receivedClosePath f, r)" for r
  proof -
    have valid: "validateAckRanges (LargestAcked f) (sentRanges (AckRanges f))"
      using wf_ack_validate [OF wf_ack_sent [OF wf(1) assms(3)]] .
    have p: "parseAckRanges (ReadUintN ?bo ?d) (AckRanges f \<noteq> [])
        (if AckRanges f = [] then 0 else ucast (?num - 1)) (LargestAcked f) (first @ blocks @ r) =
        Inr ((sentLowest (LowestAcked f) (AckRanges f), sentRanges (AckRanges f)), r)"
      by (rule blocks(5)) simp
    show ?thesis
      using valid p num_byte largest(3)
      by (cases "AckRanges f = []")
        (simp_all add: ParseClosePathFrame_def bind_p_apply Let_def closePathFlags_fields bytes_def num_def
          ClosePathFrame_validateAckRanges_def receivedClosePath_def)
  qed
  ultimately show ?thesis by blast
qed

section \<open>What the parser accepts\<close>

lemma ParseClosePathFrame_taken: "ParseClosePathFrame v s = Inr (f, r) \<Longrightarrow> \<exists>pre. pre \<noteq> [] \<and> s = pre @ r"
  unfolding ParseClosePathFrame_def Let_def
  by (erule first_byte_taken) (intro consumes_intros)

lemma ParseClosePathFrame_wf:
  assumes "ParseClosePathFrame v s = Inr (f, r)"
  shows "wf_ClosePathFrame f"
proof -
  let ?bo = "GetByteOrder v"
  have largest: "unat l < 2 ^ 48" if "ReadUintN ?bo (flagLen (drop_bit 2 t AND 3)) s1 = Inr (l, s2)" for t l s1 s2
    using reads48D [OF reads48_ReadUintN that] flagLen_le_6(2) [of t] by simp
  have ranges: "wf_ack l lo rs"
    if "parseAckRanges (ReadUintN ?bo (flagLen (t AND 3))) hm nb l s3 = Inr ((lo, rs), s4)"
      "validateAckRanges l rs" "ReadUintN ?bo (flagLen (drop_bit 2 t AND 3)) s1 = Inr (l, s2)"
      "hm \<Longrightarrow> nb \<noteq> 0" for t l s1 s2 s3 s4 hm nb lo rs
    using parseAckRanges_wf [OF reads48_ReadUintN [OF flagLen_le_6(1)] largest [OF that(3)] that(4,1,2)] .
  show ?thesis
    using assms largest
    by (auto simp: ParseClosePathFrame_def Let_def bind_p_eq_Inr guard_eq_Inr
        ClosePathFrame_validateAckRanges_def wf_ClosePathFrame_def)
      (erule ranges, assumption, assumption, simp)+
qed

section \<open>Properties\<close>

text \<open>
  A well-formed CLOSE_PATH frame whose first gap is at most 64770 packets is written without panic
  in exactly \<^verbatim>\<open>MinLength\<close> bytes and parsed back by \<^verbatim>\<open>ParseClosePathFrame\<close>; the packets it acknowledges
  are those of the frame when its ranges need at most 254 further blocks.
\<close>

theorem close_path_frame_roundtrip:
  assumes "wf_ClosePathFrame f" "1 \<le> LowestAcked f" "firstGapFits (AckRanges f)"
  shows "\<exists>bytes. ClosePathFrame_Write v f = Inr bytes \<and> length bytes = unat (ClosePathFrame_MinLength f) \<and>
    (\<forall>r. \<exists>g. ParseClosePathFrame v (bytes @ r) = Inr (g, r) \<and> PathID g = PathID f \<and>
       LargestAcked g = LargestAcked f \<and>
       (\<forall>p. ClosePathFrame_AcksPacket g p \<longrightarrow> ClosePathFrame_AcksPacket f p) \<and>
       (ackBlocks (AckRanges f) < 255 \<longrightarrow> g = f))"
proof -
  let ?g = "receivedClosePath f"
  have wf: "wf_ack (LargestAcked f) (LowestAcked f) (AckRanges f)"
    using assms(1) by (simp add: wf_ClosePathFrame_def)
  note sent = wf_ack_sent [OF wf assms(3)]
  have sub: "ClosePathFrame_AcksPacket ?g p \<longrightarrow> ClosePathFrame_AcksPacket f p" for p
    using acked_set_sent [OF wf] AcksPacket_acked_set [OF sent, of p] AcksPacket_acked_set [OF wf, of p]
    by (auto simp: ClosePathFrame_AcksPacket_def receivedClosePath_def)
  have "?g = f" if "ackBlocks (AckRanges f) < 255"
    using sentRanges_all [of "AckRanges f"] that wf
    by (cases f; cases "AckRanges f = []") (auto simp: wf_ack_def sentLowest_def sentRanges_def receivedClosePath_def)
  moreover have "PathID ?g = PathID f" "LargestAcked ?g = LargestAcked f"
    by (simp_all add: receivedClosePath_def)
  ultimately show ?thesis using ClosePathFrame_Write_parse [OF assms, of v] sub by blast
qed

definition exampleClosePath :: ClosePathFrame where
  "exampleClosePath = \<lparr>PathID = 3, LargestAcked = 2000, LowestAcked = 7,
     AckRanges = [\<lparr>First = 1800, Last = 2000\<rparr>, \<lparr>First = 7, Last = 900\<rparr>]\<rparr>"

theorem close_path_frame_roundtrip_witness:
  "\<exists>bytes. ClosePathFrame_Write VersionMP exampleClosePath = Inr bytes \<and>
    ParseClosePathFrame VersionMP (bytes @ [1, 2]) = Inr (exampleClosePath, [1, 2])"
proof -
  have "wf_ClosePathFrame exampleClosePath" "1 \<le> LowestAcked exampleClosePath"
    "firstGapFits (AckRanges exampleClosePath)"
    by (simp_all add: exampleClosePath_def wf_ClosePathFrame_def wf_ack_def wf_ranges_def firstGapFits_def)
  note t = close_path_frame_roundtrip [OF this, of VersionMP]
  have "ackBlocks (AckRanges exampleClosePath) < 255" by (simp add: exampleClosePath_def)
  with t show ?thesis by blast
qed

text \<open>
  Whatever bytes \<^verbatim>\<open>ParseClosePathFrame\<close> accepts, the frame is well formed, \<^verbatim>\<open>AcksPacket\<close> decides
  membership in its ranges, and at least one byte was consumed.
\<close>

theorem parse_close_path_sound:
  assumes "ParseClosePathFrame v s = Inr (f, r)"
  shows "wf_ClosePathFrame f \<and> length r < length s \<and>
    (\<forall>p. ClosePathFrame_AcksPacket f p \<longleftrightarrow> p \<in> acked_set (LargestAcked f) (LowestAcked f) (AckRanges f))"
  using ParseClosePathFrame_wf [OF assms] ParseClosePathFrame_taken [OF assms] AcksPacket_acked_set
  by (auto simp: wf_ClosePathFrame_def ClosePathFrame_AcksPacket_def)

theorem parse_close_path_sound_witness:
  "wf_ClosePathFrame \<lparr>PathID = 2, LargestAcked = 9, LowestAcked = 5, AckRanges = []\<rparr>"
proof -
  have "ParseClosePathFrame VersionMP [0x11, 2, 0, 9, 5, 42] =
      Inr (\<lparr>PathID = 2, LargestAcked = 9, LowestAcked = 5, AckRanges = []\<rparr>, [42])"
    by code_simp
  from parse_close_path_sound [OF this] show ?thesis by simp
qed

end
