(* ===== verification/StreamFrame.thy ===== *)
theory StreamFrame
  imports ByteOrder Protocol Qerr
begin

text \<open>
  STREAM frames (\<^verbatim>\<open>internal/wire/stream_frame.go\<close>): parsing, writing, the variable-length encodings of
  the stream identifier and the offset, and \<^verbatim>\<open>MinLength\<close>. A written frame parses back; an accepted
  frame never overflows the offset and is never empty without FIN.
\<close>

section \<open>Definitions\<close>

record StreamFrame =
  StreamID :: StreamID
  FinBit :: bool
  DataLenPresent :: bool
  Offset :: ByteCount
  Data :: "byte list"

lemma StreamFrame_eta [simp]:
  "\<lparr>StreamID = StreamID f, FinBit = FinBit f, DataLenPresent = DataLenPresent f, Offset = Offset f, Data = Data f\<rparr> = f"
  by (cases f) simp

definition errInvalidStreamIDLen :: error where
  "errInvalidStreamIDLen = ErrNew ''StreamFrame: Invalid StreamID length''"
definition errInvalidOffsetLen :: error where
  "errInvalidOffsetLen = ErrNew ''StreamFrame: Invalid offset length''"

definition DataLen :: "StreamFrame \<Rightarrow> ByteCount" where
  "DataLen f = of_nat (length (Data f))"

definition parsedOffsetLen :: "byte \<Rightarrow> byte" where
  "parsedOffsetLen typeByte =
     (let offsetLen = drop_bit 2 (typeByte AND 0x1c) in if offsetLen \<noteq> 0 then offsetLen + 1 else offsetLen)"

definition ParseStreamFrame :: "VersionNumber \<Rightarrow> StreamFrame parser" where
  "ParseStreamFrame version =
     (let bo = GetByteOrder version in
      bind_p ReadByte (\<lambda>typeByte.
        let finBit = (typeByte AND 0x40 > 0);
            dataLenPresent = (typeByte AND 0x20 > 0);
            offsetLen = parsedOffsetLen typeByte;
            streamIDLen = (typeByte AND 0x3) + 1
        in
      bind_p (ReadUintN bo streamIDLen) (\<lambda>sid.
      bind_p (ReadUintN bo offsetLen) (\<lambda>offset.
      bind_p (if dataLenPresent then ReadUint16 bo else return_p 0) (\<lambda>dataLen.
        if dataLen > ucast MaxPacketSize then fail_p (QuicError InvalidStreamData ''data len too large'')
        else
      bind_p (if \<not> dataLenPresent then (\<lambda>r. Inr (of_nat (length r), r)) else return_p dataLen) (\<lambda>dataLen.
      bind_p (if dataLen \<noteq> 0 then ReadFull (unat dataLen) else return_p []) (\<lambda>data.
        let frame = \<lparr>StreamID = ucast sid, FinBit = finBit, DataLenPresent = dataLenPresent,
              Offset = offset, Data = data\<rparr>
        in if Offset frame + DataLen frame < Offset frame
           then fail_p (QuicError InvalidStreamData ''data overflows maximum offset'')
           else if \<not> FinBit frame \<and> DataLen frame = 0 then fail_p (Code EmptyStreamFrameNoFin)
           else return_p frame)))))))"

definition calculateStreamIDLength :: "StreamFrame \<Rightarrow> byte" where
  "calculateStreamIDLength f =
     (if StreamID f < push_bit 8 1 then 1
      else if StreamID f < push_bit 16 1 then 2
      else if StreamID f < push_bit 24 1 then 3
      else 4)"

definition getOffsetLength :: "StreamFrame \<Rightarrow> ByteCount" where
  "getOffsetLength f =
     (if Offset f = 0 then 0
      else if Offset f < push_bit 16 1 then 2
      else if Offset f < push_bit 24 1 then 3
      else if Offset f < push_bit 32 1 then 4
      else if Offset f < push_bit 40 1 then 5
      else if Offset f < push_bit 48 1 then 6
      else if Offset f < push_bit 56 1 then 7
      else 8)"

definition streamTypeByte :: "StreamFrame \<Rightarrow> byte" where
  "streamTypeByte f =
     (let t = 0x80;
          t = (if FinBit f then t XOR 0x40 else t);
          t = (if DataLenPresent f then t XOR 0x20 else t);
          offsetLength = getOffsetLength f;
          t = (if offsetLength > 0 then t XOR push_bit 2 (ucast offsetLength - 1) else t)
      in t XOR (calculateStreamIDLength f - 1))"

definition writeStreamID :: "ByteOrder \<Rightarrow> byte \<Rightarrow> StreamID \<Rightarrow> error + byte list" where
  "writeStreamID bo streamIDLen sid =
     (if streamIDLen = 1 then Inr [ucast sid]
      else if streamIDLen = 2 then Inr (WriteUint16 bo (ucast sid))
      else if streamIDLen = 3 then WriteUint24 bo sid
      else if streamIDLen = 4 then Inr (WriteUint32 bo sid)
      else Inl errInvalidStreamIDLen)"

definition writeOffset :: "ByteOrder \<Rightarrow> ByteCount \<Rightarrow> ByteCount \<Rightarrow> error + byte list" where
  "writeOffset bo offsetLength offset =
     (if offsetLength = 0 then Inr []
      else if offsetLength = 2 then Inr (WriteUint16 bo (ucast offset))
      else if offsetLength = 3 then WriteUint24 bo (ucast offset)
      else if offsetLength = 4 then Inr (WriteUint32 bo (ucast offset))
      else if offsetLength = 5 then WriteUint40 bo offset
      else if offsetLength = 6 then WriteUint48 bo offset
      else if offsetLength = 7 then WriteUint56 bo offset
      else if offsetLength = 8 then Inr (WriteUint64 bo offset)
      else Inl errInvalidOffsetLen)"

definition StreamFrame_Write :: "VersionNumber \<Rightarrow> StreamFrame \<Rightarrow> error + byte list" where
  "StreamFrame_Write version f =
     (let bo = GetByteOrder version in
      if length (Data f) = 0 \<and> \<not> FinBit f
      then Inl (ErrNew ''StreamFrame: attempting to write empty frame without FIN'')
      else
        bind_r (writeStreamID bo (calculateStreamIDLength f) (StreamID f)) (\<lambda>sid.
        bind_r (writeOffset bo (getOffsetLength f) (Offset f)) (\<lambda>offset.
          Inr (streamTypeByte f # sid @ offset @
            (if DataLenPresent f then WriteUint16 bo (of_nat (length (Data f))) else []) @ Data f))))"

definition StreamFrame_MinLength :: "StreamFrame \<Rightarrow> ByteCount" where
  "StreamFrame_MinLength f =
     (let len = 1 + ucast (calculateStreamIDLength f) + getOffsetLength f
      in if DataLenPresent f then len + 2 else len)"

section \<open>Variable-length numbers\<close>

lemma writeStreamID_read:
  "\<exists>bs. writeStreamID bo (calculateStreamIDLength f) (StreamID f) = Inr bs \<and>
     length bs = unat (calculateStreamIDLength f) \<and>
     (\<forall>r. ReadUintN bo (calculateStreamIDLength f) (bs @ r) = Inr (ucast (StreamID f), r))"
proof -
  let ?n = "unat (StreamID f)"
  consider "?n < 2 ^ 8" "calculateStreamIDLength f = 1" | "?n < 2 ^ 16" "calculateStreamIDLength f = 2"
    | "?n < 2 ^ 24" "calculateStreamIDLength f = 3" | "calculateStreamIDLength f = 4"
    by (cases "StreamID f < 2 ^ 8"; cases "StreamID f < 2 ^ 16"; cases "StreamID f < 2 ^ 24")
      (simp_all add: calculateStreamIDLength_def word_less_nat_alt)
  then show ?thesis
  proof cases
    case 3
    then show ?thesis using bo.write24_narrow [of "StreamID f" bo] by (simp add: writeStreamID_def)
  qed (simp_all add: writeStreamID_def ucast_narrow)
qed

lemma writeOffset_read:
  "\<exists>bs. writeOffset bo (getOffsetLength f) (Offset f) = Inr bs \<and>
     length bs = unat (getOffsetLength f) \<and>
     (\<forall>r. ReadUintN bo (ucast (getOffsetLength f)) (bs @ r) = Inr (Offset f, r))"
proof -
  let ?n = "unat (Offset f)" and ?l = "getOffsetLength f"
  have "Offset f = 0 \<and> ?l = 0 \<or> ?n < 2 ^ 16 \<and> ?l = 2 \<or> ?n < 2 ^ 24 \<and> ?l = 3 \<or> ?n < 2 ^ 32 \<and> ?l = 4
      \<or> Offset f < 2 ^ 40 \<and> ?l = 5 \<or> Offset f < 2 ^ 48 \<and> ?l = 6 \<or> Offset f < 2 ^ 56 \<and> ?l = 7 \<or> ?l = 8"
    by (simp add: getOffsetLength_def word_less_nat_alt)
  then consider "Offset f = 0" "?l = 0" | "?n < 2 ^ 16" "?l = 2" | "?n < 2 ^ 24" "?l = 3" | "?n < 2 ^ 32" "?l = 4"
    | "Offset f < 2 ^ 40" "?l = 5" | "Offset f < 2 ^ 48" "?l = 6" | "Offset f < 2 ^ 56" "?l = 7" | "?l = 8"
    by blast
  then show ?thesis
  proof cases
    case 3
    then show ?thesis using bo.write24_narrow [of "Offset f" bo] by (simp add: writeOffset_def)
  next
    case 5
    then show ?thesis using bo.write40_small [of "Offset f" bo] by (simp add: writeOffset_def)
  next
    case 6
    then show ?thesis using bo.write48_small [of "Offset f" bo] by (simp add: writeOffset_def)
  next
    case 7
    then show ?thesis using bo.write56_small [of "Offset f" bo] by (simp add: writeOffset_def)
  qed (simp_all add: writeOffset_def ucast_narrow)
qed

section \<open>The type byte\<close>

lemma streamTypeByte_fields:
  "(streamTypeByte f AND 0x40 > 0) = FinBit f"
  "(streamTypeByte f AND 0x20 > 0) = DataLenPresent f"
  "parsedOffsetLen (streamTypeByte f) = ucast (getOffsetLength f)"
  "(streamTypeByte f AND 3) + 1 = calculateStreamIDLength f"
proof -
  have "calculateStreamIDLength f \<in> {1, 2, 3, 4}" "getOffsetLength f \<in> {0, 2, 3, 4, 5, 6, 7, 8}"
    by (simp_all add: calculateStreamIDLength_def getOffsetLength_def)
  then show "(streamTypeByte f AND 0x40 > 0) = FinBit f"
    "(streamTypeByte f AND 0x20 > 0) = DataLenPresent f"
    "parsedOffsetLen (streamTypeByte f) = ucast (getOffsetLength f)"
    "(streamTypeByte f AND 3) + 1 = calculateStreamIDLength f"
    by (elim insertE emptyE; simp add: streamTypeByte_def parsedOffsetLen_def Let_def)+
qed

section \<open>Written frames\<close>

text \<open>
  A frame that can be sent before the bytes \<open>r\<close>: not empty unless it is the last one, its end below
  \<open>2\<^sup>6\<^sup>4\<close>, at most \<^verbatim>\<open>MaxPacketSize\<close> bytes of data when it carries a length, and the last frame of its
  packet when it does not.
\<close>

definition sendable :: "StreamFrame \<Rightarrow> byte list \<Rightarrow> bool" where
  "sendable f r \<longleftrightarrow> (Data f \<noteq> [] \<or> FinBit f) \<and> unat (Offset f) + length (Data f) < 2 ^ 64 \<and>
     (if DataLenPresent f then length (Data f) \<le> 1350 else length (Data f) < 65536 \<and> r = [])"

lemma Offset_no_wrap:
  assumes "unat (Offset f) + length (Data f) < 2 ^ 64"
  shows "\<not> Offset f + DataLen f < Offset f"
proof -
  have len: "unat (DataLen f) = length (Data f)"
    using assms by (simp add: DataLen_def unat_of_nat)
  then have "unat (Offset f + DataLen f) = unat (Offset f) + length (Data f)"
    using assms by (subst unat_add_noov) auto
  then show ?thesis by (simp add: word_less_nat_alt)
qed

lemma DataLen_0: "length (Data f) < 2 ^ 64 \<Longrightarrow> DataLen f = 0 \<longleftrightarrow> Data f = []"
  by (simp add: DataLen_def word_unat_eq_iff unat_of_nat)

lemma unat_StreamFrame_MinLength:
  "unat (StreamFrame_MinLength f) =
     1 + unat (calculateStreamIDLength f) + unat (getOffsetLength f) + (if DataLenPresent f then 2 else 0)"
proof -
  have "calculateStreamIDLength f \<in> {1, 2, 3, 4}" "getOffsetLength f \<in> {0, 2, 3, 4, 5, 6, 7, 8}"
    by (simp_all add: calculateStreamIDLength_def getOffsetLength_def)
  then show ?thesis
    by (elim insertE emptyE; simp add: StreamFrame_MinLength_def Let_def)
qed

lemma unat_data_len: "n < 65536 \<Longrightarrow> unat (of_nat n :: u16) = n"
  by (simp add: unat_of_nat)

lemma ParseStreamFrame_parts:
  assumes f: "sendable f r"
    and sid: "\<And>r. ReadUintN (GetByteOrder v) (calculateStreamIDLength f) (sid @ r) = Inr (ucast (StreamID f), r)"
    and off: "\<And>r. ReadUintN (GetByteOrder v) (ucast (getOffsetLength f)) (off @ r) = Inr (Offset f, r)"
  shows "ParseStreamFrame v (streamTypeByte f # sid @ off @
      (if DataLenPresent f then WriteUint16 (GetByteOrder v) (of_nat (length (Data f))) else []) @ Data f @ r) =
    Inr (f, r)"
proof -
  have len: "length (Data f) < 65536" using f by (auto simp: sendable_def split: if_splits)
  have small: "\<not> ucast MaxPacketSize < (of_nat (length (Data f)) :: u16)" if "DataLenPresent f"
    using f that by (auto simp: sendable_def word_less_nat_alt unat_data_len MaxPacketSize_def)
  have zero: "(of_nat (length (Data f)) :: u16) = 0 \<longleftrightarrow> Data f = []"
    using len by (simp add: word_unat_eq_iff unat_data_len)
  have ok: "\<not> Offset f + DataLen f < Offset f" "\<not> (\<not> FinBit f \<and> DataLen f = 0)"
    using f Offset_no_wrap len by (auto simp: sendable_def DataLen_0)
  have rest: "DataLenPresent f \<or> r = []" using f by (auto simp: sendable_def split: if_splits)
  have sid': "(ucast (ucast (StreamID f) :: u64) :: u32) = StreamID f" by (simp add: ucast_ucast_u64)
  show ?thesis
    using len small zero ok rest sid' StreamFrame_eta [of f]
    by (cases "DataLenPresent f"; cases "Data f = []")
      (simp_all add: ParseStreamFrame_def Let_def bind_p_apply sid off off [of "[]", simplified]
        unat_data_len streamTypeByte_fields DataLen_def)
qed

lemma StreamFrame_Write_parse:
  assumes "sendable f r"
  shows "\<exists>bytes. StreamFrame_Write v f = Inr bytes \<and>
    length bytes = unat (StreamFrame_MinLength f) + length (Data f) \<and>
    ParseStreamFrame v (bytes @ r) = Inr (f, r)"
proof -
  let ?bo = "GetByteOrder v"
  obtain sid where sid: "writeStreamID ?bo (calculateStreamIDLength f) (StreamID f) = Inr sid"
    "length sid = unat (calculateStreamIDLength f)"
    "\<And>r. ReadUintN ?bo (calculateStreamIDLength f) (sid @ r) = Inr (ucast (StreamID f), r)"
    using writeStreamID_read by blast
  obtain off where off: "writeOffset ?bo (getOffsetLength f) (Offset f) = Inr off"
    "length off = unat (getOffsetLength f)"
    "\<And>r. ReadUintN ?bo (ucast (getOffsetLength f)) (off @ r) = Inr (Offset f, r)"
    using writeOffset_read by blast
  have "\<not> (length (Data f) = 0 \<and> \<not> FinBit f)" using assms by (auto simp: sendable_def)
  then show ?thesis
    using sid(1,2) off(1,2) ParseStreamFrame_parts [OF assms sid(3) off(3)]
    by (auto simp: StreamFrame_Write_def unat_StreamFrame_MinLength Let_def)
qed

section \<open>Properties\<close>

text \<open>
  C26. A STREAM frame that can be sent is written in \<^verbatim>\<open>MinLength\<close> bytes plus its data, without panic,
  and parses back to the same frame; a frame with a data length leaves what follows it.
\<close>

theorem stream_frame_roundtrip:
  assumes "sendable f r"
  shows "\<exists>bytes. StreamFrame_Write v f = Inr bytes \<and>
    length bytes = unat (StreamFrame_MinLength f) + unat (DataLen f) \<and>
    ParseStreamFrame v (bytes @ r) = Inr (f, r)"
proof -
  have "unat (DataLen f) = length (Data f)"
    using assms by (simp add: DataLen_def sendable_def unat_of_nat)
  then show ?thesis using StreamFrame_Write_parse [OF assms, of v] by simp
qed

definition exampleStream :: StreamFrame where
  "exampleStream = \<lparr>StreamID = 0x1234, FinBit = False, DataLenPresent = True, Offset = 0xABCDEF01234, Data = [1, 2, 3]\<rparr>"

theorem stream_frame_roundtrip_witness:
  "\<exists>bytes. StreamFrame_Write Version39 exampleStream = Inr bytes \<and>
    ParseStreamFrame Version39 (bytes @ [9, 9]) = Inr (exampleStream, [9, 9])"
  using stream_frame_roundtrip [of exampleStream "[9, 9]" Version39]
  by (auto simp: exampleStream_def sendable_def)

lemma ParseStreamFrame_sound:
  assumes "ParseStreamFrame v s = Inr (f, r)" "length s \<le> 65535"
  shows "sendable f r \<and> (\<exists>header. header \<noteq> [] \<and> s = header @ Data f @ r)"
proof -
  let ?bo = "GetByteOrder v"
  from assms(1) obtain t s1 sid s2 off s3 d s4 d' s5 data s6 where
    t: "ReadByte s = Inr (t, s1)"
    and sid: "ReadUintN ?bo ((t AND 3) + 1) s1 = Inr (sid, s2)"
    and off: "ReadUintN ?bo (parsedOffsetLen t) s2 = Inr (off, s3)"
    and dl: "(if t AND 32 > 0 then ReadUint16 ?bo else return_p 0) s3 = Inr (d, s4)"
    and small: "\<not> d > ucast MaxPacketSize"
    and d': "(if \<not> t AND 32 > 0 then (\<lambda>r. Inr (of_nat (length r), r)) else return_p d) s4 = Inr (d', s5)"
    and data: "(if d' \<noteq> 0 then ReadFull (unat d') else return_p []) s5 = Inr (data, s6)"
    and f: "f = \<lparr>StreamID = ucast sid, FinBit = t AND 64 > 0, DataLenPresent = t AND 32 > 0, Offset = off, Data = data\<rparr>"
    and ok: "\<not> off + of_nat (length data) < off" "\<not> (\<not> t AND 64 > 0 \<and> of_nat (length data) = (0 :: u64))"
    and r: "s6 = r"
    unfolding ParseStreamFrame_def Let_def bind_p_eq_Inr guard_eq_Inr return_p_apply sum.inject prod.inject
      DataLen_def StreamFrame.select_convs
    by blast
  have "consumes (if t AND 32 > 0 then ReadUint16 ?bo else return_p 0)" by (intro consumes_intros)
  then obtain p1 p2 p3 where "s1 = p1 @ s2" "s2 = p2 @ s3" "s3 = p3 @ s4"
    using sid off dl consumes_ReadUint(1) by (metis consumesE)
  with t have s: "s = (t # p1 @ p2 @ p3) @ s4" by (auto dest: ReadByte_shorter)
  have s5: "s5 = s4" "d' = (if t AND 32 > 0 then d else of_nat (length s4))"
    using d' by (auto split: if_splits)
  from data r s5(1) have s4: "s4 = data @ r" "length data = unat d'"
    by (auto simp: ReadFull_def split: if_splits)
  have d: "unat d \<le> 1350" using small by (simp add: word_less_nat_alt MaxPacketSize_def)
  have len: "unat (of_nat (length s4) :: u16) = length s4" using assms(2) s by (simp add: unat_data_len)
  have "length data \<le> 65535" using s4(2) unsigned_less [of d', where 'a = nat] by simp
  then have udata: "unat (of_nat (length data) :: u64) = length data" by (simp add: unat_of_nat)
  have "unat off + length data < 2 ^ 64"
    using ok(1) unat_add_wrap [of off "of_nat (length data)"] udata by simp
  moreover have "data \<noteq> [] \<or> t AND 64 > 0" using ok(2) by auto
  moreover have "\<not> t AND 32 > 0 \<Longrightarrow> r = []" using s4 s5(2) len by simp
  ultimately have "sendable f r"
    using d s4(2) s5(2) \<open>length data \<le> 65535\<close> by (auto simp: sendable_def f)
  then show ?thesis using s s4(1) by (auto simp: f)
qed

text \<open>
  C27. Whatever bytes \<^verbatim>\<open>ParseStreamFrame\<close> accepts, the frame can be sent again: it is not empty without
  FIN, its end does not exceed the largest offset, a stated data length is at most
  \<^verbatim>\<open>MaxPacketSize\<close>, and the data are bytes of the input.
\<close>

theorem parse_stream_frame_sound:
  assumes "ParseStreamFrame v s = Inr (f, r)" "length s \<le> 65535"
  shows "sendable f r \<and> (\<exists>header. header \<noteq> [] \<and> s = header @ Data f @ r)"
  using ParseStreamFrame_sound [OF assms] .

theorem parse_stream_frame_sound_witness:
  "\<exists>f. ParseStreamFrame Version39 [0xA0, 5, 0, 2, 7, 8, 1] = Inr (f, [1]) \<and> sendable f [1] \<and> Data f = [7, 8]"
proof -
  let ?f = "\<lparr>StreamID = 5, FinBit = False, DataLenPresent = True, Offset = 0, Data = [7, 8]\<rparr>"
  have "ParseStreamFrame Version39 [0xA0, 5, 0, 2, 7, 8, 1] = Inr (?f, [1])" by code_simp
  with parse_stream_frame_sound [OF this] show ?thesis by auto
qed

end
