(* ===== verification/PublicHeader.thy ===== *)
theory PublicHeader
  imports AckRanges Qerr
begin

text \<open>
  The public header of a packet (\<^verbatim>\<open>internal/wire/public_header.go\<close>) and version negotiation packets
  (\<^verbatim>\<open>internal/wire/version_negotiation.go\<close>): writing, parsing, \<^verbatim>\<open>PeekConnectionID\<close>, \<^verbatim>\<open>GetLength\<close>. A header
  parses back with its packet number truncated to the length it was written in.
\<close>

section \<open>Definitions\<close>

record PublicHeader =
  Raw :: "byte list"
  ConnectionID :: ConnectionID
  PathID :: PathID
  VersionFlag :: bool
  ResetFlag :: bool
  TruncateConnectionID :: bool
  MultipathFlag :: bool
  PacketNumberLen :: PacketNumberLen
  PacketNumber :: PacketNumber
  VersionNumber :: VersionNumber
  SupportedVersions :: "VersionNumber list"
  DiversificationNonce :: "byte list"

definition ErrPacketWithUnknownVersion :: error where
  "ErrPacketWithUnknownVersion = ErrNew ''PublicHeader: Received a packet without version number, that we don't know the version for''"
definition errResetAndVersionFlagSet :: error where
  "errResetAndVersionFlagSet = ErrNew ''PublicHeader: Reset Flag and Version Flag should not be set at the same time''"
definition errReceivedTruncatedConnectionID :: error where
  "errReceivedTruncatedConnectionID = QuicError InvalidPacketHeader ''receiving packets with truncated ConnectionID is not supported''"
definition errInvalidConnectionID :: error where
  "errInvalidConnectionID = QuicError InvalidPacketHeader ''connection ID cannot be 0''"
definition errGetLengthNotForVersionNegotiation :: error where
  "errGetLengthNotForVersionNegotiation = ErrNew ''PublicHeader: GetLength cannot be called for VersionNegotiation packets''"
definition errPacketNumberLenNotSet :: error where
  "errPacketNumberLenNotSet = ErrNew ''StopWaitingFrame: PacketNumberLen not set''"

definition hasPacketNumber :: "PublicHeader \<Rightarrow> Perspective \<Rightarrow> bool" where
  "hasPacketNumber h packetSentBy =
     (if ResetFlag h then False
      else if VersionFlag h \<and> packetSentBy = PerspectiveServer then False
      else True)"

definition publicFlagByte :: "PublicHeader \<Rightarrow> Perspective \<Rightarrow> byte" where
  "publicFlagByte h pers =
     (let b = 0;
          b = (if VersionFlag h then b OR 0x01 else b);
          b = (if ResetFlag h then b OR 0x02 else b);
          b = (if \<not> TruncateConnectionID h then b OR 0x08 else b);
          b = (if length (DiversificationNonce h) > 0 then b OR 0x04 else b);
          b = (if hasPacketNumber h pers then
                 if PacketNumberLen h = PacketNumberLen1 then b OR 0x00
                 else if PacketNumberLen h = PacketNumberLen2 then b OR 0x10
                 else if PacketNumberLen h = PacketNumberLen4 then b OR 0x20
                 else if PacketNumberLen h = PacketNumberLen6 then b OR 0x30
                 else b
               else b)
      in if MultipathFlag h then b OR 0x40 else b)"

definition writePacketNumber :: "ByteOrder \<Rightarrow> PacketNumberLen \<Rightarrow> PacketNumber \<Rightarrow> error + byte list" where
  "writePacketNumber bo len packetNumber =
     (if len = PacketNumberLen1 then Inr [ucast packetNumber]
      else if len = PacketNumberLen2 then Inr (WriteUint16 bo (ucast packetNumber))
      else if len = PacketNumberLen4 then Inr (WriteUint32 bo (ucast packetNumber))
      else if len = PacketNumberLen6 then maskedUint48 bo packetNumber
      else Inl (ErrNew ''PublicHeader: PacketNumberLen not set''))"

definition PublicHeader_Write :: "VersionNumber \<Rightarrow> Perspective \<Rightarrow> PublicHeader \<Rightarrow> error + byte list" where
  "PublicHeader_Write version pers h =
     (let bo = GetByteOrder version in
      if VersionFlag h \<and> ResetFlag h then Inl errResetAndVersionFlagSet
      else if length (DiversificationNonce h) > 0 \<and> length (DiversificationNonce h) \<noteq> 32
      then Inl (ErrNew ''invalid diversification nonce length'')
      else
        let start = publicFlagByte h pers #
              (if \<not> TruncateConnectionID h then littleEndian_WriteUint64 (ConnectionID h) else []) @
              (if VersionFlag h \<and> pers = PerspectiveClient
               then littleEndian_WriteUint32 (VersionNumberToTag (VersionNumber h)) else []) @
              DiversificationNonce h @
              (if MultipathFlag h then [PathID h] else [])
        in
        if \<not> hasPacketNumber h pers then Inr start
        else bind_r (writePacketNumber bo (PacketNumberLen h) (PacketNumber h)) (\<lambda>pn. Inr (start @ pn)))"

text \<open>The reader's position is restored, so the connection identifier is a function of the bytes.\<close>

definition PeekConnectionID :: "Perspective \<Rightarrow> byte list \<Rightarrow> error + ConnectionID" where
  "PeekConnectionID packetSentBy b =
     bind_r (ReadByte b) (\<lambda>(publicFlagByte, b').
       let truncateConnectionID = (publicFlagByte AND 0x08 = 0) in
       if truncateConnectionID \<and> packetSentBy = PerspectiveClient then Inl errReceivedTruncatedConnectionID
       else if \<not> truncateConnectionID then bind_r (littleEndian_ReadUint64 b') (\<lambda>(connID, _). Inr connID)
       else Inr 0)"

text \<open>The versions of a version negotiation packet: tags are read until reading fails.\<close>

function readVersionTags :: "byte list \<Rightarrow> VersionNumber list" where
  "readVersionTags b =
     (case littleEndian_ReadUint32 b of
        Inl _ \<Rightarrow> []
      | Inr (versionTag, b') \<Rightarrow> VersionTagToNumber versionTag # readVersionTags b')"
  by pat_completeness auto

lemma littleEndian_ReadUint32_shorter:
  "littleEndian_ReadUint32 b = Inr (t, b') \<Longrightarrow> length b = 4 + length b'"
  unfolding littleEndian_ReadUint32_eq by (auto simp: bind_p_eq_Inr dest!: le.readN_consumes)

termination readVersionTags
  by (relation "measure length") (auto dest: littleEndian_ReadUint32_shorter)

declare readVersionTags.simps [simp del]

text \<open>The version field of a client's packet; its value also decides the byte order from there on.\<close>

definition readVersion :: "bool \<Rightarrow> VersionNumber \<Rightarrow> (VersionNumber \<times> VersionNumber) parser" where
  "readVersion present version =
     (if present then bind_p littleEndian_ReadUint32 (\<lambda>versionTag.
        return_p (VersionTagToNumber versionTag, VersionTagToNumber versionTag))
      else return_p (0, version))"

definition ParsePublicHeader :: "Perspective \<Rightarrow> VersionNumber \<Rightarrow> PublicHeader parser" where
  "ParsePublicHeader packetSentBy version =
     bind_p ReadByte (\<lambda>publicFlagByte.
       let resetFlag = (publicFlagByte AND 0x02 > 0);
           versionFlag = (publicFlagByte AND 0x01 > 0);
           truncate = (publicFlagByte AND 0x08 = 0);
           header = \<lparr>Raw = [], ConnectionID = 0, PathID = 0, VersionFlag = versionFlag, ResetFlag = resetFlag,
             TruncateConnectionID = truncate, MultipathFlag = (publicFlagByte AND 0x40 > 0),
             PacketNumberLen = 0, PacketNumber = 0, VersionNumber = 0, SupportedVersions = [],
             DiversificationNonce = []\<rparr>;
           pnl = (if publicFlagByte AND 0x30 = 0x30 then PacketNumberLen6
                  else if publicFlagByte AND 0x30 = 0x20 then PacketNumberLen4
                  else if publicFlagByte AND 0x30 = 0x10 then PacketNumberLen2
                  else PacketNumberLen1);
           header = (if hasPacketNumber header packetSentBy then header\<lparr>PacketNumberLen := pnl\<rparr> else header)
       in
       if version = VersionUnknown \<and> \<not> (versionFlag \<or> resetFlag) then fail_p ErrPacketWithUnknownVersion
       else if truncate \<and> packetSentBy = PerspectiveClient then fail_p errReceivedTruncatedConnectionID
       else
     bind_p (if \<not> truncate then littleEndian_ReadUint64 else return_p 0) (\<lambda>connID.
       if \<not> truncate \<and> connID = 0 then fail_p errInvalidConnectionID
       else
     bind_p (if packetSentBy = PerspectiveServer \<and> publicFlagByte AND 0x04 > 0 \<and> \<not> versionFlag \<and> \<not> resetFlag
             then ReadFull 32 else return_p []) (\<lambda>nonce.
       let header = header\<lparr>ConnectionID := connID, DiversificationNonce := nonce\<rparr>
       in if \<not> resetFlag \<and> versionFlag \<and> packetSentBy = PerspectiveServer then
            (\<lambda>b. if length b mod 4 \<noteq> 0 then Inl (Code InvalidVersionNegotiationPacket)
                 else Inr (header\<lparr>SupportedVersions := readVersionTags b\<rparr>, []))
          else
     bind_p (readVersion (\<not> resetFlag \<and> versionFlag) version) (\<lambda>(versionNumber, version).
     bind_p (if MultipathFlag header then ReadByte else return_p 0) (\<lambda>pathID.
     bind_p (if hasPacketNumber header packetSentBy
             then ReadUintN (GetByteOrder version) (PacketNumberLen header) else return_p 0) (\<lambda>packetNumber.
       return_p (header\<lparr>VersionNumber := versionNumber, PathID := pathID, PacketNumber := packetNumber\<rparr>)))))))"

definition GetLength :: "Perspective \<Rightarrow> PublicHeader \<Rightarrow> error + ByteCount" where
  "GetLength pers h =
     (if VersionFlag h \<and> ResetFlag h then Inl errResetAndVersionFlagSet
      else if VersionFlag h \<and> pers = PerspectiveServer then Inl errGetLengthNotForVersionNegotiation
      else if hasPacketNumber h pers \<and> PacketNumberLen h \<noteq> PacketNumberLen1 \<and> PacketNumberLen h \<noteq> PacketNumberLen2 \<and>
              PacketNumberLen h \<noteq> PacketNumberLen4 \<and> PacketNumberLen h \<noteq> PacketNumberLen6
      then Inl errPacketNumberLenNotSet
      else
        let len = 1;
            len = (if hasPacketNumber h pers then len + ucast (PacketNumberLen h) else len);
            len = (if \<not> TruncateConnectionID h then len + 8 else len);
            len = (if VersionFlag h then len + 4 else len);
            len = len + of_nat (length (DiversificationNonce h))
        in Inr (if MultipathFlag h then len + 1 else len))"

definition ComposeVersionNegotiation :: "ConnectionID \<Rightarrow> VersionNumber list \<Rightarrow> byte list" where
  "ComposeVersionNegotiation connectionID versions =
     (let h = \<lparr>Raw = [], ConnectionID = connectionID, PathID = 0, VersionFlag = True, ResetFlag = False,
            TruncateConnectionID = False, MultipathFlag = False, PacketNumberLen = 0, PacketNumber = 1,
            VersionNumber = 0, SupportedVersions = [], DiversificationNonce = []\<rparr>
      in (case PublicHeader_Write VersionWhatever PerspectiveServer h of Inl _ \<Rightarrow> [] | Inr bs \<Rightarrow> bs) @
         concat (map (\<lambda>v. littleEndian_WriteUint32 (VersionNumberToTag v)) versions))"

section \<open>Headers parse back\<close>

text \<open>
  The headers that a sender of perspective \<open>pers\<close> writes for regular packets and for public resets:
  the version only from the client, with the version the packet is for; a nonce only from the server.
\<close>

definition wf_header :: "Perspective \<Rightarrow> VersionNumber \<Rightarrow> PublicHeader \<Rightarrow> bool" where
  "wf_header pers version h \<longleftrightarrow>
     Raw h = [] \<and> SupportedVersions h = [] \<and>
     \<not> (VersionFlag h \<and> ResetFlag h) \<and> \<not> (VersionFlag h \<and> pers = PerspectiveServer) \<and>
     (if TruncateConnectionID h then ConnectionID h = 0 \<and> pers = PerspectiveServer else ConnectionID h \<noteq> 0) \<and>
     (DiversificationNonce h = [] \<or>
       length (DiversificationNonce h) = 32 \<and> pers = PerspectiveServer \<and> \<not> ResetFlag h) \<and>
     (\<not> MultipathFlag h \<longrightarrow> PathID h = 0) \<and>
     (if VersionFlag h then VersionNumber h = version \<and> 0 \<le> version \<and> version < 1000
      else VersionNumber h = 0 \<and> (\<not> ResetFlag h \<longrightarrow> version \<noteq> VersionUnknown)) \<and>
     (if ResetFlag h then PacketNumberLen h = 0 \<and> PacketNumber h = 0 else PacketNumberLen h \<in> number_lens)"

lemma writePacketNumber_read:
  assumes "len \<in> number_lens"
  shows "\<exists>pn. writePacketNumber bo len p = Inr pn \<and> length pn = unat len \<and>
    (\<forall>r. ReadUintN bo len (pn @ r) = Inr (take_bit (8 * unat len) p, r))"
  using bo.write48_mask [of bo p] bo.readN_trunc1 bo.readN_trunc2 bo.readN_trunc4
  by (rule_tac number_lens_cases [OF assms]) (simp_all add: writePacketNumber_def maskedUint48_def)

lemma publicFlagByte_fields:
  assumes "ResetFlag h \<or> PacketNumberLen h \<in> number_lens" "\<not> (VersionFlag h \<and> pers = PerspectiveServer)"
  shows "(publicFlagByte h pers AND 1 > 0) = VersionFlag h"
    "(publicFlagByte h pers AND 2 > 0) = ResetFlag h"
    "(publicFlagByte h pers AND 8 = 0) = TruncateConnectionID h"
    "(publicFlagByte h pers AND 4 > 0) = (DiversificationNonce h \<noteq> [])"
    "(publicFlagByte h pers AND 0x40 > 0) = MultipathFlag h"
    "\<not> ResetFlag h \<Longrightarrow>
       (if publicFlagByte h pers AND 0x30 = 0x30 then PacketNumberLen6
        else if publicFlagByte h pers AND 0x30 = 0x20 then PacketNumberLen4
        else if publicFlagByte h pers AND 0x30 = 0x10 then PacketNumberLen2
        else PacketNumberLen1) = PacketNumberLen h"
proof -
  have has: "hasPacketNumber h pers = (\<not> ResetFlag h)" using assms(2) by (auto simp: hasPacketNumber_def)
  define d where "d = (if ResetFlag h then 0 else if PacketNumberLen h = 2 then 0x10
    else if PacketNumberLen h = 4 then 0x20 else if PacketNumberLen h = 6 then 0x30 else (0 :: byte))"
  have d: "d \<in> {0, 0x10, 0x20, 0x30}" by (simp add: d_def)
  have b: "publicFlagByte h pers = (if VersionFlag h then 1 else 0) OR (if ResetFlag h then 2 else 0) OR
      (if TruncateConnectionID h then 0 else 8) OR (if DiversificationNonce h \<noteq> [] then 4 else 0) OR d OR
      (if MultipathFlag h then 0x40 else 0)"
    using d by (auto simp: publicFlagByte_def has d_def Let_def)
  show "(publicFlagByte h pers AND 1 > 0) = VersionFlag h"
    "(publicFlagByte h pers AND 2 > 0) = ResetFlag h"
    "(publicFlagByte h pers AND 8 = 0) = TruncateConnectionID h"
    "(publicFlagByte h pers AND 4 > 0) = (DiversificationNonce h \<noteq> [])"
    "(publicFlagByte h pers AND 0x40 > 0) = MultipathFlag h"
    unfolding b using d by (elim insertE emptyE; simp)+
  have "publicFlagByte h pers AND 0x30 = d"
    unfolding b using d by (elim insertE emptyE; simp)
  with assms(1) show "(if publicFlagByte h pers AND 0x30 = 0x30 then PacketNumberLen6
        else if publicFlagByte h pers AND 0x30 = 0x20 then PacketNumberLen4
        else if publicFlagByte h pers AND 0x30 = 0x10 then PacketNumberLen2
        else PacketNumberLen1) = PacketNumberLen h" if "\<not> ResetFlag h"
    using that by (auto simp: d_def elim!: number_lens_cases)
qed

text \<open>The packet number as the peer sees it: its low-order bytes.\<close>

definition receivedHeader :: "PublicHeader \<Rightarrow> PublicHeader" where
  "receivedHeader h = h\<lparr>PacketNumber := take_bit (8 * unat (PacketNumberLen h)) (PacketNumber h)\<rparr>"

lemma receivedHeader_eq:
  assumes "wf_header pers version h"
  shows "receivedHeader h =
    \<lparr>Raw = [], ConnectionID = ConnectionID h, PathID = PathID h, VersionFlag = VersionFlag h,
     ResetFlag = ResetFlag h, TruncateConnectionID = TruncateConnectionID h, MultipathFlag = MultipathFlag h,
     PacketNumberLen = PacketNumberLen h,
     PacketNumber = take_bit (8 * unat (PacketNumberLen h)) (PacketNumber h), VersionNumber = VersionNumber h,
     SupportedVersions = [], DiversificationNonce = DiversificationNonce h\<rparr>"
  using assms by (cases h) (simp add: receivedHeader_def wf_header_def)

lemma VersionFlag_client:
  assumes "wf_header pers version h" "VersionFlag h"
  shows "pers = PerspectiveClient" "\<not> ResetFlag h" "VersionNumber h = version"
    "VersionTagToNumber (VersionNumberToTag version) = version"
  using assms VersionTag_roundtrip [of version] by (auto simp: wf_header_def intro: Perspective.exhaust [of pers])

lemma unat_GetLength:
  assumes "wf_header pers version h"
  shows "\<exists>n. GetLength pers h = Inr n \<and> unat n = 1 + unat (PacketNumberLen h) +
    (if TruncateConnectionID h then 0 else 8) + (if VersionFlag h then 4 else 0) +
    length (DiversificationNonce h) + (if MultipathFlag h then 1 else 0)"
proof -
  have nonce: "length (DiversificationNonce h) \<in> {0, 32}" using assms by (auto simp: wf_header_def)
  have "PacketNumberLen h \<in> insert 0 number_lens" "ResetFlag h \<Longrightarrow> PacketNumberLen h = 0"
    using assms by (auto simp: wf_header_def split: if_splits)
  with nonce assms show ?thesis
    by (cases "ResetFlag h") (auto simp: GetLength_def Let_def hasPacketNumber_def wf_header_def number_lens_def)
qed

lemma ParsePublicHeader_parts:
  assumes wf: "wf_header pers version h"
    and pn: "ResetFlag h \<Longrightarrow> pn = []"
      "\<And>r. \<not> ResetFlag h \<Longrightarrow> ReadUintN (GetByteOrder version) (PacketNumberLen h) (pn @ r) =
         Inr (take_bit (8 * unat (PacketNumberLen h)) (PacketNumber h), r)"
  shows "ParsePublicHeader pers version (publicFlagByte h pers #
     (if \<not> TruncateConnectionID h then littleEndian_WriteUint64 (ConnectionID h) else []) @
     (if VersionFlag h \<and> pers = PerspectiveClient
      then littleEndian_WriteUint32 (VersionNumberToTag (VersionNumber h)) else []) @
     DiversificationNonce h @ (if MultipathFlag h then [PathID h] else []) @ pn @ r) = Inr (receivedHeader h, r)"
proof -
  let ?V = "VersionFlag h" and ?R = "ResetFlag h" and ?T = "TruncateConnectionID h"
  have flags: "?R \<or> PacketNumberLen h \<in> number_lens" "\<not> (?V \<and> pers = PerspectiveServer)"
    using wf by (auto simp: wf_header_def split: if_splits)
  have guards: "(version = VersionUnknown \<and> \<not> (?V \<or> ?R)) = False" "(?T \<and> pers = PerspectiveClient) = False"
    "(\<not> ?T \<and> ConnectionID h = 0) = False" "(\<not> ?R \<and> ?V \<and> pers = PerspectiveServer) = False"
    using wf by (auto simp: wf_header_def split: if_splits)
  define L where "L = \<lparr>Raw = [], ConnectionID = 0, PathID = 0, VersionFlag = ?V, ResetFlag = ?R,
     TruncateConnectionID = ?T, MultipathFlag = MultipathFlag h, PacketNumberLen = 0, PacketNumber = 0,
     VersionNumber = 0, SupportedVersions = [], DiversificationNonce = []\<rparr>"
  have has: "hasPacketNumber (L\<lparr>PacketNumberLen := l, ConnectionID := c, DiversificationNonce := d\<rparr>) pers = (\<not> ?R)" for l c d
    using flags(2) by (auto simp: hasPacketNumber_def L_def)
  have fields: "MultipathFlag (L\<lparr>PacketNumberLen := l, ConnectionID := c, DiversificationNonce := d\<rparr>) = MultipathFlag h"
    "PacketNumberLen (L\<lparr>PacketNumberLen := l, ConnectionID := c, DiversificationNonce := d\<rparr>) = l" for l c d
    by (simp_all add: L_def)
  have lit: "(if hasPacketNumber L pers then L\<lparr>PacketNumberLen :=
       (if publicFlagByte h pers AND 0x30 = 0x30 then PacketNumberLen6
        else if publicFlagByte h pers AND 0x30 = 0x20 then PacketNumberLen4
        else if publicFlagByte h pers AND 0x30 = 0x10 then PacketNumberLen2
        else PacketNumberLen1)\<rparr> else L) = L\<lparr>PacketNumberLen := PacketNumberLen h\<rparr>"
  proof -
    have "hasPacketNumber L pers = (\<not> ?R)" using flags(2) by (auto simp: hasPacketNumber_def L_def)
    moreover have "?R \<Longrightarrow> PacketNumberLen h = 0" using wf by (simp add: wf_header_def)
    ultimately show ?thesis using publicFlagByte_fields(6) [OF flags] by (auto simp: L_def)
  qed
  define ver where "ver = (if ?V \<and> pers = PerspectiveClient
      then littleEndian_WriteUint32 (VersionNumberToTag (VersionNumber h)) else [])"
  define mp where "mp = (if MultipathFlag h then [PathID h] else [])"
  define conn where "conn = (if \<not> ?T then littleEndian_WriteUint64 (ConnectionID h) else [])"
  have swap: "ver @ DiversificationNonce h @ s = DiversificationNonce h @ ver @ s" for s
    using wf by (auto simp: ver_def wf_header_def)
  have conn: "(if \<not> ?T then littleEndian_ReadUint64 else return_p 0) (conn @ s) = Inr (ConnectionID h, s)" for s
    using wf by (auto simp: conn_def le.read64_write64 wf_header_def)
  have nonce: "(if pers = PerspectiveServer \<and> DiversificationNonce h \<noteq> [] \<and> \<not> ?V \<and> \<not> ?R then ReadFull 32 else return_p [])
      (DiversificationNonce h @ s) = Inr (DiversificationNonce h, s)" for s
    using wf by (auto simp: wf_header_def)
  have ver: "readVersion (\<not> ?R \<and> ?V) version (ver @ s) = Inr ((VersionNumber h, version), s)" for s
    using VersionFlag_client [OF wf] wf
    by (cases ?V) (auto simp: readVersion_def ver_def bind_p_apply le.read32_write32 wf_header_def)
  have mp: "(if MultipathFlag h then ReadByte else return_p 0) (mp @ s) = Inr (PathID h, s)" for s
    using wf by (auto simp: mp_def wf_header_def)
  have pn': "(if \<not> ?R then ReadUintN (GetByteOrder version) (PacketNumberLen h) else return_p 0) (pn @ s) =
      Inr (take_bit (8 * unat (PacketNumberLen h)) (PacketNumber h), s)" for s
    using wf pn by (auto simp: wf_header_def)
  show ?thesis
    unfolding ver_def [symmetric] conn_def [symmetric] mp_def [symmetric] swap
    unfolding ParsePublicHeader_def receivedHeader_eq [OF wf] Let_def bind_p_apply ReadByte.simps sum.case prod.case
    unfolding publicFlagByte_fields(1-5) [OF flags] guards if_False L_def [symmetric] lit
    unfolding bind_p_apply conn sum.case prod.case guards if_False
    unfolding bind_p_apply nonce sum.case prod.case guards if_False
    unfolding bind_p_apply ver sum.case prod.case
    unfolding bind_p_apply fields has mp pn' sum.case prod.case return_p_apply
    by (simp add: L_def)
qed

lemma PublicHeader_Write_parse:
  assumes "wf_header pers version h"
  shows "\<exists>bytes. PublicHeader_Write version pers h = Inr bytes \<and>
    ParsePublicHeader pers version (bytes @ r) = Inr (receivedHeader h, r) \<and>
    (\<exists>n. GetLength pers h = Inr n \<and> unat n = length bytes)"
proof -
  let ?bo = "GetByteOrder version"
  have has: "hasPacketNumber h pers = (\<not> ResetFlag h)" using assms by (auto simp: hasPacketNumber_def wf_header_def)
  obtain pn where pn: "ResetFlag h \<Longrightarrow> pn = []"
    "\<not> ResetFlag h \<Longrightarrow> writePacketNumber ?bo (PacketNumberLen h) (PacketNumber h) = Inr pn"
    "length pn = unat (PacketNumberLen h)"
    "\<And>r. \<not> ResetFlag h \<Longrightarrow> ReadUintN ?bo (PacketNumberLen h) (pn @ r) =
       Inr (take_bit (8 * unat (PacketNumberLen h)) (PacketNumber h), r)"
  proof (cases "ResetFlag h")
    case True
    then show ?thesis using that [of "[]"] assms by (simp add: wf_header_def)
  next
    case False
    then have "PacketNumberLen h \<in> number_lens" using assms by (simp add: wf_header_def)
    with writePacketNumber_read [OF this, of ?bo "PacketNumber h"] False that show ?thesis by blast
  qed
  define start where "start = publicFlagByte h pers #
     (if \<not> TruncateConnectionID h then littleEndian_WriteUint64 (ConnectionID h) else []) @
     (if VersionFlag h \<and> pers = PerspectiveClient
      then littleEndian_WriteUint32 (VersionNumberToTag (VersionNumber h)) else []) @
     DiversificationNonce h @ (if MultipathFlag h then [PathID h] else [])"
  have written: "PublicHeader_Write version pers h = Inr (start @ pn)"
    using assms pn(1,2) has by (auto simp: PublicHeader_Write_def wf_header_def start_def Let_def)
  have len: "\<exists>n. GetLength pers h = Inr n \<and> unat n = length (start @ pn)"
    using unat_GetLength [OF assms] pn(3) VersionFlag_client(1) [OF assms]
    by (auto simp: start_def le.length_write64 le.length_write32)
  have parse: "ParsePublicHeader pers version ((start @ pn) @ r) = Inr (receivedHeader h, r)"
    using ParsePublicHeader_parts [OF assms pn(1,4)] by (simp add: start_def)
  show ?thesis using written len parse by blast
qed

section \<open>Version negotiation\<close>

lemma readVersionTags_Nil [simp]: "readVersionTags [] = []"
  by (subst readVersionTags.simps) (simp add: littleEndian_ReadUint32_def bind_p_apply)

lemma readVersionTags_written:
  assumes "\<forall>v \<in> set versions. 0 \<le> v \<and> v < 1000"
  shows "readVersionTags (concat (map (\<lambda>v. littleEndian_WriteUint32 (VersionNumberToTag v)) versions)) = versions"
  using assms
proof (induction versions)
  case (Cons v versions)
  then show ?case
    by (subst readVersionTags.simps) (simp add: le.read32_write32 VersionTag_roundtrip)
qed simp

lemma length_version_tags:
  "length (concat (map (\<lambda>v. littleEndian_WriteUint32 (VersionNumberToTag v)) versions)) = 4 * length versions"
  by (induction versions) (auto simp: le.length_write32)

section \<open>Properties\<close>

text \<open>
  C23. Every header of a regular packet or a public reset is written, in \<^verbatim>\<open>GetLength\<close> bytes, and parses
  back as the same header with the low-order bytes of the packet number, whatever follows it; and
  \<^verbatim>\<open>PeekConnectionID\<close> finds its connection identifier.
\<close>

theorem public_header_roundtrip:
  assumes "wf_header pers version h"
  shows "\<exists>bytes n. PublicHeader_Write version pers h = Inr bytes \<and> GetLength pers h = Inr n \<and>
    unat n = length bytes \<and> ParsePublicHeader pers version (bytes @ r) = Inr (receivedHeader h, r) \<and>
    PeekConnectionID pers (bytes @ r) = Inr (ConnectionID h)"
proof -
  obtain bytes n where bytes: "PublicHeader_Write version pers h = Inr bytes"
    "ParsePublicHeader pers version (bytes @ r) = Inr (receivedHeader h, r)"
    "GetLength pers h = Inr n" "unat n = length bytes"
    using PublicHeader_Write_parse [OF assms] by blast
  have flags: "ResetFlag h \<or> PacketNumberLen h \<in> number_lens" "\<not> (VersionFlag h \<and> pers = PerspectiveServer)"
    using assms by (auto simp: wf_header_def split: if_splits)
  obtain s where "bytes = publicFlagByte h pers # (if \<not> TruncateConnectionID h
      then littleEndian_WriteUint64 (ConnectionID h) else []) @ s"
    using bytes(1) by (auto simp: PublicHeader_Write_def Let_def bind_r_eq_Inr split: if_splits)
  then have "PeekConnectionID pers (bytes @ r) = Inr (ConnectionID h)"
    using assms publicFlagByte_fields(3) [OF flags]
    by (auto simp: PeekConnectionID_def Let_def le.read64_write64 wf_header_def)
  with bytes show ?thesis by blast
qed

definition exampleHeader :: PublicHeader where
  "exampleHeader = \<lparr>Raw = [], ConnectionID = 0xDECAFBAD, PathID = 2, VersionFlag = False, ResetFlag = False,
     TruncateConnectionID = False, MultipathFlag = True, PacketNumberLen = 2, PacketNumber = 0x12345,
     VersionNumber = 0, SupportedVersions = [], DiversificationNonce = []\<rparr>"

theorem public_header_roundtrip_witness:
  "\<exists>bytes. PublicHeader_Write VersionMP PerspectiveClient exampleHeader = Inr bytes \<and>
    ParsePublicHeader PerspectiveClient VersionMP (bytes @ [5]) = Inr (exampleHeader\<lparr>PacketNumber := 0x2345\<rparr>, [5])"
proof -
  have "wf_header PerspectiveClient VersionMP exampleHeader"
    by (simp add: wf_header_def exampleHeader_def number_lens_def version_defs)
  moreover have "receivedHeader exampleHeader = exampleHeader\<lparr>PacketNumber := 0x2345\<rparr>"
    by (simp add: receivedHeader_def exampleHeader_def)
  ultimately show ?thesis using public_header_roundtrip [of PerspectiveClient VersionMP exampleHeader "[5]"] by auto
qed

text \<open>
  C28. A version negotiation packet that the server composes is parsed by the client as the list of
  the server's versions, and the version the client then chooses is the first of its own that the
  server offers, or \<^verbatim>\<open>VersionUnsupported\<close> if there is none.
\<close>

theorem version_negotiation_roundtrip:
  assumes "connectionID \<noteq> 0" "\<forall>v \<in> set versions. 0 \<le> v \<and> v < 1000"
  shows "\<exists>h. ParsePublicHeader PerspectiveServer v (ComposeVersionNegotiation connectionID versions) = Inr (h, []) \<and>
    ConnectionID h = connectionID \<and> VersionFlag h \<and> PublicHeader.SupportedVersions h = versions \<and>
    ChooseSupportedVersion ours (PublicHeader.SupportedVersions h) =
      (case filter (\<lambda>v. v \<in> set versions) ours of [] \<Rightarrow> VersionUnsupported | v # _ \<Rightarrow> v)"
proof -
  let ?tags = "concat (map (\<lambda>v. littleEndian_WriteUint32 (VersionNumberToTag v)) versions)"
  have packet: "ComposeVersionNegotiation connectionID versions =
      0x09 # littleEndian_WriteUint64 connectionID @ ?tags"
    by (simp add: ComposeVersionNegotiation_def PublicHeader_Write_def publicFlagByte_def hasPacketNumber_def Let_def)
  have "length ?tags mod 4 = 0" unfolding length_version_tags by simp
  then have "\<exists>h. ParsePublicHeader PerspectiveServer v (ComposeVersionNegotiation connectionID versions) = Inr (h, []) \<and>
      ConnectionID h = connectionID \<and> VersionFlag h \<and> PublicHeader.SupportedVersions h = versions"
    using assms
    by (simp add: packet ParsePublicHeader_def bind_p_apply Let_def hasPacketNumber_def le.read64_write64
        readVersionTags_written)
  then show ?thesis by (auto simp: ChooseSupportedVersion_filter)
qed

theorem version_negotiation_roundtrip_witness:
  "\<exists>h. ParsePublicHeader PerspectiveServer VersionMP (ComposeVersionNegotiation 77 [VersionMP, Version39]) = Inr (h, []) \<and>
    ChooseSupportedVersion [Version38, Version39] (PublicHeader.SupportedVersions h) = Version39"
proof -
  have "(77 :: ConnectionID) \<noteq> 0" "\<forall>v \<in> set [VersionMP, Version39]. 0 \<le> v \<and> v < 1000"
    "(case filter (\<lambda>v. v \<in> set [VersionMP, Version39]) [Version38, Version39] of
       [] \<Rightarrow> VersionUnsupported | v # _ \<Rightarrow> v) = Version39"
    by (simp_all add: version_defs)
  with version_negotiation_roundtrip [of 77 "[VersionMP, Version39]" VersionMP "[Version38, Version39]"]
  show ?thesis by metis
qed

end
