(* ===== verification/FrameCodec.thy ===== *)
theory FrameCodec
  imports Prelude
begin

text \<open>
  The interface of a frame type (\<^verbatim>\<open>internal/wire/frame.go\<close>: \<^verbatim>\<open>Write\<close> and \<^verbatim>\<open>MinLength\<close>) together with its
  parser. \<open>wf f r\<close> says when \<open>f\<close> can be sent before the bytes \<open>r\<close> of the same packet, \<open>recv f\<close> is what
  the peer receives for \<open>f\<close>, \<open>len f\<close> the number of bytes on the wire. The frames of a packet are written
  one after the other (\<^verbatim>\<open>packet_packer.go\<close>) and read back until the packet is empty
  (\<^verbatim>\<open>packet_unpacker.go\<close>).
\<close>

text \<open>The loop over the payload frames in \<^verbatim>\<open>writeAndSealPacket\<close>.\<close>

fun writeFrames :: "('f \<Rightarrow> error + byte list) \<Rightarrow> 'f list \<Rightarrow> error + byte list" where
  "writeFrames wr [] = Inr []"
| "writeFrames wr (f # fs) = bind_r (wr f) (\<lambda>bs. bind_r (writeFrames wr fs) (\<lambda>rest. Inr (bs @ rest)))"

locale frame_codec =
  fixes wr :: "'f \<Rightarrow> error + byte list" and parse :: "'f parser" and len :: "'f \<Rightarrow> nat"
    and wf :: "'f \<Rightarrow> byte list \<Rightarrow> bool" and recv :: "'f \<Rightarrow> 'f"
  assumes written: "wf f r \<Longrightarrow> \<exists>bs. wr f = Inr bs \<and> length bs = len f \<and> parse (bs @ r) = Inr (recv f, r)"
    and taken: "parse s = Inr (f, r) \<Longrightarrow> \<exists>pre. pre \<noteq> [] \<and> s = pre @ r"
begin

lemma progress: "parse s = Inr (f, r) \<Longrightarrow> length r < length s"
  using taken by fastforce

lemma written_nonempty:
  assumes "wf f r" "wr f = Inr bs"
  shows "bs \<noteq> []"
proof
  assume "bs = []"
  with written [OF assms(1)] assms(2) have "parse r = Inr (recv f, r)" by auto
  from progress [OF this] show False by simp
qed

lemma written_inj:
  assumes "wf f r" "wf g r" "wr f = wr g"
  shows "recv f = recv g"
proof -
  from written [OF assms(1)] written [OF assms(2)] assms(3)
  obtain bs where "parse (bs @ r) = Inr (recv f, r)" "parse (bs @ r) = Inr (recv g, r)" by auto
  then show ?thesis by simp
qed

end

text \<open>
  A frame type whose frames can be told from padding. Only the last frame of a packet may depend on being
  last: \<open>wf f [0]\<close> means that \<open>f\<close> can be followed by anything.
\<close>

locale payload_codec = frame_codec +
  fixes unpack :: "byte list \<Rightarrow> error + 'a list"
  assumes unpack_nil: "unpack [] = Inr []"
    and unpack_padding: "unpack (0 # s) = unpack s"
    and unpack_frame: "parse s = Inr (f, r) \<Longrightarrow> s = b # t \<Longrightarrow> b \<noteq> 0 \<Longrightarrow> unpack s = bind_r (unpack r) (\<lambda>fs. Inr (f # fs))"
    and first_byte: "wf f r \<Longrightarrow> wr f = Inr (b # bs) \<Longrightarrow> b \<noteq> 0"
    and wf_any: "wf f r \<Longrightarrow> r \<noteq> [] \<Longrightarrow> wf f r'"
begin

lemma unpack_written:
  assumes "wf f r" "wr f = Inr bs"
  shows "unpack (bs @ r) = bind_r (unpack r) (\<lambda>fs. Inr (recv f # fs))"
proof -
  obtain b bs' where bs: "bs = b # bs'" using written_nonempty [OF assms] by (cases bs) auto
  have "parse (bs @ r) = Inr (recv f, r)" using written [OF assms(1)] assms(2) by auto
  moreover have "b \<noteq> 0" using first_byte [OF assms(1)] assms(2) bs by simp
  ultimately show ?thesis using bs by (auto intro: unpack_frame)
qed

lemma unpack_replicate: "unpack (replicate n 0) = Inr []"
  by (induction n) (simp_all add: unpack_nil unpack_padding)

lemma payload_before:
  assumes "\<forall>f \<in> set fs. wf f [0]"
  shows "\<exists>bs. writeFrames wr fs = Inr bs \<and> length bs = sum_list (map len fs) \<and>
    (\<forall>r. unpack (bs @ r) = bind_r (unpack r) (\<lambda>gs. Inr (map recv fs @ gs)))"
  using assms
proof (induction fs)
  case Nil
  then show ?case by (auto simp: bind_r_def split: sum.splits)
next
  case (Cons f fs)
  then have wf: "wf f r" for r using wf_any [of f "[0]"] by simp
  from written [OF wf] obtain bs where bs: "wr f = Inr bs" "length bs = len f" by blast
  from Cons obtain bs' where "writeFrames wr fs = Inr bs'" "length bs' = sum_list (map len fs)"
    "\<And>r. unpack (bs' @ r) = bind_r (unpack r) (\<lambda>gs. Inr (map recv fs @ gs))" by auto
  with bs show ?case by (auto simp: unpack_written [OF wf] bind_r_def split: sum.splits)
qed

lemma payload_padded:
  assumes "\<forall>f \<in> set fs. wf f [0]"
  shows "\<exists>bs. writeFrames wr fs = Inr bs \<and> length bs = sum_list (map len fs) \<and>
    (\<forall>n. unpack (bs @ replicate n 0) = Inr (map recv fs))"
  using payload_before [OF assms] by (auto simp: unpack_replicate)

lemma writeFrames_append:
  "writeFrames wr (fs @ gs) = bind_r (writeFrames wr fs) (\<lambda>bs. bind_r (writeFrames wr gs) (\<lambda>cs. Inr (bs @ cs)))"
  by (induction fs) (auto simp: bind_r_def split: sum.splits)

lemma payload_unpack:
  assumes "\<forall>f \<in> set fs. wf f [0]" "wf l []"
  shows "\<exists>bs. writeFrames wr (fs @ [l]) = Inr bs \<and> length bs = sum_list (map len (fs @ [l])) \<and>
    unpack bs = Inr (map recv (fs @ [l]))"
proof -
  from written [OF assms(2)] obtain cs where cs: "wr l = Inr cs" "length cs = len l" by blast
  with unpack_written [OF assms(2) cs(1)] have "unpack cs = Inr [recv l]" by (simp add: unpack_nil)
  then show ?thesis using payload_before [OF assms(1)] cs by (auto simp: writeFrames_append)
qed

end

end
