(* ===== verification/ControlFrames.thy ===== *)
theory ControlFrames
  imports FrameCodec AckRanges PublicHeader
begin

text \<open>
  The control frames of \<^verbatim>\<open>internal/wire\<close>: BLOCKED, WINDOW_UPDATE, RST_STREAM, GOAWAY,
  CONNECTION_CLOSE, PING, STOP_WAITING and ADD_ADDRESS. Each type is an instance of the frame
  interface: it is written in \<^verbatim>\<open>MinLength\<close> bytes and parses back. Go strings are byte sequences.
\<close>

section \<open>BLOCKED, WINDOW_UPDATE, RST_STREAM and PING\<close>

record BlockedFrame =
  StreamID :: StreamID

definition BlockedFrame_Write :: "VersionNumber \<Rightarrow> BlockedFrame \<Rightarrow> error + byte list" where
  "BlockedFrame_Write version f =
     Inr (0x05 # WriteUint32 (GetByteOrder version) (BlockedFrame.StreamID f))"

definition BlockedFrame_MinLength :: "BlockedFrame \<Rightarrow> ByteCount" where
  "BlockedFrame_MinLength f = 1 + 4"

definition ParseBlockedFrame :: "VersionNumber \<Rightarrow> BlockedFrame parser" where
  "ParseBlockedFrame version =
     bind_p ReadByte (\<lambda>_.
     bind_p (ReadUint32 (GetByteOrder version)) (\<lambda>sid.
     return_p \<lparr>BlockedFrame.StreamID = sid\<rparr>))"

record WindowUpdateFrame =
  StreamID :: StreamID
  ByteOffset :: ByteCount

definition WindowUpdateFrame_Write :: "VersionNumber \<Rightarrow> WindowUpdateFrame \<Rightarrow> error + byte list" where
  "WindowUpdateFrame_Write version f =
     Inr (0x04 # WriteUint32 (GetByteOrder version) (WindowUpdateFrame.StreamID f) @
       WriteUint64 (GetByteOrder version) (WindowUpdateFrame.ByteOffset f))"

definition WindowUpdateFrame_MinLength :: "WindowUpdateFrame \<Rightarrow> ByteCount" where
  "WindowUpdateFrame_MinLength f = 1 + 4 + 8"

definition ParseWindowUpdateFrame :: "VersionNumber \<Rightarrow> WindowUpdateFrame parser" where
  "ParseWindowUpdateFrame version =
     bind_p ReadByte (\<lambda>_.
     bind_p (ReadUint32 (GetByteOrder version)) (\<lambda>sid.
     bind_p (ReadUint64 (GetByteOrder version)) (\<lambda>byteOffset.
     return_p \<lparr>WindowUpdateFrame.StreamID = sid, ByteOffset = byteOffset\<rparr>)))"

record RstStreamFrame =
  StreamID :: StreamID
  ErrorCode :: u32
  ByteOffset :: ByteCount

definition RstStreamFrame_Write :: "VersionNumber \<Rightarrow> RstStreamFrame \<Rightarrow> error + byte list" where
  "RstStreamFrame_Write version f =
     Inr (0x01 # WriteUint32 (GetByteOrder version) (RstStreamFrame.StreamID f) @
       WriteUint64 (GetByteOrder version) (RstStreamFrame.ByteOffset f) @
       WriteUint32 (GetByteOrder version) (RstStreamFrame.ErrorCode f))"

definition RstStreamFrame_MinLength :: "RstStreamFrame \<Rightarrow> ByteCount" where
  "RstStreamFrame_MinLength f = 1 + 4 + 8 + 4"

definition ParseRstStreamFrame :: "VersionNumber \<Rightarrow> RstStreamFrame parser" where
  "ParseRstStreamFrame version =
     bind_p ReadByte (\<lambda>_.
     bind_p (ReadUint32 (GetByteOrder version)) (\<lambda>sid.
     bind_p (ReadUint64 (GetByteOrder version)) (\<lambda>byteOffset.
     bind_p (ReadUint32 (GetByteOrder version)) (\<lambda>errorCode.
     return_p \<lparr>RstStreamFrame.StreamID = sid, ErrorCode = errorCode, ByteOffset = byteOffset\<rparr>))))"

datatype PingFrame = PingFrame

definition PingFrame_Write :: "VersionNumber \<Rightarrow> PingFrame \<Rightarrow> error + byte list" where
  "PingFrame_Write version f = Inr [0x07]"

definition PingFrame_MinLength :: "PingFrame \<Rightarrow> ByteCount" where
  "PingFrame_MinLength f = 1"

definition ParsePingFrame :: "VersionNumber \<Rightarrow> PingFrame parser" where
  "ParsePingFrame version = bind_p ReadByte (\<lambda>_. return_p PingFrame)"

section \<open>GOAWAY and CONNECTION_CLOSE\<close>

record GoawayFrame =
  ErrorCode :: ErrorCode
  LastGoodStream :: StreamID
  ReasonPhrase :: "byte list"

definition ParseGoawayFrame :: "VersionNumber \<Rightarrow> GoawayFrame parser" where
  "ParseGoawayFrame version =
     (let bo = GetByteOrder version in
      bind_p ReadByte (\<lambda>_.
      bind_p (ReadUint32 bo) (\<lambda>errorCode.
      bind_p (ReadUint32 bo) (\<lambda>lastGoodStream.
      bind_p (ReadUint16 bo) (\<lambda>reasonPhraseLen.
        if reasonPhraseLen > ucast MaxPacketSize
        then fail_p (QuicError InvalidGoawayData ''reason phrase too long'')
        else
      bind_p (ReadFull (unat reasonPhraseLen)) (\<lambda>reasonPhrase.
      return_p \<lparr>GoawayFrame.ErrorCode = errorCode, LastGoodStream = lastGoodStream,
        ReasonPhrase = reasonPhrase\<rparr>))))))"

definition GoawayFrame_Write :: "VersionNumber \<Rightarrow> GoawayFrame \<Rightarrow> error + byte list" where
  "GoawayFrame_Write version f =
     (let bo = GetByteOrder version in
      Inr (0x03 # WriteUint32 bo (GoawayFrame.ErrorCode f) @ WriteUint32 bo (LastGoodStream f) @
        WriteUint16 bo (of_nat (length (GoawayFrame.ReasonPhrase f))) @ GoawayFrame.ReasonPhrase f))"

definition GoawayFrame_MinLength :: "GoawayFrame \<Rightarrow> ByteCount" where
  "GoawayFrame_MinLength f = of_nat (1 + 4 + 4 + 2 + length (GoawayFrame.ReasonPhrase f))"

record ConnectionCloseFrame =
  ErrorCode :: ErrorCode
  ReasonPhrase :: "byte list"

definition ParseConnectionCloseFrame :: "VersionNumber \<Rightarrow> ConnectionCloseFrame parser" where
  "ParseConnectionCloseFrame version =
     (let bo = GetByteOrder version in
      bind_p ReadByte (\<lambda>_.
      bind_p (ReadUint32 bo) (\<lambda>errorCode.
      bind_p (ReadUint16 bo) (\<lambda>reasonPhraseLen.
        if reasonPhraseLen > ucast MaxPacketSize
        then fail_p (QuicError InvalidConnectionCloseData ''reason phrase too long'')
        else
      bind_p (ReadFull (unat reasonPhraseLen)) (\<lambda>reasonPhrase.
      return_p \<lparr>ConnectionCloseFrame.ErrorCode = errorCode, ReasonPhrase = reasonPhrase\<rparr>)))))"

definition ConnectionCloseFrame_MinLength :: "ConnectionCloseFrame \<Rightarrow> ByteCount" where
  "ConnectionCloseFrame_MinLength f = 1 + 4 + 2 + of_nat (length (ConnectionCloseFrame.ReasonPhrase f))"

definition ConnectionCloseFrame_Write :: "VersionNumber \<Rightarrow> ConnectionCloseFrame \<Rightarrow> error + byte list" where
  "ConnectionCloseFrame_Write version f =
     (let bo = GetByteOrder version in
      if length (ConnectionCloseFrame.ReasonPhrase f) > 65535
      then Inl (ErrNew ''ConnectionFrame: ReasonPhrase too long'')
      else Inr (0x02 # WriteUint32 bo (ConnectionCloseFrame.ErrorCode f) @
        WriteUint16 bo (of_nat (length (ConnectionCloseFrame.ReasonPhrase f))) @ ConnectionCloseFrame.ReasonPhrase f))"

section \<open>STOP_WAITING\<close>

record StopWaitingFrame =
  LeastUnacked :: PacketNumber
  PacketNumberLen :: PacketNumberLen
  PacketNumber :: PacketNumber

definition errLeastUnackedHigherThanPacketNumber :: error where
  "errLeastUnackedHigherThanPacketNumber = ErrNew ''StopWaitingFrame: LeastUnacked can't be greater than the packet number''"
definition errPacketNumberNotSet :: error where
  "errPacketNumberNotSet = ErrNew ''StopWaitingFrame: PacketNumber not set''"

definition writeLeastUnackedDelta :: "ByteOrder \<Rightarrow> PacketNumberLen \<Rightarrow> u64 \<Rightarrow> error + byte list" where
  "writeLeastUnackedDelta bo len leastUnackedDelta =
     (if len = PacketNumberLen1 then Inr [ucast leastUnackedDelta]
      else if len = PacketNumberLen2 then Inr (WriteUint16 bo (ucast leastUnackedDelta))
      else if len = PacketNumberLen4 then Inr (WriteUint32 bo (ucast leastUnackedDelta))
      else if len = PacketNumberLen6 then maskedUint48 bo leastUnackedDelta
      else Inl errPacketNumberLenNotSet)"

definition StopWaitingFrame_Write :: "VersionNumber \<Rightarrow> StopWaitingFrame \<Rightarrow> error + byte list" where
  "StopWaitingFrame_Write version f =
     (if StopWaitingFrame.PacketNumber f = 0 then Inl errPacketNumberNotSet
      else if LeastUnacked f > StopWaitingFrame.PacketNumber f then Inl errLeastUnackedHigherThanPacketNumber
      else bind_r (writeLeastUnackedDelta (GetByteOrder version) (StopWaitingFrame.PacketNumberLen f)
                     (StopWaitingFrame.PacketNumber f - LeastUnacked f)) (\<lambda>bs. Inr (0x06 # bs)))"

definition StopWaitingFrame_MinLength :: "StopWaitingFrame \<Rightarrow> error + ByteCount" where
  "StopWaitingFrame_MinLength f =
     (if StopWaitingFrame.PacketNumberLen f = PacketNumberLenInvalid then Inl errPacketNumberLenNotSet
      else Inr (1 + ucast (StopWaitingFrame.PacketNumberLen f)))"

definition ParseStopWaitingFrame ::
    "PacketNumber \<Rightarrow> PacketNumberLen \<Rightarrow> VersionNumber \<Rightarrow> StopWaitingFrame parser" where
  "ParseStopWaitingFrame packetNumber packetNumberLen version =
     bind_p ReadByte (\<lambda>_.
     bind_p (ReadUintN (GetByteOrder version) packetNumberLen) (\<lambda>leastUnackedDelta.
       if leastUnackedDelta \<ge> packetNumber
       then fail_p (QuicError InvalidStopWaitingData ''invalid LeastUnackedDelta'')
       else return_p \<lparr>LeastUnacked = packetNumber - leastUnackedDelta,
              StopWaitingFrame.PacketNumberLen = 0, PacketNumber = 0\<rparr>))"

section \<open>ADD_ADDRESS\<close>

text \<open>
  A \<^verbatim>\<open>net.IP\<close> is a byte slice; \<^verbatim>\<open>net.IPv4\<close> makes the 16-byte form of an IPv4 address, \<^verbatim>\<open>To4\<close> and \<^verbatim>\<open>To16\<close>
  convert, and return nil if they cannot.
\<close>

type_synonym IP = "byte list"

definition IPv4 :: "byte \<Rightarrow> byte \<Rightarrow> byte \<Rightarrow> byte \<Rightarrow> IP" where
  "IPv4 a b c d = replicate 10 0 @ [0xff, 0xff, a, b, c, d]"

definition To4 :: "IP \<Rightarrow> IP option" where
  "To4 ip =
     (if length ip = 4 then Some ip
      else if length ip = 16 \<and> take 10 ip = replicate 10 0 \<and> ip ! 10 = 0xff \<and> ip ! 11 = 0xff
      then Some (drop 12 ip)
      else None)"

definition To16 :: "IP \<Rightarrow> IP option" where
  "To16 ip =
     (if length ip = 4 then Some (IPv4 (ip ! 0) (ip ! 1) (ip ! 2) (ip ! 3))
      else if length ip = 16 then Some ip
      else None)"

record UDPAddr =
  IP :: IP
  Port :: int

record AddAddressFrame =
  IPVersion :: byte
  Addr :: UDPAddr

definition ErrUnknownIPVersion :: error where
  "ErrUnknownIPVersion = ErrNew ''AddAddressFrame: unknown IP version''"
definition errInconsistentAddrIPVersion :: error where
  "errInconsistentAddrIPVersion = ErrNew ''internal inconsistency: Addr does not match IP version''"

definition AddAddressFrame_Write :: "VersionNumber \<Rightarrow> AddAddressFrame \<Rightarrow> error + byte list" where
  "AddAddressFrame_Write version f =
     (let port = WriteUint16 (GetByteOrder version) (word_of_int (Port (Addr f))) in
      if IPVersion f = 4 then
        (case To4 (IP (Addr f)) of
           None \<Rightarrow> Inl errInconsistentAddrIPVersion
         | Some ip \<Rightarrow> Inr ([0x10, IPVersion f] @ take 4 ip @ port))
      else if IPVersion f = 6 then
        (case To16 (IP (Addr f)) of
           None \<Rightarrow> Inl errInconsistentAddrIPVersion
         | Some ip \<Rightarrow> Inr ([0x10, IPVersion f] @ take 16 ip @ port))
      else Inl ErrUnknownIPVersion)"

fun readBytes :: "nat \<Rightarrow> byte list parser" where
  "readBytes 0 = return_p []"
| "readBytes (Suc n) = bind_p ReadByte (\<lambda>b. bind_p (readBytes n) (\<lambda>bs. return_p (b # bs)))"

definition ParseAddAddressFrame :: "VersionNumber \<Rightarrow> AddAddressFrame parser" where
  "ParseAddAddressFrame version =
     bind_p ReadByte (\<lambda>_.
     bind_p ReadByte (\<lambda>ipv.
     bind_p (if ipv = 4 then
               bind_p ReadByte (\<lambda>a. bind_p ReadByte (\<lambda>b. bind_p ReadByte (\<lambda>c. bind_p ReadByte (\<lambda>d.
                 return_p (IPv4 a b c d)))))
             else if ipv = 6 then readBytes 16
             else fail_p ErrUnknownIPVersion) (\<lambda>ip.
     bind_p (ReadUint16 (GetByteOrder version)) (\<lambda>port.
     return_p \<lparr>IPVersion = ipv, Addr = \<lparr>IP = ip, Port = uint port\<rparr>\<rparr>))))"

definition AddAddressFrame_MinLength :: "AddAddressFrame \<Rightarrow> error + ByteCount" where
  "AddAddressFrame_MinLength f =
     (if IPVersion f = 4 then Inr (1 + 1 + 4 + 2)
      else if IPVersion f = 6 then Inr (1 + 1 + 16 + 2)
      else Inl ErrUnknownIPVersion)"

section \<open>The frames as codecs\<close>

lemmas [consumes_intros] = bo.consumes_readN

interpretation blocked: frame_codec "BlockedFrame_Write v" "ParseBlockedFrame v"
  "\<lambda>f. unat (BlockedFrame_MinLength f)" "\<lambda>f r. True" "\<lambda>f. f" for v
proof unfold_locales
  show "\<exists>bs. BlockedFrame_Write v f = Inr bs \<and> length bs = unat (BlockedFrame_MinLength f) \<and> ParseBlockedFrame v (bs @ r) = Inr (f, r)" for f r
    by (cases f) (simp add: BlockedFrame_Write_def ParseBlockedFrame_def BlockedFrame_MinLength_def bind_p_apply)
  show "\<exists>pre. pre \<noteq> [] \<and> s = pre @ r" if "ParseBlockedFrame v s = Inr (f, r)" for s f r
    using that unfolding ParseBlockedFrame_def by (rule first_byte_taken) (intro consumes_intros)
qed

interpretation window_update: frame_codec "WindowUpdateFrame_Write v" "ParseWindowUpdateFrame v"
  "\<lambda>f. unat (WindowUpdateFrame_MinLength f)" "\<lambda>f r. True" "\<lambda>f. f" for v
proof unfold_locales
  show "\<exists>bs. WindowUpdateFrame_Write v f = Inr bs \<and> length bs = unat (WindowUpdateFrame_MinLength f) \<and> ParseWindowUpdateFrame v (bs @ r) = Inr (f, r)" for f r
    by (cases f) (simp add: WindowUpdateFrame_Write_def ParseWindowUpdateFrame_def WindowUpdateFrame_MinLength_def bind_p_apply)
  show "\<exists>pre. pre \<noteq> [] \<and> s = pre @ r" if "ParseWindowUpdateFrame v s = Inr (f, r)" for s f r
    using that unfolding ParseWindowUpdateFrame_def by (rule first_byte_taken) (intro consumes_intros)
qed

interpretation rst_stream: frame_codec "RstStreamFrame_Write v" "ParseRstStreamFrame v"
  "\<lambda>f. unat (RstStreamFrame_MinLength f)" "\<lambda>f r. True" "\<lambda>f. f" for v
proof unfold_locales
  show "\<exists>bs. RstStreamFrame_Write v f = Inr bs \<and> length bs = unat (RstStreamFrame_MinLength f) \<and> ParseRstStreamFrame v (bs @ r) = Inr (f, r)" for f r
    by (cases f) (simp add: RstStreamFrame_Write_def ParseRstStreamFrame_def RstStreamFrame_MinLength_def bind_p_apply)
  show "\<exists>pre. pre \<noteq> [] \<and> s = pre @ r" if "ParseRstStreamFrame v s = Inr (f, r)" for s f r
    using that unfolding ParseRstStreamFrame_def by (rule first_byte_taken) (intro consumes_intros)
qed

interpretation ping: frame_codec "PingFrame_Write v" "ParsePingFrame v"
  "\<lambda>f. unat (PingFrame_MinLength f)" "\<lambda>f r. True" "\<lambda>f. f" for v
proof unfold_locales
  show "\<exists>bs. PingFrame_Write v f = Inr bs \<and> length bs = unat (PingFrame_MinLength f) \<and> ParsePingFrame v (bs @ r) = Inr (f, r)" for f r
    by (cases f) (simp add: PingFrame_Write_def ParsePingFrame_def PingFrame_MinLength_def bind_p_apply)
  show "\<exists>pre. pre \<noteq> [] \<and> s = pre @ r" if "ParsePingFrame v s = Inr (f, r)" for s f r
    using that unfolding ParsePingFrame_def by (rule first_byte_taken) (intro consumes_intros)
qed

text \<open>A reason phrase of at most \<^verbatim>\<open>MaxPacketSize\<close> bytes can be sent.\<close>

lemma phrase_length:
  assumes "length p \<le> unat MaxPacketSize"
  shows "unat (of_nat (length p) :: u16) = length p" "\<not> of_nat (length p) > (ucast MaxPacketSize :: u16)"
    "unat (of_nat (length p) :: u64) = length p" "length p \<le> 1350"
  using assms
  by (simp_all add: unat_of_nat MaxPacketSize_def word_less_nat_alt)

interpretation goaway: frame_codec "GoawayFrame_Write v" "ParseGoawayFrame v"
  "\<lambda>f. unat (GoawayFrame_MinLength f)"
  "\<lambda>f r. length (GoawayFrame.ReasonPhrase f) \<le> unat MaxPacketSize" "\<lambda>f. f" for v
proof unfold_locales
  show "\<exists>bs. GoawayFrame_Write v f = Inr bs \<and> length bs = unat (GoawayFrame_MinLength f) \<and>
      ParseGoawayFrame v (bs @ r) = Inr (f, r)"
    if "length (GoawayFrame.ReasonPhrase f) \<le> unat MaxPacketSize" for f r
    using phrase_length [OF that]
    by (cases f) (simp add: GoawayFrame_Write_def ParseGoawayFrame_def GoawayFrame_MinLength_def bind_p_apply
      Let_def unat_add_noov)
  show "\<exists>pre. pre \<noteq> [] \<and> s = pre @ r" if "ParseGoawayFrame v s = Inr (f, r)" for s f r
    using that unfolding ParseGoawayFrame_def Let_def by (rule first_byte_taken) (intro consumes_intros)
qed

interpretation connection_close: frame_codec "ConnectionCloseFrame_Write v" "ParseConnectionCloseFrame v"
  "\<lambda>f. unat (ConnectionCloseFrame_MinLength f)"
  "\<lambda>f r. length (ConnectionCloseFrame.ReasonPhrase f) \<le> unat MaxPacketSize" "\<lambda>f. f" for v
proof unfold_locales
  show "\<exists>bs. ConnectionCloseFrame_Write v f = Inr bs \<and> length bs = unat (ConnectionCloseFrame_MinLength f) \<and>
      ParseConnectionCloseFrame v (bs @ r) = Inr (f, r)"
    if "length (ConnectionCloseFrame.ReasonPhrase f) \<le> unat MaxPacketSize" for f r
    using phrase_length [OF that]
    by (cases f) (simp add: ConnectionCloseFrame_Write_def ParseConnectionCloseFrame_def
      ConnectionCloseFrame_MinLength_def bind_p_apply Let_def unat_add_noov)
  show "\<exists>pre. pre \<noteq> [] \<and> s = pre @ r" if "ParseConnectionCloseFrame v s = Inr (f, r)" for s f r
    using that unfolding ParseConnectionCloseFrame_def Let_def by (rule first_byte_taken) (intro consumes_intros)
qed

subsection \<open>STOP_WAITING\<close>

text \<open>
  A STOP_WAITING frame goes into the packet \<open>pn\<close>, whose number the receiver knows from the header.
\<close>

definition wf_StopWaiting :: "PacketNumber \<Rightarrow> PacketNumberLen \<Rightarrow> StopWaitingFrame \<Rightarrow> bool" where
  "wf_StopWaiting pn len f \<longleftrightarrow> StopWaitingFrame.PacketNumber f = pn \<and> StopWaitingFrame.PacketNumberLen f = len \<and>
     len \<in> number_lens \<and> 1 \<le> LeastUnacked f \<and> LeastUnacked f \<le> pn \<and>
     unat (pn - LeastUnacked f) < 2 ^ (8 * unat len)"

definition receivedStopWaiting :: "StopWaitingFrame \<Rightarrow> StopWaitingFrame" where
  "receivedStopWaiting f = \<lparr>LeastUnacked = LeastUnacked f, StopWaitingFrame.PacketNumberLen = 0, PacketNumber = 0\<rparr>"

definition StopWaitingFrame_length :: "StopWaitingFrame \<Rightarrow> nat" where
  "StopWaitingFrame_length f = (case StopWaitingFrame_MinLength f of Inl e \<Rightarrow> 0 | Inr n \<Rightarrow> unat n)"

lemma writeLeastUnackedDelta_switch:
  "len \<in> number_lens \<Longrightarrow> writeLeastUnackedDelta bo len d = writeBySwitch bo (maskedUint48 bo) len d"
  by (auto simp: number_lens_def writeLeastUnackedDelta_def writeBySwitch_def)

text \<open>Only the bits that fit the length are written.\<close>

lemma writeLeastUnackedDelta_low:
  assumes "len \<in> number_lens"
  shows "writeLeastUnackedDelta bo len (take_bit (8 * unat len) d) = writeLeastUnackedDelta bo len d"
proof -
  have low: "(ucast (take_bit n d) :: 'a::len word) = ucast d" if "LENGTH('a) \<le> n" for n
    using that by (intro bit_word_eqI) (auto simp: bit_simps)
  have "x AND (push_bit 48 1 - 1) = take_bit 48 x" for x :: u64
    by (simp add: take_bit_eq_mask mask_eq_exp_minus_1)
  then have "maskedUint48 bo (take_bit 48 d) = maskedUint48 bo d" unfolding maskedUint48_def by simp
  then show ?thesis
    using assms by (auto simp: number_lens_def writeLeastUnackedDelta_def low)
qed

lemma number_lens_length: "len \<in> number_lens \<Longrightarrow> len \<noteq> 0 \<and> unat (1 + ucast len :: u64) = Suc (unat len)"
  by (auto simp: number_lens_def)

lemma StopWaitingFrame_written:
  assumes "wf_StopWaiting pn len f"
  shows "\<exists>bs. StopWaitingFrame_Write v f = Inr bs \<and> length bs = StopWaitingFrame_length f \<and>
    ParseStopWaitingFrame pn len v (bs @ r) = Inr (receivedStopWaiting f, r)"
proof -
  let ?d = "pn - LeastUnacked f" and ?bo = "GetByteOrder v"
  have f: "StopWaitingFrame.PacketNumber f = pn" "StopWaitingFrame.PacketNumberLen f = len" "len \<in> number_lens"
    "LeastUnacked f \<le> pn" and one: "1 \<le> LeastUnacked f" and fits: "unat ?d < 2 ^ (8 * unat len)"
    using assms by (auto simp: wf_StopWaiting_def)
  obtain bs where bs: "writeLeastUnackedDelta ?bo len ?d = Inr bs" "length bs = unat len"
    "ReadUintN ?bo len (bs @ r) = Inr (?d, r)"
    using writeBySwitch_read [OF f(3) fits, of "maskedUint48 ?bo" ?bo] maskedUint48_small [of ?d ?bo]
    unfolding writeLeastUnackedDelta_switch [OF f(3)] by blast
  have pn: "unat pn = unat ?d + unat (LeastUnacked f)" using f(4) by (simp add: unat_sub word_le_nat_alt)
  have "pn \<noteq> 0" "\<not> pn \<le> ?d" using pn one by (auto simp: word_le_nat_alt)
  with bs f show ?thesis
    by (simp add: StopWaitingFrame_Write_def ParseStopWaitingFrame_def StopWaitingFrame_length_def
      StopWaitingFrame_MinLength_def receivedStopWaiting_def bind_p_apply number_lens_length)
qed

interpretation stop_waiting: frame_codec "StopWaitingFrame_Write v" "ParseStopWaitingFrame pn len v"
  StopWaitingFrame_length "\<lambda>f r. wf_StopWaiting pn len f" receivedStopWaiting for v pn len
proof unfold_locales
  show "\<exists>pre. pre \<noteq> [] \<and> s = pre @ r" if "ParseStopWaitingFrame pn len v s = Inr (f, r)" for s f r
    using that unfolding ParseStopWaitingFrame_def by (rule first_byte_taken) (intro consumes_intros)
qed (rule StopWaitingFrame_written)

subsection \<open>ADD_ADDRESS\<close>

text \<open>The receiver gets the 16-byte form of the address.\<close>

definition wf_AddAddress :: "AddAddressFrame \<Rightarrow> bool" where
  "wf_AddAddress f \<longleftrightarrow> (IPVersion f = 4 \<and> To4 (IP (Addr f)) \<noteq> None \<or> IPVersion f = 6 \<and> To16 (IP (Addr f)) \<noteq> None) \<and>
     0 \<le> Port (Addr f) \<and> Port (Addr f) < 65536"

definition receivedAddAddress :: "AddAddressFrame \<Rightarrow> AddAddressFrame" where
  "receivedAddAddress f = f\<lparr>Addr := (Addr f)\<lparr>IP := the (To16 (IP (Addr f)))\<rparr>\<rparr>"

definition AddAddressFrame_length :: "AddAddressFrame \<Rightarrow> nat" where
  "AddAddressFrame_length f = (case AddAddressFrame_MinLength f of Inl e \<Rightarrow> 0 | Inr n \<Rightarrow> unat n)"

lemma readBytes_append: "length bs = n \<Longrightarrow> readBytes n (bs @ r) = Inr (bs, r)"
  by (induction n arbitrary: bs) (auto simp: bind_p_apply length_Suc_conv)

lemma consumes_readBytes [consumes_intros]: "consumes (readBytes n)"
  by (induction n) (simp_all only: readBytes.simps, (intro consumes_intros | assumption)+)

lemma To4_form:
  assumes "To4 ip = Some x"
  obtains a b c d where "x = [a, b, c, d]" "To16 ip = Some (IPv4 a b c d)"
proof (cases "length ip = 4")
  case True
  then obtain a b c d where "ip = [a, b, c, d]" by (auto simp: length_Suc_conv eval_nat_numeral)
  then show ?thesis using assms by (intro that [of a b c d]) (auto simp: To4_def To16_def)
next
  case False
  then have ip: "length ip = 16" "take 10 ip = replicate 10 0" "ip ! 10 = 0xff" "ip ! 11 = 0xff" "x = drop 12 ip"
    using assms by (auto simp: To4_def split: if_splits)
  have "length x = 4" using ip by simp
  then obtain a b c d where x: "x = [a, b, c, d]" by (auto simp: length_Suc_conv eval_nat_numeral)
  have "ip = take 10 ip @ ip ! 10 # ip ! 11 # drop 12 ip"
    using ip(1) Cons_nth_drop_Suc [of 10 ip] Cons_nth_drop_Suc [of 11 ip] by simp
  then have "ip = IPv4 a b c d" using ip(2-5) x by (simp add: IPv4_def)
  then show ?thesis using x ip(1) by (intro that [of a b c d]) (simp_all add: To16_def)
qed

lemma To16_length: "To16 ip = Some x \<Longrightarrow> length x = 16"
  by (auto simp: To16_def IPv4_def split: if_splits)

lemma AddAddressFrame_written:
  assumes "wf_AddAddress f"
  shows "\<exists>bs. AddAddressFrame_Write v f = Inr bs \<and> length bs = AddAddressFrame_length f \<and>
    ParseAddAddressFrame v (bs @ r) = Inr (receivedAddAddress f, r)"
proof -
  have port: "uint (word_of_int (Port (Addr f)) :: u16) = Port (Addr f)"
    using assms by (simp add: wf_AddAddress_def unsigned_of_int take_bit_int_eq_self)
  note defs = AddAddressFrame_Write_def AddAddressFrame_length_def AddAddressFrame_MinLength_def
    ParseAddAddressFrame_def receivedAddAddress_def bind_p_apply
  consider x where "IPVersion f = 4" "To4 (IP (Addr f)) = Some x" | x where "IPVersion f = 6" "To16 (IP (Addr f)) = Some x"
    using assms by (auto simp: wf_AddAddress_def)
  then show ?thesis
  proof cases
    case 1
    from 1(2) obtain a b c d where "x = [a, b, c, d]" "To16 (IP (Addr f)) = Some (IPv4 a b c d)" by (rule To4_form)
    with 1 show ?thesis by (simp add: defs port)
  next
    case 2
    with To16_length [OF 2(2)] show ?thesis by (simp add: defs port readBytes_append)
  qed
qed

interpretation add_address: frame_codec "AddAddressFrame_Write v" "ParseAddAddressFrame v"
  AddAddressFrame_length "\<lambda>f r. wf_AddAddress f" receivedAddAddress for v
proof unfold_locales
  show "\<exists>pre. pre \<noteq> [] \<and> s = pre @ r" if "ParseAddAddressFrame v s = Inr (f, r)" for s f r
    using that unfolding ParseAddAddressFrame_def by (rule first_byte_taken) (intro consumes_intros)
qed (rule AddAddressFrame_written)

section \<open>The properties\<close>

text \<open>The length chosen for one least unacknowledged packet has room for another one up to \<open>2 ^ 15\<close> before it.\<close>

lemma header_length_fits:
  assumes "least \<le> pn" "leastUnacked \<le> pn" "unat (pn - least) < 2 ^ 48" "unat leastUnacked \<le> unat least + 2 ^ 15"
  shows "unat (pn - least) < 2 ^ (8 * unat (GetPacketNumberLengthForPublicHeader pn leastUnacked))"
proof -
  have "unat (pn - least) \<le> unat (pn - leastUnacked) + 2 ^ 15" using assms by (simp add: unat_sub word_le_nat_alt)
  then show ?thesis using assms(3) unfolding GetPacketNumberLengthForPublicHeader_def
    by (auto simp: Let_def word_less_nat_alt)
qed

text \<open>
  C30. what a STOP_WAITING frame tells the peer. The packer chooses the length of the packet number \<^verbatim>\<open>pn\<close> from the least
  unacknowledged packet of the path (\<^verbatim>\<open>pth.leastUnacked\<close>, any value here), and the frame, which carries the value
  \<^verbatim>\<open>least\<close> of the stop waiting manager, is written with that length. It takes \<^verbatim>\<open>MinLength\<close> bytes, and the parser of
  the packet gets \<^verbatim>\<open>pn\<close> minus the part of the difference that fits the length. This is \<^verbatim>\<open>least\<close> exactly if the
  difference fits, and it does when the difference is below \<open>2 ^ 48\<close> and the path's value is ahead of the frame's by no more
  than \<open>2 ^ 15\<close> packets.
\<close>

theorem stop_waiting_roundtrip:
  assumes "1 \<le> least" "least \<le> pn" "leastUnacked \<le> pn"
    and "len = GetPacketNumberLengthForPublicHeader pn leastUnacked"
    and "f = \<lparr>LeastUnacked = least, StopWaitingFrame.PacketNumberLen = len, PacketNumber = pn\<rparr>"
  shows "\<exists>bs n. StopWaitingFrame_Write v f = Inr bs \<and> StopWaitingFrame_MinLength f = Inr n \<and> length bs = unat n \<and>
    (\<forall>r. \<exists>g. ParseStopWaitingFrame pn len v (bs @ r) = Inr (g, r) \<and>
       unat (LeastUnacked g) = unat pn - unat (pn - least) mod 2 ^ (8 * unat len) \<and>
       (LeastUnacked g = least \<longleftrightarrow> unat (pn - least) < 2 ^ (8 * unat len)) \<and>
       (unat (pn - least) < 2 ^ 48 \<and> unat leastUnacked \<le> unat least + 2 ^ 15 \<longrightarrow> LeastUnacked g = least))"
proof -
  define d where "d = pn - least"
  define g where "g = pn - take_bit (8 * unat len) d"
  let ?f = "f\<lparr>LeastUnacked := g\<rparr>"
  have lens: "len \<in> {2, 4, 6}" "len \<in> number_lens"
    unfolding assms(4) GetPacketNumberLengthForPublicHeader_def by (auto simp: Let_def number_lens_def)
  have d: "unat pn = unat d + unat least" using assms(2) by (simp add: d_def unat_sub word_le_nat_alt)
  have low: "unat (take_bit (8 * unat len) d) = unat d mod 2 ^ (8 * unat len)" by (rule unat_take_bit)
  have le: "unat d mod 2 ^ (8 * unat len) \<le> unat d" by simp
  have g: "unat g = unat pn - unat d mod 2 ^ (8 * unat len)"
    unfolding g_def low [symmetric] by (rule unat_sub) (simp add: word_le_nat_alt d low trans_le_add1)
  then have "g \<le> pn" "1 \<le> g" using d le assms(1) unfolding word_le_nat_alt by linarith+
  note g = g this
  have "pn - g = take_bit (8 * unat len) d" by (simp add: g_def)
  note g = g this
  have wf: "wf_StopWaiting pn len ?f" using g lens(2) low by (simp add: wf_StopWaiting_def assms(5))
  have same: "StopWaitingFrame_Write v ?f = StopWaitingFrame_Write v f"
    using writeLeastUnackedDelta_low [OF lens(2)] assms(2,5) g(2,4) by (auto simp: StopWaitingFrame_Write_def d_def [symmetric])
  have len: "StopWaitingFrame_MinLength f = Inr (1 + ucast len)" "StopWaitingFrame_length ?f = unat (1 + ucast len :: u64)"
    using lens(1) by (auto simp: StopWaitingFrame_MinLength_def StopWaitingFrame_length_def assms(5))
  obtain bs where bs: "StopWaitingFrame_Write v f = Inr bs" using StopWaitingFrame_written [OF wf, of v] same by auto
  have parse: "length bs = unat (1 + ucast len :: u64)" "ParseStopWaitingFrame pn len v (bs @ r) = Inr (receivedStopWaiting ?f, r)" for r
    using StopWaitingFrame_written [OF wf, of v r] by (auto simp: same bs len(2))
  have "unat g = unat least \<longleftrightarrow> unat d mod 2 ^ (8 * unat len) = unat d" using d g(1) le by linarith
  then have eq: "g = least \<longleftrightarrow> unat d < 2 ^ (8 * unat len)"
    by (simp add: word_unat_eq_iff) (metis mod_less mod_less_divisor zero_less_numeral zero_less_power)
  note fits = header_length_fits [OF assms(2,3), folded d_def assms(4)]
  show ?thesis unfolding d_def [symmetric] using bs len(1) parse g(1) eq fits
    by (intro exI [of _ bs] exI [of _ "1 + ucast len"] conjI allI exI [of _ "receivedStopWaiting ?f"])
      (simp_all add: receivedStopWaiting_def)
qed

text \<open>The path waits for packet 5 and the manager is at 10.\<close>

theorem stop_waiting_roundtrip_witness:
  "\<exists>bs. StopWaitingFrame_Write Version39
      \<lparr>LeastUnacked = 10, StopWaitingFrame.PacketNumberLen = PacketNumberLen4, PacketNumber = 100000\<rparr> = Inr bs \<and>
    (\<exists>g. ParseStopWaitingFrame 100000 PacketNumberLen4 Version39 (bs @ [1]) = Inr (g, [1]) \<and> LeastUnacked g = 10)"
proof -
  have "GetPacketNumberLengthForPublicHeader 100000 5 = PacketNumberLen4"
    by (simp add: GetPacketNumberLengthForPublicHeader_def)
  then show ?thesis using stop_waiting_roundtrip [of 10 100000 5, OF _ _ _ refl refl, of Version39] by fastforce
qed

text \<open>
  an advertised address arrives in its 16-byte form. An IPv4 address in either of its forms, or
  an IPv6 address, with a port number, is written in \<^verbatim>\<open>MinLength\<close> bytes, and the receiver gets the same
  IP version, the same port and the same address as \<^verbatim>\<open>To16\<close> of the address sent.
\<close>

theorem add_address_roundtrip:
  assumes "wf_AddAddress f"
  shows "\<exists>bs n. AddAddressFrame_Write v f = Inr bs \<and> AddAddressFrame_MinLength f = Inr n \<and> length bs = unat n \<and>
    (\<forall>r. \<exists>g. ParseAddAddressFrame v (bs @ r) = Inr (g, r) \<and> IPVersion g = IPVersion f \<and>
       Port (Addr g) = Port (Addr f) \<and> Some (IP (Addr g)) = To16 (IP (Addr f)))"
proof -
  have "To16 (IP (Addr f)) \<noteq> None" using assms unfolding wf_AddAddress_def by (metis To4_form not_None_eq)
  moreover obtain n where "AddAddressFrame_MinLength f = Inr n"
    using assms by (auto simp: wf_AddAddress_def AddAddressFrame_MinLength_def)
  moreover obtain bs where "AddAddressFrame_Write v f = Inr bs" using AddAddressFrame_written [OF assms] by blast
  ultimately show ?thesis
    using AddAddressFrame_written [OF assms, of v]
    by (fastforce simp: AddAddressFrame_length_def receivedAddAddress_def)
qed

theorem add_address_roundtrip_witness:
  "\<exists>bs g. AddAddressFrame_Write Version39
      \<lparr>IPVersion = 4, Addr = \<lparr>IP = [10, 0, 0, 1], Port = 6121\<rparr>\<rparr> = Inr bs \<and> length bs = 8 \<and>
    ParseAddAddressFrame Version39 bs = Inr (g, []) \<and> IP (Addr g) = IPv4 10 0 0 1"
proof -
  let ?f = "\<lparr>IPVersion = 4, Addr = \<lparr>IP = [10, 0, 0, 1], Port = 6121\<rparr>\<rparr>"
  have wf: "wf_AddAddress ?f" and "AddAddressFrame_MinLength ?f = Inr 8"
    by (simp_all add: wf_AddAddress_def To4_def AddAddressFrame_MinLength_def)
  moreover have "To16 [10, 0, 0, 1] = Some (IPv4 10 0 0 1)" by (simp add: To16_def)
  ultimately show ?thesis using add_address_roundtrip [OF wf, of Version39] by (fastforce dest: spec [where x = "[]"])
qed

end
