(* ===== verification/PathsFrame.thy ===== *)
theory PathsFrame
  imports ControlFrames AckFrame
begin

text \<open>
  The PATHS frame (\<^verbatim>\<open>internal/wire/paths_frame.go\<close>), which lists the paths with their round-trip times
  and, from the client, their IPv4 addresses and ports as text, and the parts of \<^verbatim>\<open>net\<close> and \<^verbatim>\<open>strconv\<close> (Go 1.9)
  that turn this text into numbers and back.
\<close>

section \<open>Decimal text\<close>

definition digit :: "char \<Rightarrow> nat option" where
  "digit c = (let v = of_char c :: nat in if 48 \<le> v \<and> v \<le> 57 then Some (v - 48) else None)"

fun FormatUint :: "nat \<Rightarrow> string" where
  "FormatUint n = (if n < 10 then [char_of (48 + n)] else FormatUint (n div 10) @ [char_of (48 + n mod 10)])"

declare FormatUint.simps [simp del]

text \<open>\<^verbatim>\<open>strconv.ParseUint(s, 10, 16)\<close>; the messages of the errors are kept without the input text.\<close>

fun ParseUint_loop :: "nat \<Rightarrow> string \<Rightarrow> error + u16" where
  "ParseUint_loop n [] = Inr (of_nat n)"
| "ParseUint_loop n (c # s) =
     (case digit c of
        None \<Rightarrow> Inl (ErrNew ''strconv.ParseUint: invalid syntax'')
      | Some d \<Rightarrow>
          if n * 10 + d > 65535 then Inl (ErrNew ''strconv.ParseUint: value out of range'')
          else ParseUint_loop (n * 10 + d) s)"

definition ParseUint :: "string \<Rightarrow> error + u16" where
  "ParseUint s = (if s = [] then Inl (ErrNew ''strconv.ParseUint: invalid syntax'') else ParseUint_loop 0 s)"

text \<open>\<^verbatim>\<open>dtoi\<close> of package \<^verbatim>\<open>net\<close>: the value of the digits in front, and what follows them.\<close>

fun dtoi_loop :: "nat \<Rightarrow> string \<Rightarrow> (nat \<times> string) option" where
  "dtoi_loop n [] = Some (n, [])"
| "dtoi_loop n (c # s) =
     (case digit c of
        None \<Rightarrow> Some (n, c # s)
      | Some d \<Rightarrow> if n * 10 + d \<ge> 0xFFFFFF then None else dtoi_loop (n * 10 + d) s)"

definition dtoi :: "string \<Rightarrow> (nat \<times> string) option" where
  "dtoi s = (if s = [] \<or> digit (hd s) = None then None else dtoi_loop 0 s)"

text \<open>The octets of \<^verbatim>\<open>parseIPv4\<close>, from octet \<open>i\<close> on.\<close>

function parseIPv4_loop :: "nat \<Rightarrow> string \<Rightarrow> (byte list \<times> string) option" where
  "parseIPv4_loop i s =
     (if i < 4 then
        (if s = [] \<or> (i > 0 \<and> hd s \<noteq> CHR ''.'') then None
         else case dtoi (if i > 0 then tl s else s) of
                None \<Rightarrow> None
              | Some (n, s) \<Rightarrow>
                  if n > 0xFF then None
                  else map_option (\<lambda>(p, s). (of_nat n # p, s)) (parseIPv4_loop (Suc i) s))
      else Some ([], s))"
  by auto
termination by (relation "measure (\<lambda>(i, s). 4 - i)") auto

declare parseIPv4_loop.simps [simp del]

definition parseIPv4 :: "string \<Rightarrow> IP option" where
  "parseIPv4 s =
     (case parseIPv4_loop 0 s of
        Some ([a, b, c, d], []) \<Rightarrow> Some (IPv4 a b c d)
      | _ \<Rightarrow> None)"

text \<open>
  \<^verbatim>\<open>net.ParseIP\<close> goes by the first dot or colon; the reader of the colon forms, of which no frame sent
  by this program makes use, is the argument \<open>parseIPv6\<close>.
\<close>

fun ParseIP_loop :: "(string \<Rightarrow> IP option) \<Rightarrow> string \<Rightarrow> string \<Rightarrow> IP option" where
  "ParseIP_loop parseIPv6 s [] = None"
| "ParseIP_loop parseIPv6 s (c # cs) =
     (if c = CHR ''.'' then parseIPv4 s
      else if c = CHR '':'' then parseIPv6 s
      else ParseIP_loop parseIPv6 s cs)"

definition ParseIP :: "(string \<Rightarrow> IP option) \<Rightarrow> string \<Rightarrow> IP option" where
  "ParseIP parseIPv6 s = ParseIP_loop parseIPv6 s s"

definition IPv4_String :: "byte \<Rightarrow> byte \<Rightarrow> byte \<Rightarrow> byte \<Rightarrow> string" where
  "IPv4_String a b c d =
     FormatUint (unat a) @ ''.'' @ FormatUint (unat b) @ ''.'' @ FormatUint (unat c) @ ''.'' @ FormatUint (unat d)"

section \<open>The frame\<close>

definition ErrTooManyPaths :: error where
  "ErrTooManyPaths = ErrNew ''PathsFrame: more paths than the maximum enabled''"
definition ErrTooManyIPs :: error where
  "ErrTooManyIPs = ErrNew ''PathsFrame: more IPs than paths''"
definition ErrPathsNumber :: error where
  "ErrPathsNumber = ErrNew ''PathsFrame: number of paths advertised and # of paths do not match''"
definition ErrIPsNumber :: error where
  "ErrIPsNumber = ErrNew ''PathsFrame: number of IPs and number of paths do not match''"
definition ErrMissingRTT :: error where
  "ErrMissingRTT = ErrNew ''PathsFrame: number of paths IDs and number of remote RTTs do not match''"
definition ErrMissingAddrsIP :: error where
  "ErrMissingAddrsIP = ErrNew ''PathsFrame: number of paths IDs and number of remote addresses IP do not match''"
definition ErrMissingAddrsPort :: error where
  "ErrMissingAddrsPort = ErrNew ''PathsFrame: number of paths IDs and number of remote addresses Port do not match''"

record PathsFrame =
  MaxNumPaths :: byte
  NumPaths :: byte
  NumIPs :: byte
  PathIDs :: "PathID list"
  RemoteRTTs :: "Duration list"
  RemoteAddrsIP :: "string list"
  RemoteAddrsPort :: "string list"

definition indexOutOfRange :: error where
  "indexOutOfRange = Panic ''runtime error: index out of range''"

definition writeAddr :: "(string \<Rightarrow> IP option) \<Rightarrow> ByteOrder \<Rightarrow> string list \<Rightarrow> string list \<Rightarrow> error + byte list" where
  "writeAddr parseIPv6 bo ips ports =
     (case ips of [] \<Rightarrow> Inl indexOutOfRange
      | ip # _ \<Rightarrow>
          (case Option.bind (ParseIP parseIPv6 ip) To4 of
             None \<Rightarrow> Inl errInconsistentAddrIPVersion
           | Some ip \<Rightarrow>
               (case ports of [] \<Rightarrow> Inl indexOutOfRange
                | p # _ \<Rightarrow> bind_r (ParseUint p) (\<lambda>portInt. Inr (take 4 ip @ WriteUint16 bo portInt)))))"

text \<open>The loop over the paths: the lists hold what is left at and after the index of the loop.\<close>

fun writePaths :: "(string \<Rightarrow> IP option) \<Rightarrow> ByteOrder \<Rightarrow> byte \<Rightarrow> PathID list \<Rightarrow> Duration list \<Rightarrow>
    string list \<Rightarrow> string list \<Rightarrow> error + byte list" where
  "writePaths parseIPv6 bo numIPs [] rtts ips ports = Inr []"
| "writePaths parseIPv6 bo numIPs (pathID # ids) [] ips ports = Inl indexOutOfRange"
| "writePaths parseIPv6 bo numIPs (pathID # ids) (rtt # rtts) ips ports =
     bind_r (if numIPs > 0 then writeAddr parseIPv6 bo ips ports else Inr []) (\<lambda>addr.
     bind_r (writePaths parseIPv6 bo numIPs ids rtts (tl ips) (tl ports)) (\<lambda>rest.
     Inr (pathID # writeUfloat16 bo (word_of_int (rtt sdiv 1000)) @ addr @ rest)))"

definition PathsFrame_Write :: "(string \<Rightarrow> IP option) \<Rightarrow> VersionNumber \<Rightarrow> PathsFrame \<Rightarrow> error + byte list" where
  "PathsFrame_Write parseIPv6 version f =
     (if unat (NumPaths f) \<noteq> length (PathIDs f) then Inl ErrPathsNumber
      else if NumPaths f \<noteq> NumIPs f \<and> NumIPs f \<noteq> 0 then Inl ErrIPsNumber
      else if length (PathIDs f) \<noteq> length (RemoteRTTs f) then Inl ErrMissingRTT
      else if length (PathIDs f) \<noteq> length (RemoteAddrsIP f) \<and> length (RemoteAddrsIP f) \<noteq> 0
      then Inl ErrMissingAddrsIP
      else if length (PathIDs f) \<noteq> length (RemoteAddrsPort f) \<and> length (RemoteAddrsPort f) \<noteq> 0
      then Inl ErrMissingAddrsPort
      else bind_r (writePaths parseIPv6 (GetByteOrder version) (NumIPs f) (PathIDs f) (RemoteRTTs f)
                    (RemoteAddrsIP f) (RemoteAddrsPort f)) (\<lambda>bs.
           Inr ([0x12, MaxNumPaths f, NumPaths f, NumIPs f] @ bs)))"

type_synonym parsedPaths = "PathID list \<times> Duration list \<times> string list \<times> string list"

definition parseAddr :: "ByteOrder \<Rightarrow> (string \<times> string) parser" where
  "parseAddr bo =
     bind_p ReadByte (\<lambda>a. bind_p ReadByte (\<lambda>b. bind_p ReadByte (\<lambda>c. bind_p ReadByte (\<lambda>d.
     bind_p (ReadUint16 bo) (\<lambda>port.
     return_p (IPv4_String a b c d, FormatUint (unat port)))))))"

fun parsePaths :: "ByteOrder \<Rightarrow> byte \<Rightarrow> nat \<Rightarrow> parsedPaths parser" where
  "parsePaths bo numIPs 0 = return_p ([], [], [], [])"
| "parsePaths bo numIPs (Suc n) =
     bind_p ReadByte (\<lambda>pathID.
     bind_p (readUfloat16 bo) (\<lambda>remoteRTT.
     bind_p (if numIPs > 0 then bind_p (parseAddr bo) (\<lambda>(ip, port). return_p ([ip], [port]))
             else return_p ([], [])) (\<lambda>(ip, port).
     bind_p (parsePaths bo numIPs n) (\<lambda>(ids, rtts, ips, ports).
     return_p (pathID # ids, sint (remoteRTT * 1000) # rtts, ip @ ips, port @ ports)))))"

definition ParsePathsFrame :: "VersionNumber \<Rightarrow> PathsFrame parser" where
  "ParsePathsFrame version =
     bind_p ReadByte (\<lambda>_.
     bind_p ReadByte (\<lambda>maxNum.
     bind_p ReadByte (\<lambda>num.
       if num > maxNum then fail_p ErrTooManyPaths else
     bind_p ReadByte (\<lambda>numip.
       if numip > num then fail_p ErrTooManyIPs else
     bind_p (parsePaths (GetByteOrder version) numip (unat num)) (\<lambda>(ids, rtts, ips, ports).
     return_p \<lparr>MaxNumPaths = maxNum, NumPaths = num, NumIPs = numip, PathIDs = ids, RemoteRTTs = rtts,
       RemoteAddrsIP = ips, RemoteAddrsPort = ports\<rparr>)))))"

text \<open>The length is computed in 8 bits.\<close>

definition PathsFrame_MinLength :: "PathsFrame \<Rightarrow> ByteCount" where
  "PathsFrame_MinLength f = ucast (1 + 1 + 1 + 3 * NumPaths f :: byte)"

section \<open>Text of numbers\<close>

lemma digit_char_of [simp]: "n < 10 \<Longrightarrow> digit (char_of (48 + n)) = Some n"
  by (simp add: digit_def Let_def)

lemma FormatUint_split:
  "\<exists>c s. FormatUint n = c # s \<and> digit c \<noteq> None"
proof (induction n rule: FormatUint.induct)
  case (1 n)
  then show ?case by (cases "n < 10") (auto simp: FormatUint.simps [of n] digit_char_of simp del: add_numeral_left)
qed

text \<open>Both readers take digits from the left while the value fits.\<close>

locale decimal_reader =
  fixes loop :: "nat \<Rightarrow> string \<Rightarrow> 'r" and fits :: "nat \<Rightarrow> bool"
  assumes digit_step: "digit c = Some d \<Longrightarrow> fits (n * 10 + d) \<Longrightarrow> loop n (c # s) = loop (n * 10 + d) s"
    and fits_down: "fits m \<Longrightarrow> n \<le> m \<Longrightarrow> fits n"
begin

lemma loop_FormatUint:
  "fits (a * 10 ^ length (FormatUint n) + n) \<Longrightarrow>
    loop a (FormatUint n @ r) = loop (a * 10 ^ length (FormatUint n) + n) r"
proof (induction n arbitrary: a r rule: FormatUint.induct)
  case (1 n)
  show ?case
  proof (cases "n < 10")
    case True
    then show ?thesis using 1(2) digit_step by (simp add: FormatUint.simps [of n])
  next
    case False
    let ?m = "a * 10 ^ length (FormatUint (n div 10)) + n div 10"
    have m: "a * 10 ^ length (FormatUint n) + n = ?m * 10 + n mod 10"
      using False by (simp add: FormatUint.simps [of n] algebra_simps)
    have "fits ?m" using 1(2) unfolding m by (rule fits_down) simp
    from 1(1) [OF False this] show ?thesis
      using 1(2) False unfolding m by (simp add: FormatUint.simps [of n] digit_step)
  qed
qed

lemma loop_zero: "fits n \<Longrightarrow> loop 0 (FormatUint n @ r) = loop n r"
  using loop_FormatUint [of 0 n r] by simp

end

interpretation dtoi: decimal_reader dtoi_loop "\<lambda>n. n < 0xFFFFFF"
  by unfold_locales auto

interpretation parse_uint: decimal_reader ParseUint_loop "\<lambda>n. n \<le> 65535"
  by unfold_locales auto

lemma ParseUint_FormatUint: "n < 65536 \<Longrightarrow> ParseUint (FormatUint n) = Inr (of_nat n)"
  using parse_uint.loop_zero [of n "[]"] FormatUint_split [of n] by (auto simp: ParseUint_def)

lemma dtoi_FormatUint:
  assumes "n < 0xFFFFFF" "r = [] \<or> digit (hd r) = None"
  shows "dtoi (FormatUint n @ r) = Some (n, r)"
proof -
  have "dtoi_loop n r = Some (n, r)" using assms(2) by (cases r) auto
  then show ?thesis
    using dtoi.loop_zero [of n r] FormatUint_split [of n] assms(1) by (auto simp: dtoi_def)
qed

lemma parseIPv4_loop_step:
  assumes "i < 4" "r = [] \<or> hd r = CHR ''.''"
  shows "parseIPv4_loop i ((if i > 0 then ''.'' else []) @ FormatUint (unat (b :: byte)) @ r) =
    map_option (\<lambda>(p, s). (b # p, s)) (parseIPv4_loop (Suc i) r)"
proof -
  have b: "unat b < 256" using unsigned_less [of b, where 'a = nat] by simp
  have "dtoi (FormatUint (unat b) @ r) = Some (unat b, r)"
    using assms(2) b by (intro dtoi_FormatUint) (auto simp: digit_def)
  moreover obtain c s where "FormatUint (unat b) = c # s" using FormatUint_split by blast
  ultimately show ?thesis
    using assms(1) b by (subst parseIPv4_loop.simps) (auto simp: hd_append)
qed

lemma parseIPv4_loop_end: "parseIPv4_loop 4 s = Some ([], s)"
  by (simp add: parseIPv4_loop.simps)

lemma parseIPv4_String: "parseIPv4 (IPv4_String a b c d) = Some (IPv4 a b c d)"
proof -
  have "parseIPv4_loop 0 (IPv4_String a b c d) = Some ([a, b, c, d], [])"
    using parseIPv4_loop_step [of 3 "[]" d] parseIPv4_loop_step [of 2 "''.'' @ FormatUint (unat d)" c]
      parseIPv4_loop_step [of 1 "''.'' @ FormatUint (unat c) @ ''.'' @ FormatUint (unat d)" b]
      parseIPv4_loop_step [of 0 "''.'' @ FormatUint (unat b) @ ''.'' @ FormatUint (unat c) @ ''.'' @ FormatUint (unat d)" a]
    by (simp add: IPv4_String_def parseIPv4_loop_end flip: numeral_2_eq_2)
  then show ?thesis by (simp add: parseIPv4_def)
qed

lemma FormatUint_digits: "c \<in> set (FormatUint n) \<Longrightarrow> digit c \<noteq> None"
proof (induction n rule: FormatUint.induct)
  case (1 n)
  then show ?case by (cases "n < 10") (auto simp: FormatUint.simps [of n] simp del: add_numeral_left)
qed

lemma ParseIP_loop_skip: "\<forall>c \<in> set cs. digit c \<noteq> None \<Longrightarrow> ParseIP_loop p6 s (cs @ r) = ParseIP_loop p6 s r"
  by (induction cs) (auto simp: digit_def)

lemma ParseIP_String [simp]: "ParseIP p6 (IPv4_String a b c d) = Some (IPv4 a b c d)"
proof -
  have "ParseIP p6 (IPv4_String a b c d) = parseIPv4 (IPv4_String a b c d)"
    unfolding ParseIP_def
    by (subst (2) IPv4_String_def, subst ParseIP_loop_skip) (use FormatUint_digits in auto)
  then show ?thesis by (simp add: parseIPv4_String)
qed

lemma To4_IPv4 [simp]: "To4 (IPv4 a b c d) = Some [a, b, c, d]"
  by (simp add: To4_def IPv4_def eval_nat_numeral)

section \<open>Round trip\<close>

text \<open>What the peer gets for a round-trip time: whole microseconds, in the precision of a 16-bit float.\<close>

definition receivedRTT :: "Duration \<Rightarrow> Duration" where
  "receivedRTT d = sint (readUfloat16_value (writeUfloat16_value (word_of_int (d sdiv 1000))) * 1000)"

definition wf_Paths :: "PathsFrame \<Rightarrow> bool" where
  "wf_Paths f \<longleftrightarrow> unat (NumPaths f) = length (PathIDs f) \<and> NumPaths f \<le> MaxNumPaths f \<and>
     length (RemoteRTTs f) = length (PathIDs f) \<and>
     (NumIPs f = 0 \<and> RemoteAddrsIP f = [] \<and> RemoteAddrsPort f = [] \<or>
      NumIPs f = NumPaths f \<and> length (RemoteAddrsIP f) = length (PathIDs f) \<and>
      length (RemoteAddrsPort f) = length (PathIDs f) \<and>
      (\<forall>ip \<in> set (RemoteAddrsIP f). \<exists>a b c d. ip = IPv4_String a b c d) \<and>
      (\<forall>p \<in> set (RemoteAddrsPort f). \<exists>n < 65536. p = FormatUint n))"

definition receivedPaths :: "PathsFrame \<Rightarrow> PathsFrame" where
  "receivedPaths f = f\<lparr>RemoteRTTs := map receivedRTT (RemoteRTTs f)\<rparr>"

definition PathsFrame_written_length :: "PathsFrame \<Rightarrow> nat" where
  "PathsFrame_written_length f = 4 + (if NumIPs f > 0 then 9 else 3) * length (PathIDs f)"

lemma writePaths_addrs:
  assumes "0 < numIPs" "length rtts = length ids" "length ips = length ids" "length ports = length ids"
    "\<forall>ip \<in> set ips. \<exists>a b c d. ip = IPv4_String a b c d" "\<forall>p \<in> set ports. \<exists>n < 65536. p = FormatUint n"
  shows "\<exists>bs. writePaths p6 bo numIPs ids rtts ips ports = Inr bs \<and> length bs = 9 * length ids \<and>
    parsePaths bo numIPs (length ids) (bs @ r) = Inr ((ids, map receivedRTT rtts, ips, ports), r)"
  using assms
proof (induction ids arbitrary: rtts ips ports)
  case (Cons i ids)
  from Cons.prems obtain t rtts' ip ips' p ports' where eq: "rtts = t # rtts'" "ips = ip # ips'" "ports = p # ports'"
    by (auto simp: length_Suc_conv)
  from Cons.prems obtain a b c d n where addr: "ip = IPv4_String a b c d" "p = FormatUint n" "n < 65536"
    unfolding eq by auto
  from Cons.IH [of rtts' ips' ports'] Cons.prems obtain bs where
    "writePaths p6 bo numIPs ids rtts' ips' ports' = Inr bs" "length bs = 9 * length ids"
    "parsePaths bo numIPs (length ids) (bs @ r) = Inr ((ids, map receivedRTT rtts', ips', ports'), r)"
    by (auto simp: eq)
  then show ?case using Cons.prems(1)
    by (simp add: eq addr writeAddr_def parseAddr_def ParseUint_FormatUint bind_p_apply receivedRTT_def unat_of_nat)
qed simp

lemma writePaths_no_addrs:
  assumes "length rtts = length ids"
  shows "\<exists>bs. writePaths p6 bo 0 ids rtts [] [] = Inr bs \<and> length bs = 3 * length ids \<and>
    parsePaths bo 0 (length ids) (bs @ r) = Inr ((ids, map receivedRTT rtts, [], []), r)"
  using assms
proof (induction ids arbitrary: rtts)
  case (Cons i ids)
  from Cons.prems obtain t rtts' where eq: "rtts = t # rtts'" by (auto simp: length_Suc_conv)
  from Cons.IH [of rtts'] Cons.prems obtain bs where
    "writePaths p6 bo 0 ids rtts' [] [] = Inr bs" "length bs = 3 * length ids"
    "parsePaths bo 0 (length ids) (bs @ r) = Inr ((ids, map receivedRTT rtts', [], []), r)"
    by (auto simp: eq)
  then show ?case by (simp add: eq bind_p_apply receivedRTT_def)
qed simp

lemma PathsFrame_written:
  assumes "wf_Paths f"
  shows "\<exists>bs. PathsFrame_Write p6 v f = Inr bs \<and> length bs = PathsFrame_written_length f \<and>
    ParsePathsFrame v (bs @ r) = Inr (receivedPaths f, r)"
proof -
  let ?w = "writePaths p6 (GetByteOrder v) (NumIPs f) (PathIDs f) (RemoteRTTs f) (RemoteAddrsIP f) (RemoteAddrsPort f)"
  have n: "unat (NumPaths f) = length (PathIDs f)" "\<not> NumPaths f > MaxNumPaths f" "\<not> NumIPs f > NumPaths f"
    using assms by (auto simp: wf_Paths_def word_le_nat_alt word_less_nat_alt)
  have "\<exists>bs. ?w = Inr bs \<and> length bs = (if NumIPs f > 0 then 9 else 3) * length (PathIDs f) \<and>
      parsePaths (GetByteOrder v) (NumIPs f) (length (PathIDs f)) (bs @ r) =
        Inr ((PathIDs f, map receivedRTT (RemoteRTTs f), RemoteAddrsIP f, RemoteAddrsPort f), r)"
    using assms writePaths_addrs [of "NumIPs f" "RemoteRTTs f" "PathIDs f" "RemoteAddrsIP f" "RemoteAddrsPort f"]
      writePaths_no_addrs [of "RemoteRTTs f" "PathIDs f"]
    by (cases "NumIPs f = 0") (auto simp: wf_Paths_def word_neq_0_conv)
  then obtain bs where bs: "?w = Inr bs" "length bs = (if NumIPs f > 0 then 9 else 3) * length (PathIDs f)"
      "parsePaths (GetByteOrder v) (NumIPs f) (length (PathIDs f)) (bs @ r) =
        Inr ((PathIDs f, map receivedRTT (RemoteRTTs f), RemoteAddrsIP f, RemoteAddrsPort f), r)"
    by blast
  have "\<not> (NumPaths f \<noteq> NumIPs f \<and> NumIPs f \<noteq> 0)" "\<not> length (PathIDs f) \<noteq> length (RemoteRTTs f)"
    "\<not> (length (PathIDs f) \<noteq> length (RemoteAddrsIP f) \<and> length (RemoteAddrsIP f) \<noteq> 0)"
    "\<not> (length (PathIDs f) \<noteq> length (RemoteAddrsPort f) \<and> length (RemoteAddrsPort f) \<noteq> 0)"
    using assms unfolding wf_Paths_def by (elim conjE disjE; simp)+
  then have "PathsFrame_Write p6 v f = Inr ([0x12, MaxNumPaths f, NumPaths f, NumIPs f] @ bs)"
    using n(1) bs(1) unfolding PathsFrame_Write_def by (simp only: if_False not_not simp_thms bind_r_simps)
  then show ?thesis using n bs
    by (simp add: ParsePathsFrame_def PathsFrame_written_length_def receivedPaths_def bind_p_apply)
qed

lemma consumes_parsePaths: "consumes (parsePaths bo numIPs n)"
  by (induction n) (simp_all only: parsePaths.simps parseAddr_def,
    (intro consumes_intros consumes_readUfloat16 | assumption)+)

interpretation paths: frame_codec "PathsFrame_Write p6 v" "ParsePathsFrame v"
  PathsFrame_written_length "\<lambda>f r. wf_Paths f" receivedPaths for p6 v
proof unfold_locales
  show "\<exists>pre. pre \<noteq> [] \<and> s = pre @ r" if "ParsePathsFrame v s = Inr (f, r)" for s f r
    using that unfolding ParsePathsFrame_def
    by (rule first_byte_taken) (intro consumes_intros consumes_parsePaths)
qed (rule PathsFrame_written)

text \<open>A received round-trip time is never larger, and smaller by at most a microsecond and one part in 2048.\<close>

lemma receivedRTT_close:
  assumes "0 \<le> d" "d < 4 * 10 ^ 15"
  shows "receivedRTT d \<le> d \<and> 2048 * (d - receivedRTT d) \<le> d + 2048 * 1000"
proof -
  let ?v = "word_of_int (d div 1000) :: u64"
  define v' where "v' = readUfloat16_value (writeUfloat16_value ?v)"
  have v: "int (unat ?v) = d div 1000"
    using assms by (simp add: unsigned_of_int take_bit_int_eq_self)
  moreover have "d div 1000 < 4 * 10 ^ 12" using assms(2) [simplified] by simp
  ultimately have "unat ?v < 4 * 10 ^ 12" by (intro iffD1 [OF of_nat_less_iff [where 'a = int]]) simp
  then have "?v < uFloat16MaxValue"
    by (simp add: uFloat16MaxValue_def ufloat16_consts word_less_nat_alt)
  then have v': "unat v' \<le> unat ?v" "2048 * (unat ?v - unat v') \<le> unat ?v"
    using ufloat16_value_precision [of ?v] by (auto simp: v'_def word_le_nat_alt)
  have "sint (v' * 1000) = int (unat v') * 1000"
  proof -
    have small: "unat v' * 1000 < 2 ^ 63" using v' \<open>unat ?v < 4 * 10 ^ 12\<close> by simp
    then have "unat (v' * 1000) = unat v' * 1000" by (simp add: unat_word_ariths)
    then show ?thesis using small by (simp add: sint_small)
  qed
  moreover have "d sdiv 1000 = d div 1000" using assms(1) by (simp add: signed_divide_int_def sgn_if)
  ultimately have r: "receivedRTT d = int (unat v') * 1000" by (simp add: receivedRTT_def v'_def)
  obtain q n w where q: "d div 1000 = q" and n: "unat ?v = n" "unat v' = w" by blast
  have "int n = q" "w \<le> n" "2048 * (n - w) \<le> n" using v v' unfolding n by (simp_all only: q)
  then have "int n = q" "w \<le> n" "int (2048 * n) \<le> int (n + 2048 * w)" by (simp_all add: diff_mult_distrib2)
  then have "int w \<le> q" "2048 * q \<le> q + 2048 * int w" by simp_all
  moreover have "q * 1000 \<le> d" "d < q * 1000 + 1000" unfolding q [symmetric] by simp_all
  ultimately show ?thesis unfolding r n by simp
qed

section \<open>The properties\<close>

text \<open>
  the list of paths arrives. A PATHS frame whose lists agree with its counters, and whose addresses
  and ports are decimal text, is written and parses back, whatever follows and however addresses with
  colons are read, to the same path IDs, addresses and ports. A round-trip time below 46 days is never
  rounded up, and rounded down by at most a microsecond and one part in 2048.
\<close>

theorem paths_frame_roundtrip:
  assumes "wf_Paths f"
  shows "\<exists>bs. PathsFrame_Write parseIPv6 v f = Inr bs \<and>
    (\<forall>r. \<exists>g. ParsePathsFrame v (bs @ r) = Inr (g, r) \<and> PathIDs g = PathIDs f \<and>
       RemoteAddrsIP g = RemoteAddrsIP f \<and> RemoteAddrsPort g = RemoteAddrsPort f \<and>
       length (RemoteRTTs g) = length (RemoteRTTs f) \<and>
       (\<forall>i < length (RemoteRTTs f). let d = RemoteRTTs f ! i; d' = RemoteRTTs g ! i in
          0 \<le> d \<and> d < 4 * 10 ^ 15 \<longrightarrow> d' \<le> d \<and> 2048 * (d - d') \<le> d + 2048 * 1000))"
proof -
  obtain bs where bs: "PathsFrame_Write parseIPv6 v f = Inr bs" using PathsFrame_written [OF assms] by blast
  then have "\<forall>r. ParsePathsFrame v (bs @ r) = Inr (receivedPaths f, r)"
    using PathsFrame_written [OF assms, of parseIPv6 v] by auto
  then show ?thesis using bs receivedRTT_close by (auto simp: receivedPaths_def Let_def)
qed

definition examplePaths :: PathsFrame where
  "examplePaths = \<lparr>MaxNumPaths = 255, NumPaths = 2, NumIPs = 2, PathIDs = [0, 1], RemoteRTTs = [20000000, 35000000],
     RemoteAddrsIP = [IPv4_String 10 0 0 1, IPv4_String 10 0 1 1],
     RemoteAddrsPort = [FormatUint 6121, FormatUint 50000]\<rparr>"

lemma wf_examplePaths: "wf_Paths examplePaths"
  unfolding wf_Paths_def examplePaths_def
  by (auto intro: exI [of _ 6121] exI [of _ 50000])

theorem paths_frame_roundtrip_witness:
  "\<exists>bs g. PathsFrame_Write (\<lambda>_. None) Version39 examplePaths = Inr bs \<and>
    ParsePathsFrame Version39 (bs @ [7]) = Inr (g, [7]) \<and> PathIDs g = [0, 1] \<and>
    RemoteAddrsIP g = [''10.0.0.1'', ''10.0.1.1'']"
proof -
  have "RemoteAddrsIP examplePaths = [''10.0.0.1'', ''10.0.1.1'']" "PathIDs examplePaths = [0, 1]"
    by (simp_all add: examplePaths_def IPv4_String_def FormatUint.simps char_of_def bit_Suc_0_iff)
  then show ?thesis using paths_frame_roundtrip [OF wf_examplePaths, of "\<lambda>_. None" Version39] by metis
qed

text \<open>
  C31. \<^verbatim>\<open>MinLength\<close> of a PATHS frame is too small. It leaves out the byte of \<^verbatim>\<open>NumIPs\<close> and the six bytes of
  each address, and is computed in 8 bits, so every PATHS frame that is written takes more bytes than it
  promises to the packet packer.
\<close>

theorem paths_frame_min_length_too_small:
  assumes "PathsFrame_Write parseIPv6 v f = Inr bs"
  shows "unat (PathsFrame_MinLength f) < length bs"
proof -
  have paths: "3 * length ids \<le> length bs" if "writePaths parseIPv6 bo n ids rtts ips ports = Inr bs"
    for bo n ids rtts ips ports bs
    using that by (induction parseIPv6 bo n ids rtts ips ports arbitrary: bs rule: writePaths.induct)
      (fastforce simp: bind_r_eq_Inr)+
  from assms have "unat (NumPaths f) = length (PathIDs f)" and "3 * length (PathIDs f) + 4 \<le> length bs"
    by (auto simp: PathsFrame_Write_def bind_r_eq_Inr dest: paths split: if_splits)
  moreover have "unat (PathsFrame_MinLength f) \<le> 3 + 3 * unat (NumPaths f)"
    by (simp add: PathsFrame_MinLength_def unat_word_ariths)
  ultimately show ?thesis by linarith
qed

theorem paths_frame_min_length_too_small_witness:
  "\<exists>bs. PathsFrame_Write (\<lambda>_. None) Version39 examplePaths = Inr bs \<and>
    unat (PathsFrame_MinLength examplePaths) < length bs"
  using PathsFrame_written [OF wf_examplePaths] paths_frame_min_length_too_small by blast

end
