(* ===== verification/PacketUnpacker.thy ===== *)
theory PacketUnpacker
  imports StreamFrame AckFrame ClosePathFrame PathsFrame
begin

text \<open>
  The frames of a packet (\<^verbatim>\<open>internal/wire/frame.go\<close>, \<^verbatim>\<open>packet_unpacker.go\<close>): the sum of the frame types with
  \<^verbatim>\<open>Write\<close> and \<^verbatim>\<open>MinLength\<close> by type, the dispatch on the type byte, and \<^verbatim>\<open>Unpack\<close>, which reads frames until
  the payload is empty. What \<^verbatim>\<open>Open\<close> of the AEAD returns is an argument.
\<close>

section \<open>Encryption levels\<close>

datatype EncryptionLevel = EncryptionUnspecified | EncryptionUnencrypted | EncryptionSecure | EncryptionForwardSecure

fun level_rank :: "EncryptionLevel \<Rightarrow> nat" where
  "level_rank EncryptionUnspecified = 0"
| "level_rank EncryptionUnencrypted = 1"
| "level_rank EncryptionSecure = 2"
| "level_rank EncryptionForwardSecure = 3"

instantiation EncryptionLevel :: linorder
begin

definition less_eq_EncryptionLevel :: "EncryptionLevel \<Rightarrow> EncryptionLevel \<Rightarrow> bool" where
  "a \<le> b \<longleftrightarrow> level_rank a \<le> level_rank b"

definition less_EncryptionLevel :: "EncryptionLevel \<Rightarrow> EncryptionLevel \<Rightarrow> bool" where
  "a < b \<longleftrightarrow> level_rank a < level_rank b"

instance
proof
  fix a b :: EncryptionLevel
  show "a \<le> b \<Longrightarrow> b \<le> a \<Longrightarrow> a = b"
    by (cases a; cases b) (simp_all add: less_eq_EncryptionLevel_def)
qed (auto simp: less_eq_EncryptionLevel_def less_EncryptionLevel_def)

end

section \<open>Frames\<close>

datatype Frame =
    StreamF StreamFrame
  | AckF AckFrame
  | RstStreamF RstStreamFrame
  | ConnectionCloseF ConnectionCloseFrame
  | GoawayF GoawayFrame
  | WindowUpdateF WindowUpdateFrame
  | BlockedF BlockedFrame
  | StopWaitingF StopWaitingFrame
  | PingF PingFrame
  | AddAddressF AddAddressFrame
  | ClosePathF ClosePathFrame
  | PathsF PathsFrame

text \<open>\<^verbatim>\<open>Write\<close> and \<^verbatim>\<open>MinLength\<close> of the interface; \<open>now\<close> is the clock read by ACK frames.\<close>

fun Frame_Write :: "(string \<Rightarrow> IP option) \<Rightarrow> VersionNumber \<Rightarrow> Time \<Rightarrow> Frame \<Rightarrow> error + byte list" where
  "Frame_Write p6 v now (StreamF f) = StreamFrame_Write v f"
| "Frame_Write p6 v now (AckF f) = bind_r (AckFrame_Write v now f) (\<lambda>(f', bs). Inr bs)"
| "Frame_Write p6 v now (RstStreamF f) = RstStreamFrame_Write v f"
| "Frame_Write p6 v now (ConnectionCloseF f) = ConnectionCloseFrame_Write v f"
| "Frame_Write p6 v now (GoawayF f) = GoawayFrame_Write v f"
| "Frame_Write p6 v now (WindowUpdateF f) = WindowUpdateFrame_Write v f"
| "Frame_Write p6 v now (BlockedF f) = BlockedFrame_Write v f"
| "Frame_Write p6 v now (StopWaitingF f) = StopWaitingFrame_Write v f"
| "Frame_Write p6 v now (PingF f) = PingFrame_Write v f"
| "Frame_Write p6 v now (AddAddressF f) = AddAddressFrame_Write v f"
| "Frame_Write p6 v now (ClosePathF f) = ClosePathFrame_Write v f"
| "Frame_Write p6 v now (PathsF f) = PathsFrame_Write p6 v f"

fun Frame_MinLength :: "Frame \<Rightarrow> error + ByteCount" where
  "Frame_MinLength (StreamF f) = Inr (StreamFrame_MinLength f)"
| "Frame_MinLength (AckF f) = Inr (AckFrame_MinLength f)"
| "Frame_MinLength (RstStreamF f) = Inr (RstStreamFrame_MinLength f)"
| "Frame_MinLength (ConnectionCloseF f) = Inr (ConnectionCloseFrame_MinLength f)"
| "Frame_MinLength (GoawayF f) = Inr (GoawayFrame_MinLength f)"
| "Frame_MinLength (WindowUpdateF f) = Inr (WindowUpdateFrame_MinLength f)"
| "Frame_MinLength (BlockedF f) = Inr (BlockedFrame_MinLength f)"
| "Frame_MinLength (StopWaitingF f) = StopWaitingFrame_MinLength f"
| "Frame_MinLength (PingF f) = Inr (PingFrame_MinLength f)"
| "Frame_MinLength (AddAddressF f) = AddAddressFrame_MinLength f"
| "Frame_MinLength (ClosePathF f) = Inr (ClosePathFrame_MinLength f)"
| "Frame_MinLength (PathsF f) = Inr (PathsFrame_MinLength f)"

section \<open>Unpacking\<close>

text \<open>\<^verbatim>\<open>err = qerr.Error(code, err.Error())\<close>\<close>

definition wrap :: "ErrorCode \<Rightarrow> 'a parser \<Rightarrow> 'a parser" where
  "wrap code p r = (case p r of Inl e \<Rightarrow> Inl (QuicErrorWrap code e) | Inr x \<Rightarrow> Inr x)"

definition as :: "('a \<Rightarrow> Frame) \<Rightarrow> 'a parser \<Rightarrow> Frame parser" where
  "as c p = bind_p p (\<lambda>f. return_p (c f))"

definition parseFrame :: "VersionNumber \<Rightarrow> PacketNumber \<Rightarrow> PacketNumberLen \<Rightarrow> EncryptionLevel \<Rightarrow> byte \<Rightarrow> Frame parser" where
  "parseFrame version packetNumber packetNumberLen encryptionLevel typeByte =
     (if typeByte AND 0x80 = 0x80 then
        bind_p (wrap InvalidStreamData (ParseStreamFrame version)) (\<lambda>f.
          if StreamFrame.StreamID f \<noteq> 1 \<and> encryptionLevel \<le> EncryptionUnencrypted
          then fail_p (QuicErrorf UnencryptedStreamData ''received unencrypted stream data on stream %d''
                 [uint (StreamFrame.StreamID f)])
          else return_p (StreamF f))
      else if typeByte AND 0xc0 = 0x40 then as AckF (wrap InvalidAckData (ParseAckFrame version))
      else if typeByte AND 0xe0 = 0x20 then fail_p (ErrNew ''unimplemented: CONGESTION_FEEDBACK'')
      else if typeByte = 0x01 then as RstStreamF (wrap InvalidRstStreamData (ParseRstStreamFrame version))
      else if typeByte = 0x02
      then as ConnectionCloseF (wrap InvalidConnectionCloseData (ParseConnectionCloseFrame version))
      else if typeByte = 0x03 then as GoawayF (wrap InvalidGoawayData (ParseGoawayFrame version))
      else if typeByte = 0x04 then as WindowUpdateF (wrap InvalidWindowUpdateData (ParseWindowUpdateFrame version))
      else if typeByte = 0x05 then as BlockedF (wrap InvalidBlockedData (ParseBlockedFrame version))
      else if typeByte = 0x06
      then as StopWaitingF (wrap InvalidStopWaitingData (ParseStopWaitingFrame packetNumber packetNumberLen version))
      else if typeByte = 0x07 then as PingF (ParsePingFrame version)
      else if typeByte = 0x10 then as AddAddressF (ParseAddAddressFrame version)
      else if typeByte = 0x11 then as ClosePathF (ParseClosePathFrame version)
      else if typeByte = 0x12 then as PathsF (ParsePathsFrame version)
      else fail_p (QuicErrorf InvalidFrameData ''unknown type byte 0x%x'' [uint typeByte]))"

lemma ParseStreamFrame_taken: "ParseStreamFrame v s = Inr (f, r) \<Longrightarrow> \<exists>pre. pre \<noteq> [] \<and> s = pre @ r"
proof -
  have [consumes_intros]: "consumes (\<lambda>r. Inr (g r, r))" for g by (simp add: consumes_def)
  show "ParseStreamFrame v s = Inr (f, r) \<Longrightarrow> \<exists>pre. pre \<noteq> [] \<and> s = pre @ r"
    unfolding ParseStreamFrame_def Let_def
    by (erule first_byte_taken) (intro consumes_intros)
qed

lemma as_eq_Inr: "as c p s = Inr (f, r) \<longleftrightarrow> (\<exists>x. p s = Inr (x, r) \<and> f = c x)"
  by (auto simp: as_def bind_p_eq_Inr)

lemma wrap_eq_Inr [simp]: "wrap code p s = Inr x \<longleftrightarrow> p s = Inr x"
  by (simp add: wrap_def split: sum.splits)

lemmas frame_taken = ParseStreamFrame_taken ParseAckFrame_taken ParseClosePathFrame_taken
  rst_stream.taken connection_close.taken goaway.taken window_update.taken blocked.taken
  stop_waiting.taken ping.taken add_address.taken paths.taken

lemma parseFrame_taken: "parseFrame v pn len lvl t s = Inr (f, r) \<Longrightarrow> \<exists>pre. pre \<noteq> [] \<and> s = pre @ r"
  unfolding parseFrame_def
  by (auto simp: as_eq_Inr bind_p_eq_Inr dest: frame_taken split: if_splits)

lemma parseFrame_shorter: "parseFrame v pn len lvl t s = Inr (f, r) \<Longrightarrow> length r < length s"
  using parseFrame_taken by fastforce

text \<open>The loop of \<^verbatim>\<open>Unpack\<close> ends because every parsed frame takes at least its type byte.\<close>

function unpackFrames ::
    "VersionNumber \<Rightarrow> PacketNumber \<Rightarrow> PacketNumberLen \<Rightarrow> EncryptionLevel \<Rightarrow> byte list \<Rightarrow> error + Frame list" where
  "unpackFrames v pn len lvl r =
     (case r of [] \<Rightarrow> Inr []
      | typeByte # r' \<Rightarrow>
          if typeByte = 0x0 then unpackFrames v pn len lvl r'
          else case parseFrame v pn len lvl typeByte r of
                 Inl e \<Rightarrow> Inl e
               | Inr (frame, r'') \<Rightarrow> bind_r (unpackFrames v pn len lvl r'') (\<lambda>fs. Inr (frame # fs)))"
  by auto
termination by (relation "measure (\<lambda>(v, pn, len, lvl, r). length r)") (auto dest: parseFrame_shorter)

declare unpackFrames.simps [simp del]

lemma unpackFrames_simps [simp]:
  "unpackFrames v pn len lvl [] = Inr []"
  "unpackFrames v pn len lvl (0 # r) = unpackFrames v pn len lvl r"
  "t \<noteq> 0 \<Longrightarrow> unpackFrames v pn len lvl (t # r) =
     (case parseFrame v pn len lvl t (t # r) of
        Inl e \<Rightarrow> Inl e
      | Inr (frame, r'') \<Rightarrow> bind_r (unpackFrames v pn len lvl r'') (\<lambda>fs. Inr (frame # fs)))"
  by (simp_all add: unpackFrames.simps)

record unpackedPacket =
  encryptionLevel :: EncryptionLevel
  frames :: "Frame list"

type_synonym aead_open = "byte list \<Rightarrow> PacketNumber \<Rightarrow> byte list \<Rightarrow> error + (byte list \<times> EncryptionLevel)"

definition Unpack ::
    "aead_open \<Rightarrow> VersionNumber \<Rightarrow> byte list \<Rightarrow> PublicHeader \<Rightarrow> byte list \<Rightarrow> error + unpackedPacket" where
  "Unpack Open version publicHeaderBinary hdr data =
     (case Open data (PublicHeader.PacketNumber hdr) publicHeaderBinary of
        Inl err \<Rightarrow> Inl (QuicErrorWrap DecryptionFailure err)
      | Inr (decrypted, level) \<Rightarrow>
          if length decrypted = 0 then Inl (Code MissingPayload)
          else bind_r (unpackFrames version (PublicHeader.PacketNumber hdr) (PublicHeader.PacketNumberLen hdr)
                        level decrypted)
                 (\<lambda>fs. Inr \<lparr>encryptionLevel = level, frames = fs\<rparr>))"

section \<open>Frames as a codec\<close>

text \<open>
  When a frame can be sent in the packet \<open>pn\<close> at an encryption level, before the bytes \<open>r\<close>; what the peer
  receives for it; and how many bytes it takes.
\<close>

fun wf_Frame :: "PacketNumber \<Rightarrow> PacketNumberLen \<Rightarrow> EncryptionLevel \<Rightarrow> Frame \<Rightarrow> byte list \<Rightarrow> bool" where
  "wf_Frame pn len lvl (StreamF f) r \<longleftrightarrow>
     sendable f r \<and> (StreamFrame.StreamID f = 1 \<or> EncryptionUnencrypted < lvl)"
| "wf_Frame pn len lvl (AckF f) r \<longleftrightarrow>
     wf_AckFrame f \<and> 1 \<le> AckFrame.LowestAcked f \<and> firstGapFits (AckFrame.AckRanges f)"
| "wf_Frame pn len lvl (ConnectionCloseF f) r \<longleftrightarrow> length (ConnectionCloseFrame.ReasonPhrase f) \<le> unat MaxPacketSize"
| "wf_Frame pn len lvl (GoawayF f) r \<longleftrightarrow> length (GoawayFrame.ReasonPhrase f) \<le> unat MaxPacketSize"
| "wf_Frame pn len lvl (StopWaitingF f) r \<longleftrightarrow> wf_StopWaiting pn len f"
| "wf_Frame pn len lvl (AddAddressF f) r \<longleftrightarrow> wf_AddAddress f"
| "wf_Frame pn len lvl (ClosePathF f) r \<longleftrightarrow>
     wf_ClosePathFrame f \<and> 1 \<le> ClosePathFrame.LowestAcked f \<and> firstGapFits (ClosePathFrame.AckRanges f)"
| "wf_Frame pn len lvl (PathsF f) r \<longleftrightarrow> wf_Paths f"
| "wf_Frame pn len lvl _ r \<longleftrightarrow> True"

fun receivedFrame :: "Time \<Rightarrow> Frame \<Rightarrow> Frame" where
  "receivedFrame now (AckF f) = AckF (receivedAck now f)"
| "receivedFrame now (StopWaitingF f) = StopWaitingF (receivedStopWaiting f)"
| "receivedFrame now (AddAddressF f) = AddAddressF (receivedAddAddress f)"
| "receivedFrame now (ClosePathF f) = ClosePathF (receivedClosePath f)"
| "receivedFrame now (PathsF f) = PathsF (receivedPaths f)"
| "receivedFrame now f = f"

fun frame_length :: "Frame \<Rightarrow> nat" where
  "frame_length (StreamF f) = unat (StreamFrame_MinLength f) + length (Data f)"
| "frame_length (PathsF f) = PathsFrame_written_length f"
| "frame_length f = (case Frame_MinLength f of Inl e \<Rightarrow> 0 | Inr n \<Rightarrow> unat n)"

text \<open>The type bytes of STREAM and ACK frames carry flags; those of the other frames are constants.\<close>

lemma streamTypeByte_stream: "streamTypeByte f AND 0x80 = 0x80"
proof -
  have "calculateStreamIDLength f \<in> {1, 2, 3, 4}" "getOffsetLength f \<in> {0, 2, 3, 4, 5, 6, 7, 8}"
    by (simp_all add: calculateStreamIDLength_def getOffsetLength_def)
  then show ?thesis by (elim insertE emptyE; simp add: streamTypeByte_def Let_def)
qed

lemma ackTypeByte_ack: "ackTypeByte f AND 0x80 \<noteq> 0x80" "ackTypeByte f AND 0xc0 = 0x40"
proof -
  have "GetPacketNumberLength (AckFrame.LargestAcked f) \<in> number_lens"
    "AckFrame_getMissingSequenceNumberDeltaLen f \<in> number_lens"
    by (simp_all add: GetPacketNumberLength_range AckFrame_getMissingSequenceNumberDeltaLen_def
      getMissingSequenceNumberDeltaLen_range)
  then show "ackTypeByte f AND 0x80 \<noteq> 0x80" "ackTypeByte f AND 0xc0 = 0x40"
    unfolding number_lens_def by (elim insertE emptyE; simp add: ackTypeByte_def Let_def)+
qed

text \<open>The first byte of a written frame.\<close>

fun typeByteOf :: "Frame \<Rightarrow> byte" where
  "typeByteOf (StreamF f) = streamTypeByte f"
| "typeByteOf (AckF f) = ackTypeByte f"
| "typeByteOf (RstStreamF f) = 0x01"
| "typeByteOf (ConnectionCloseF f) = 0x02"
| "typeByteOf (GoawayF f) = 0x03"
| "typeByteOf (WindowUpdateF f) = 0x04"
| "typeByteOf (BlockedF f) = 0x05"
| "typeByteOf (StopWaitingF f) = 0x06"
| "typeByteOf (PingF f) = 0x07"
| "typeByteOf (AddAddressF f) = 0x10"
| "typeByteOf (ClosePathF f) = 0x11"
| "typeByteOf (PathsF f) = 0x12"

lemma typeByteOf_nonzero: "typeByteOf f \<noteq> 0"
proof (cases f)
  case (StreamF x)
  then show ?thesis using streamTypeByte_stream [of x] by auto
next
  case (AckF x)
  then show ?thesis using ackTypeByte_ack [of x] by auto
qed simp_all

lemma Frame_Write_typeByte: "Frame_Write p6 v now f = Inr bs \<Longrightarrow> \<exists>bs'. bs = typeByteOf f # bs'"
  by (cases f)
    (auto simp: StreamFrame_Write_def AckFrame_Write_def RstStreamFrame_Write_def ConnectionCloseFrame_Write_def
      GoawayFrame_Write_def WindowUpdateFrame_Write_def BlockedFrame_Write_def StopWaitingFrame_Write_def
      PingFrame_Write_def AddAddressFrame_Write_def ClosePathFrame_Write_def PathsFrame_Write_def
      bind_r_eq_Inr Let_def split: if_splits option.splits)

definition parseNext ::
    "VersionNumber \<Rightarrow> PacketNumber \<Rightarrow> PacketNumberLen \<Rightarrow> EncryptionLevel \<Rightarrow> Frame parser" where
  "parseNext v pn len lvl s = (case s of [] \<Rightarrow> Inl EOF | t # _ \<Rightarrow> parseFrame v pn len lvl t s)"

lemma parse_as:
  assumes "p s = Inr (x, r)"
  shows "as c p s = Inr (c x, r)" "as c (wrap code p) s = Inr (c x, r)"
  using assms by (simp_all add: as_def bind_p_apply wrap_def)

lemma Frame_written_by_type:
  assumes "wf_Frame pn len lvl f r"
  shows "\<exists>bs. Frame_Write p6 v now f = Inr bs \<and> length bs = frame_length f \<and>
    parseFrame v pn len lvl (typeByteOf f) (bs @ r) = Inr (receivedFrame now f, r)"
proof (cases f)
  case (StreamF x)
  with assms have "sendable x r" and "\<not> (StreamFrame.StreamID x \<noteq> 1 \<and> lvl \<le> EncryptionUnencrypted)"
    by (auto simp: not_le)
  then show ?thesis using StreamF StreamFrame_Write_parse [of x r v] streamTypeByte_stream [of x]
    by (auto simp: parseFrame_def bind_p_apply wrap_def)
next
  case (AckF x)
  with assms show ?thesis using AckFrame_Write_parse [of x v now] ackTypeByte_ack [of x]
    by (fastforce simp: parseFrame_def parse_as)
next
  case (ClosePathF x)
  with assms show ?thesis using ClosePathFrame_Write_parse [of x v]
    by (fastforce simp: parseFrame_def parse_as)
next
  case (RstStreamF x)
  then show ?thesis using rst_stream.written [of v x r] by (auto simp: parseFrame_def parse_as)
next
  case (ConnectionCloseF x)
  with assms show ?thesis using connection_close.written [of x v r] by (auto simp: parseFrame_def parse_as)
next
  case (GoawayF x)
  with assms show ?thesis using goaway.written [of x v r] by (auto simp: parseFrame_def parse_as)
next
  case (WindowUpdateF x)
  then show ?thesis using window_update.written [of v x r] by (auto simp: parseFrame_def parse_as)
next
  case (BlockedF x)
  then show ?thesis using blocked.written [of v x r] by (auto simp: parseFrame_def parse_as)
next
  case (StopWaitingF x)
  with assms show ?thesis using stop_waiting.written [of pn len x v r]
    by (auto simp: parseFrame_def parse_as StopWaitingFrame_length_def)
next
  case (PingF x)
  then show ?thesis using ping.written [of v x r] by (auto simp: parseFrame_def parse_as)
next
  case (AddAddressF x)
  with assms show ?thesis using add_address.written [of x v r]
    by (auto simp: parseFrame_def parse_as AddAddressFrame_length_def)
next
  case (PathsF x)
  with assms show ?thesis using paths.written [of x p6 v r] by (auto simp: parseFrame_def parse_as)
qed

interpretation packet: payload_codec "Frame_Write p6 v now" "parseNext v pn len lvl" frame_length
  "wf_Frame pn len lvl" "receivedFrame now" "unpackFrames v pn len lvl" for p6 v now pn len lvl
proof unfold_locales
  show "\<exists>bs. Frame_Write p6 v now f = Inr bs \<and> length bs = frame_length f \<and>
      parseNext v pn len lvl (bs @ r) = Inr (receivedFrame now f, r)" if "wf_Frame pn len lvl f r" for f r
    using Frame_written_by_type [OF that, of p6 v now] Frame_Write_typeByte [of p6 v now f]
    by (fastforce simp: parseNext_def)
  show "\<exists>pre. pre \<noteq> [] \<and> s = pre @ r" if "parseNext v pn len lvl s = Inr (f, r)" for s f r
    using that by (auto simp: parseNext_def dest: parseFrame_taken split: list.splits)
  show "unpackFrames v pn len lvl s = bind_r (unpackFrames v pn len lvl r) (\<lambda>fs. Inr (f # fs))"
    if "parseNext v pn len lvl s = Inr (f, r)" "s = b # t" "b \<noteq> 0" for s f r b t
    using that by (simp add: parseNext_def)
  show "b \<noteq> 0" if "Frame_Write p6 v now f = Inr (b # bs)" for f r b bs
    using Frame_Write_typeByte [OF that] typeByteOf_nonzero [of f] by auto
  show "wf_Frame pn len lvl f r'" if "wf_Frame pn len lvl f r" "r \<noteq> []" for f r r'
    using that by (cases f) (auto simp: sendable_def split: if_splits)
qed simp_all

section \<open>What the unpacker accepts\<close>

text \<open>What holds for every frame that \<^verbatim>\<open>Unpack\<close> hands to the session.\<close>

fun acceptable :: "PacketNumber \<Rightarrow> EncryptionLevel \<Rightarrow> Frame \<Rightarrow> bool" where
  "acceptable pn lvl (StreamF f) \<longleftrightarrow> (Data f \<noteq> [] \<or> FinBit f) \<and> unat (Offset f) + length (Data f) < 2 ^ 64 \<and>
     (StreamFrame.StreamID f = 1 \<or> EncryptionUnencrypted < lvl)"
| "acceptable pn lvl (AckF f) \<longleftrightarrow> wf_AckFrame f"
| "acceptable pn lvl (ConnectionCloseF f) \<longleftrightarrow> length (ConnectionCloseFrame.ReasonPhrase f) \<le> unat MaxPacketSize"
| "acceptable pn lvl (GoawayF f) \<longleftrightarrow> length (GoawayFrame.ReasonPhrase f) \<le> unat MaxPacketSize"
| "acceptable pn lvl (StopWaitingF f) \<longleftrightarrow> 1 \<le> LeastUnacked f \<and> LeastUnacked f \<le> pn"
| "acceptable pn lvl (AddAddressF f) \<longleftrightarrow> wf_AddAddress f \<and> length (IP (Addr f)) = 16"
| "acceptable pn lvl (ClosePathF f) \<longleftrightarrow> wf_ClosePathFrame f"
| "acceptable pn lvl (PathsF f) \<longleftrightarrow> NumIPs f \<le> NumPaths f \<and> NumPaths f \<le> MaxNumPaths f \<and>
     length (PathIDs f) = unat (NumPaths f) \<and> length (RemoteRTTs f) = unat (NumPaths f) \<and>
     length (RemoteAddrsIP f) = (if NumIPs f > 0 then unat (NumPaths f) else 0) \<and>
     length (RemoteAddrsPort f) = (if NumIPs f > 0 then unat (NumPaths f) else 0)"
| "acceptable pn lvl _ \<longleftrightarrow> True"

lemma phrase_accepted:
  assumes "\<not> n > (ucast MaxPacketSize :: u16)" "ReadFull (unat n) s = Inr (p, r)"
  shows "length p \<le> unat MaxPacketSize"
  using assms by (auto simp: ReadFull_def MaxPacketSize_def word_less_nat_alt split: if_splits)

lemma ParseConnectionCloseFrame_accepted:
  "ParseConnectionCloseFrame v s = Inr (f, r) \<Longrightarrow> acceptable pn lvl (ConnectionCloseF f)"
  unfolding ParseConnectionCloseFrame_def Let_def bind_p_eq_Inr guard_eq_Inr
  by (auto dest: phrase_accepted)

lemma ParseGoawayFrame_accepted:
  "ParseGoawayFrame v s = Inr (f, r) \<Longrightarrow> acceptable pn lvl (GoawayF f)"
  unfolding ParseGoawayFrame_def Let_def bind_p_eq_Inr guard_eq_Inr
  by (auto dest: phrase_accepted)

lemma ParseStopWaitingFrame_accepted:
  assumes "ParseStopWaitingFrame pn len v s = Inr (f, r)"
  shows "acceptable pn lvl (StopWaitingF f)"
proof -
  from assms obtain d where d: "\<not> pn \<le> d" "LeastUnacked f = pn - d"
    unfolding ParseStopWaitingFrame_def bind_p_eq_Inr guard_eq_Inr by auto
  then have "unat (pn - d) = unat pn - unat d" by (simp add: unat_sub word_le_nat_alt not_le)
  then show ?thesis using d by (simp add: word_le_nat_alt)
qed

lemma readBytes_length: "readBytes n s = Inr (bs, r) \<Longrightarrow> length bs = n"
  by (induction n arbitrary: s bs) (auto simp: bind_p_eq_Inr)

lemma ParseAddAddressFrame_accepted:
  assumes "ParseAddAddressFrame v s = Inr (f, r)"
  shows "acceptable pn lvl (AddAddressF f)"
proof -
  from assms obtain port :: u16 where "Port (Addr f) = uint port" and
    ip: "length (IP (Addr f)) = 16 \<and> (IPVersion f = 4 \<and> To4 (IP (Addr f)) \<noteq> None \<or> IPVersion f = 6)"
    unfolding ParseAddAddressFrame_def bind_p_eq_Inr
    by (auto simp: bind_p_eq_Inr IPv4_def [THEN arg_cong [where f = length]] dest: readBytes_length split: if_splits)
  moreover have "uint port < 65536" using unsigned_less [of port, where 'a = int] by simp
  ultimately show ?thesis by (auto simp: wf_AddAddress_def To16_def)
qed

lemma parsePaths_length:
  assumes "parsePaths bo numIPs n s = Inr ((ids, rtts, ips, ports), r)"
  shows "length ids = n \<and> length rtts = n \<and> length ips = (if numIPs > 0 then n else 0) \<and>
    length ports = (if numIPs > 0 then n else 0)"
  using assms
  by (induction n arbitrary: s ids rtts ips ports r) (fastforce simp: bind_p_eq_Inr split: if_splits)+

lemma ParsePathsFrame_accepted:
  "ParsePathsFrame v s = Inr (f, r) \<Longrightarrow> acceptable pn lvl (PathsF f)"
  unfolding ParsePathsFrame_def bind_p_eq_Inr guard_eq_Inr
  by (auto simp: not_less dest: parsePaths_length split: prod.splits)

lemma parseFrame_accepted:
  assumes "parseFrame v pn len lvl t s = Inr (f, r)" "length s \<le> 65535"
  shows "acceptable pn lvl f"
  using assms unfolding parseFrame_def
  by (auto simp: as_eq_Inr bind_p_eq_Inr not_le sendable_def
    dest: ParseStreamFrame_sound ParseAckFrame_wf ParseClosePathFrame_wf ParsePathsFrame_accepted
      ParseAddAddressFrame_accepted ParseStopWaitingFrame_accepted ParseGoawayFrame_accepted
      ParseConnectionCloseFrame_accepted split: if_splits)

lemma unpackFrames_accepted:
  assumes "unpackFrames v pn len lvl s = Inr fs" "length s \<le> 65535"
  shows "(\<forall>f \<in> set fs. acceptable pn lvl f) \<and> length fs \<le> length s"
  using assms
proof (induction v pn len lvl s arbitrary: fs rule: unpackFrames.induct)
  case (1 v pn len lvl s)
  show ?case
  proof (cases s)
    case Nil
    with 1(3) show ?thesis by simp
  next
    case (Cons t s')
    show ?thesis
    proof (cases "t = 0")
      case True
      with 1(1) [OF Cons True] 1(3,4) Cons show ?thesis by fastforce
    next
      case False
      with 1(3) Cons obtain f r gs where f: "parseFrame v pn len lvl t s = Inr (f, r)"
        and gs: "unpackFrames v pn len lvl r = Inr gs" "fs = f # gs"
        by (auto simp: bind_r_eq_Inr split: sum.splits)
      have "length r < length s" using parseFrame_shorter [OF f] .
      then show ?thesis
        using 1(2) [OF Cons False] f gs parseFrame_accepted [OF f 1(4)] 1(4) Cons by fastforce
    qed
  qed
qed

section \<open>Errors\<close>

text \<open>The error codes with which a frame of a given type can be refused.\<close>

definition frameErrorCodes :: "byte \<Rightarrow> ErrorCode set" where
  "frameErrorCodes t =
     (if t AND 0x80 = 0x80 then {InvalidStreamData, UnencryptedStreamData}
      else if t AND 0xc0 = 0x40 then {InvalidAckData}
      else if t AND 0xe0 = 0x20 then {InternalError}
      else if t = 1 then {InvalidRstStreamData}
      else if t = 2 then {InvalidConnectionCloseData}
      else if t = 3 then {InvalidGoawayData}
      else if t = 4 then {InvalidWindowUpdateData}
      else if t = 5 then {InvalidBlockedData}
      else if t = 6 then {InvalidStopWaitingData}
      else if t = 7 then {}
      else if t \<in> {0x10, 0x11, 0x12} then {InternalError}
      else {InvalidFrameData})"

lemma as_eq_Inl [simp]: "as c p s = Inl e \<longleftrightarrow> p s = Inl e"
  by (auto simp: as_def bind_p_apply split: sum.splits)

lemma wrap_eq_Inl: "wrap code p s = Inl e \<longleftrightarrow> (\<exists>e'. p s = Inl e' \<and> e = QuicErrorWrap code e')"
  by (auto simp: wrap_def split: sum.splits)

text \<open>The parsers that are not wrapped fail with errors that carry no code.\<close>

definition plain :: "'a parser \<Rightarrow> bool" where
  "plain p \<longleftrightarrow> (\<forall>s e. p s = Inl e \<longrightarrow> errorCodeOf (ToQuicError e) = InternalError)"

lemma plain_ReadByte: "plain ReadByte"
  by (auto simp: plain_def elim: ReadByte.elims)

lemma plain_intros:
  "plain (return_p x)" "plain (ReadFull n)" "plain (fail_p (ErrNew m))"
  "plain p \<Longrightarrow> (\<And>x. plain (f x)) \<Longrightarrow> plain (bind_p p f)"
  "plain p \<Longrightarrow> plain q \<Longrightarrow> plain (if c then p else q)"
  "(\<And>a b. plain (g a b)) \<Longrightarrow> plain (case ab of (a, b) \<Rightarrow> g a b)"
  by (auto simp: plain_def bind_p_apply ReadFull_def split: sum.splits list.splits prod.splits if_splits)

lemma plain_ReadUintN: "plain (ReadUintN bo n)"
proof -
  have "plain (littleEndian_ReadUintN_loop i k res)" for i k res
    by (induction k arbitrary: i res)
      (simp_all only: littleEndian_ReadUintN_loop.simps, (intro plain_intros plain_ReadByte | assumption)+)
  moreover have "plain (bigEndian_ReadUintN_loop k res)" for k res
    by (induction k arbitrary: res)
      (simp_all only: bigEndian_ReadUintN_loop.simps, (intro plain_intros plain_ReadByte | assumption)+)
  ultimately show ?thesis
    by (cases bo) (simp_all add: littleEndian_ReadUintN_def bigEndian_ReadUintN_def)
qed

lemma plain_ReadUint16: "plain (ReadUint16 bo)"
  by (cases bo) (simp_all only: ReadUint16.simps littleEndian_ReadUint16_def bigEndian_ReadUint16_def,
    (intro plain_intros plain_ReadByte)+)

lemmas plain_readers = plain_ReadByte plain_ReadUintN plain_ReadUint16

lemma plain_ParseClosePathFrame: "plain (ParseClosePathFrame v)"
proof -
  have blocks: "plain (parseAckBlocks (ReadUintN bo len) n b c rs)" for bo len n b c rs
    by (induction n arbitrary: b c rs)
      (simp_all only: parseAckBlocks.simps Let_def, (intro plain_intros plain_readers | assumption)+)
  show ?thesis
    unfolding ParseClosePathFrame_def parseAckRanges_def Let_def ErrInvalidAckRanges_def ErrInvalidFirstAckRange_def
    by (intro plain_intros plain_readers blocks)
qed

lemma plain_ParsePathsFrame: "plain (ParsePathsFrame v)"
proof -
  have "plain (parsePaths bo numIPs n)" for bo numIPs n
    by (induction n)
      (simp_all only: parsePaths.simps parseAddr_def readUfloat16_def, (intro plain_intros plain_readers | assumption)+)
  then show ?thesis
    unfolding ParsePathsFrame_def ErrTooManyPaths_def ErrTooManyIPs_def by (intro plain_intros plain_readers)
qed

lemma plain_ParseAddAddressFrame: "plain (ParseAddAddressFrame v)"
proof -
  have "plain (readBytes n)" for n
    by (induction n) (simp_all only: readBytes.simps, (intro plain_intros plain_readers | assumption)+)
  then show ?thesis
    unfolding ParseAddAddressFrame_def ErrUnknownIPVersion_def by (intro plain_intros plain_readers)
qed

lemma parseFrame_error:
  assumes "parseFrame v pn len lvl t (t # s) = Inl e"
  shows "errorCodeOf (ToQuicError e) \<in> frameErrorCodes t"
proof -
  have "ParsePingFrame v (t # s) = Inr (PingFrame, s)" by (simp add: ParsePingFrame_def bind_p_apply)
  moreover have "errorCodeOf (ToQuicError e) = InternalError"
    if "ParseAddAddressFrame v (t # s) = Inl e \<or> ParseClosePathFrame v (t # s) = Inl e \<or> ParsePathsFrame v (t # s) = Inl e"
    using that plain_ParseAddAddressFrame plain_ParseClosePathFrame plain_ParsePathsFrame
    unfolding plain_def by blast
  ultimately show ?thesis
    using assms unfolding parseFrame_def frameErrorCodes_def
    by (auto simp: wrap_eq_Inl bind_p_apply split: if_splits sum.splits)
qed

lemma unpackFrames_error:
  assumes "unpackFrames v pn len lvl s = Inl e"
  shows "\<exists>pre t post. s = pre @ t # post \<and> t \<noteq> 0 \<and> parseFrame v pn len lvl t (t # post) = Inl e"
  using assms
proof (induction v pn len lvl s rule: unpackFrames.induct)
  case (1 v pn len lvl s)
  show ?case
  proof (cases s)
    case (Cons t s')
    show ?thesis
    proof (cases "t = 0")
      case True
      with 1(1) [OF Cons True] 1(3) Cons obtain pre u post where
        "s' = pre @ u # post" "u \<noteq> 0" "parseFrame v pn len lvl u (u # post) = Inl e" by auto
      with Cons show ?thesis by (metis append_Cons)
    next
      case False
      show ?thesis
      proof (cases "parseFrame v pn len lvl t s")
        case (Inl e')
        with 1(3) Cons False show ?thesis by (auto intro!: exI [of _ "[]"])
      next
        case (Inr x)
        obtain f r where x: "x = (f, r)" by fastforce
        with 1(3) Cons False Inr have "unpackFrames v pn len lvl r = Inl e" by (auto simp: bind_r_eq_Inl)
        with 1(2) [OF Cons False Inr x [symmetric]] Inr Cons obtain pre u post where
          "r = pre @ u # post" "u \<noteq> 0" "parseFrame v pn len lvl u (u # post) = Inl e" by auto
        moreover obtain pre' where "s = pre' @ r"
          using parseFrame_taken Inr x by blast
        ultimately show ?thesis by (metis append.assoc)
      qed
    qed
  qed (use 1(3) in simp)
qed

section \<open>The properties\<close>

text \<open>
  C10. a payload survives the wire. If every frame of a payload can be sent, at a given encryption level in
  the packet that the header numbers, the frames are written one after the other, and whatever the AEAD
  opens to these bytes and any number of padding bytes, \<^verbatim>\<open>Unpack\<close> returns the frames the peer is to
  receive, in order.
\<close>

theorem unpack_roundtrip:
  assumes "\<forall>f \<in> set fs. wf_Frame (PublicHeader.PacketNumber hdr) (PublicHeader.PacketNumberLen hdr) lvl f [0]" "fs \<noteq> []"
  shows "\<exists>bs. writeFrames (Frame_Write p6 v now) fs = Inr bs \<and> length bs = sum_list (map frame_length fs) \<and>
    (\<forall>Open data aad n. Open data (PublicHeader.PacketNumber hdr) aad = Inr (bs @ replicate n 0, lvl) \<longrightarrow>
       Unpack Open v aad hdr data = Inr \<lparr>encryptionLevel = lvl, frames = map (receivedFrame now) fs\<rparr>)"
proof -
  let ?pn = "PublicHeader.PacketNumber hdr" and ?len = "PublicHeader.PacketNumberLen hdr"
  from packet.payload_padded [OF assms(1), of p6 v now] obtain bs where
    bs: "writeFrames (Frame_Write p6 v now) fs = Inr bs" "length bs = sum_list (map frame_length fs)"
    and unpack: "\<And>n. unpackFrames v ?pn ?len lvl (bs @ replicate n 0) = Inr (map (receivedFrame now) fs)" by blast
  have "bs \<noteq> []" using unpack [of 0] assms(2) by auto
  with bs unpack show ?thesis by (auto simp: Unpack_def)
qed

definition exampleFrames :: "Frame list" where
  "exampleFrames = [PingF PingFrame, WindowUpdateF \<lparr>WindowUpdateFrame.StreamID = 5, ByteOffset = 65536\<rparr>,
     StreamF \<lparr>StreamFrame.StreamID = 5, FinBit = True, DataLenPresent = True, Offset = 10, Data = [1, 2, 3]\<rparr>]"

definition exampleNumbered :: PublicHeader where
  "exampleNumbered = \<lparr>Raw = [], ConnectionID = 77, PublicHeader.PathID = 0, VersionFlag = False, ResetFlag = False,
     TruncateConnectionID = False, MultipathFlag = False, PublicHeader.PacketNumberLen = PacketNumberLen2, PublicHeader.PacketNumber = 1337,
     VersionNumber = 0, SupportedVersions = [], DiversificationNonce = []\<rparr>"

theorem unpack_roundtrip_witness:
  "\<exists>bs. writeFrames (Frame_Write (\<lambda>_. None) Version39 0) exampleFrames = Inr bs \<and>
    Unpack (\<lambda>data pn aad. Inr (rev data, EncryptionForwardSecure)) Version39 [] exampleNumbered (rev (bs @ [0, 0])) =
      Inr \<lparr>encryptionLevel = EncryptionForwardSecure, frames = exampleFrames\<rparr>"
proof -
  have "\<forall>f \<in> set exampleFrames. wf_Frame (PublicHeader.PacketNumber exampleNumbered)
      (PublicHeader.PacketNumberLen exampleNumbered) EncryptionForwardSecure f [0]"
    by (simp add: exampleFrames_def exampleNumbered_def sendable_def less_EncryptionLevel_def)
  from unpack_roundtrip [OF this, of "\<lambda>_. None" Version39 0] obtain bs where
    bs: "writeFrames (Frame_Write (\<lambda>_. None) Version39 0) exampleFrames = Inr bs" and
    unpack: "\<And>Open data aad n. Open data (PublicHeader.PacketNumber exampleNumbered) aad =
        Inr (bs @ replicate n 0, EncryptionForwardSecure) \<Longrightarrow>
      Unpack Open Version39 aad exampleNumbered data =
        Inr \<lparr>encryptionLevel = EncryptionForwardSecure, frames = map (receivedFrame 0) exampleFrames\<rparr>"
    by (auto simp: exampleFrames_def)
  have "bs @ [0, 0] = bs @ replicate 2 0" by (simp add: numeral_2_eq_2)
  moreover have "map (receivedFrame 0) exampleFrames = exampleFrames" by (simp add: exampleFrames_def)
  ultimately show ?thesis using bs unpack by (metis rev_rev_ident)
qed

text \<open>
  C11. only acceptable frames reach the session. For every payload of at most 65535 bytes and every
  behaviour of the AEAD: if \<^verbatim>\<open>Unpack\<close> returns frames, stream data below encryption is only for the crypto
  stream, no stream frame is empty without FIN or ends beyond the largest offset, ACK and CLOSE_PATH ranges
  are well-formed, a STOP_WAITING frame names a packet up to this one, the lists of a PATHS frame agree with
  its counters, and there are at most as many frames as bytes.
\<close>

theorem unpack_sound:
  assumes "Unpack Open v aad hdr data = Inr p"
    and "Open data (PublicHeader.PacketNumber hdr) aad = Inr (decrypted, lvl)" "length decrypted \<le> 65535"
  shows "encryptionLevel p = lvl \<and> decrypted \<noteq> [] \<and> length (frames p) \<le> length decrypted \<and>
    (\<forall>f \<in> set (frames p). acceptable (PublicHeader.PacketNumber hdr) lvl f)"
  using assms by (auto simp: Unpack_def bind_r_eq_Inr dest: unpackFrames_accepted split: if_splits)

theorem unpack_sound_witness:
  "\<exists>p. Unpack (\<lambda>data pn aad. Inr (data, EncryptionUnencrypted)) Version39 [] exampleNumbered [0xA0, 1, 0, 2, 7, 8] = Inr p \<and>
     frames p \<noteq> [] \<and> (\<forall>f \<in> set (frames p). acceptable 1337 EncryptionUnencrypted f)"
proof -
  let ?f = "StreamF \<lparr>StreamFrame.StreamID = 1, FinBit = False, DataLenPresent = True, Offset = 0, Data = [7, 8]\<rparr>"
  have "ParseStreamFrame Version39 [0xA0, 1, 0, 2, 7, 8] =
      Inr (\<lparr>StreamFrame.StreamID = 1, FinBit = False, DataLenPresent = True, Offset = 0, Data = [7, 8]\<rparr>, [])" by code_simp
  then have run: "Unpack (\<lambda>data pn aad. Inr (data, EncryptionUnencrypted)) Version39 [] exampleNumbered [0xA0, 1, 0, 2, 7, 8] =
      Inr \<lparr>encryptionLevel = EncryptionUnencrypted, frames = [?f]\<rparr>"
    by (simp add: Unpack_def parseFrame_def bind_p_apply wrap_def)
  moreover have "PublicHeader.PacketNumber exampleNumbered = 1337" by (simp add: exampleNumbered_def)
  ultimately show ?thesis using unpack_sound [OF run] by simp
qed

text \<open>
  C32. which error a malformed packet is refused with. A payload that does not decrypt is a decryption
  failure and an empty one a missing payload; otherwise the error is that of one frame of the payload, and
  its code is the one for that frame's type. ADD_ADDRESS, CLOSE_PATH and PATHS frames have no code of their
  own: however they are malformed, the connection is closed with an internal error.
\<close>

theorem unpack_error_codes:
  assumes "Unpack Open v aad hdr data = Inl e"
  shows "case Open data (PublicHeader.PacketNumber hdr) aad of
      Inl err \<Rightarrow> errorCodeOf (ToQuicError e) = DecryptionFailure
    | Inr (decrypted, lvl) \<Rightarrow>
        if decrypted = [] then errorCodeOf (ToQuicError e) = MissingPayload
        else \<exists>pre t post. decrypted = pre @ t # post \<and> t \<noteq> 0 \<and>
          parseFrame v (PublicHeader.PacketNumber hdr) (PublicHeader.PacketNumberLen hdr) lvl t (t # post) = Inl e \<and>
          errorCodeOf (ToQuicError e) \<in> frameErrorCodes t"
proof (cases "Open data (PublicHeader.PacketNumber hdr) aad")
  case (Inl err)
  with assms show ?thesis by (auto simp: Unpack_def)
next
  case (Inr x)
  obtain decrypted lvl where x: "x = (decrypted, lvl)" by fastforce
  with assms Inr have "decrypted = [] \<and> e = Code MissingPayload \<or> decrypted \<noteq> [] \<and>
      unpackFrames v (PublicHeader.PacketNumber hdr) (PublicHeader.PacketNumberLen hdr) lvl decrypted = Inl e"
    by (auto simp: Unpack_def bind_r_eq_Inl split: if_splits)
  then show ?thesis
  proof (elim disjE conjE)
    assume "decrypted \<noteq> []"
      "unpackFrames v (PublicHeader.PacketNumber hdr) (PublicHeader.PacketNumberLen hdr) lvl decrypted = Inl e"
    with unpackFrames_error [OF this(2)] show ?thesis
      unfolding Inr x sum.case prod.case by (simp, metis parseFrame_error)
  qed (simp add: Inr x)
qed

theorem unpack_error_codes_witness:
  "\<exists>e. Unpack (\<lambda>data pn aad. Inr (data, EncryptionForwardSecure)) Version39 [] exampleNumbered [0x11] = Inl e \<and>
    errorCodeOf (ToQuicError e) = InternalError"
proof -
  let ?open = "\<lambda>data pn aad. Inr (data, EncryptionForwardSecure)"
  have "parseFrame Version39 pn len lvl 0x11 [0x11] = Inl EOF" for pn len lvl
    by (simp add: parseFrame_def as_def bind_p_apply ParseClosePathFrame_def Let_def)
  then have e: "Unpack ?open Version39 [] exampleNumbered [0x11] = Inl EOF" by (simp add: Unpack_def)
  have "frameErrorCodes 0x11 = {InternalError}" by (simp add: frameErrorCodes_def)
  with unpack_error_codes [OF e] e show ?thesis by (auto simp: Cons_eq_append_conv)
qed

end
