(* ===== verification/ReceivedPackets.thy ===== *)
theory ReceivedPackets
  imports AckFrame ClosePathFrame Qerr
begin

text \<open>
  The receiver's memory of packet numbers: \<^verbatim>\<open>ackhandler/received_packet_history.go\<close>, a list of disjoint
  intervals that refines a set of packet numbers, and \<^verbatim>\<open>ackhandler/received_packet_handler.go\<close>, which decides
  when to send an ACK and builds it. The linked list is a list whose head is \<^verbatim>\<open>Back()\<close>, the highest interval.
\<close>

section \<open>The history\<close>

record PacketInterval =
  Start :: PacketNumber
  End :: PacketNumber

record receivedPacketHistory =
  ranges :: "PacketInterval list"
  lowestInReceivedPacketNumbers :: PacketNumber

definition DefaultMaxCongestionWindow :: nat where "DefaultMaxCongestionWindow = 2500"
definition MaxTrackedReceivedAckRanges :: nat where "MaxTrackedReceivedAckRanges = DefaultMaxCongestionWindow"

definition errTooManyOutstandingReceivedAckRanges :: error where
  "errTooManyOutstandingReceivedAckRanges =
     QuicError TooManyOutstandingReceivedPackets ''Too many outstanding received ACK ranges''"

definition newReceivedPacketHistory :: receivedPacketHistory where
  "newReceivedPacketHistory = \<lparr>ranges = [], lowestInReceivedPacketNumbers = 0\<rparr>"

text \<open>An extended interval \<open>el\<close> may now touch the one before it.\<close>

fun mergeWithPrev :: "PacketInterval \<Rightarrow> PacketInterval list \<Rightarrow> PacketInterval list" where
  "mergeWithPrev el [] = [el]"
| "mergeWithPrev el (prev # rest) =
     (if End prev + 1 = Start el then prev\<lparr>End := End el\<rparr> # rest else el # prev # rest)"

text \<open>The loop from \<^verbatim>\<open>Back()\<close> on; past \<^verbatim>\<open>Front()\<close> a new interval is inserted before it.\<close>

fun receivedLoop :: "PacketNumber \<Rightarrow> PacketInterval list \<Rightarrow> PacketInterval list" where
  "receivedLoop p [] = [\<lparr>Start = p, End = p\<rparr>]"
| "receivedLoop p (el # rest) =
     (if p \<ge> Start el \<and> p \<le> End el then el # rest
      else if End el = p - 1 then mergeWithPrev (el\<lparr>End := p\<rparr>) rest
      else if Start el = p + 1 then mergeWithPrev (el\<lparr>Start := p\<rparr>) rest
      else if p > End el then \<lparr>Start = p, End = p\<rparr> # el # rest
      else el # receivedLoop p rest)"

definition history_ReceivedPacket :: "PacketNumber \<Rightarrow> receivedPacketHistory \<Rightarrow> error + receivedPacketHistory" where
  "history_ReceivedPacket p h =
     (if length (ranges h) \<ge> MaxTrackedReceivedAckRanges then Inl errTooManyOutstandingReceivedAckRanges
      else if length (ranges h) = 0 then Inr (h\<lparr>ranges := [\<lparr>Start = p, End = p\<rparr>]\<rparr>)
      else Inr (h\<lparr>ranges := receivedLoop p (ranges h)\<rparr>))"

text \<open>The loop of \<^verbatim>\<open>DeleteUpTo\<close> goes the other way, from \<^verbatim>\<open>Front()\<close> to \<^verbatim>\<open>Back()\<close>.\<close>

fun deleteLoop :: "PacketNumber \<Rightarrow> PacketInterval list \<Rightarrow> PacketInterval list" where
  "deleteLoop p [] = []"
| "deleteLoop p (el # rest) =
     (if p \<ge> Start el \<and> p < End el then el\<lparr>Start := p + 1\<rparr> # deleteLoop p rest
      else if End el \<le> p then deleteLoop p rest
      else el # rest)"

definition DeleteUpTo :: "PacketNumber \<Rightarrow> receivedPacketHistory \<Rightarrow> receivedPacketHistory" where
  "DeleteUpTo p h =
     h\<lparr>lowestInReceivedPacketNumbers := max (lowestInReceivedPacketNumbers h) (p + 1),
       ranges := rev (deleteLoop p (rev (ranges h)))\<rparr>"

definition GetAckRanges :: "receivedPacketHistory \<Rightarrow> AckRange list" where
  "GetAckRanges h = map (\<lambda>r. \<lparr>First = Start r, Last = End r\<rparr>) (ranges h)"

definition GetHighestAckRange :: "receivedPacketHistory \<Rightarrow> AckRange" where
  "GetHighestAckRange h =
     (case ranges h of [] \<Rightarrow> \<lparr>First = 0, Last = 0\<rparr> | r # _ \<Rightarrow> \<lparr>First = Start r, Last = End r\<rparr>)"

section \<open>The handler\<close>

text \<open>
  \<open>now\<close> is the value of \<^verbatim>\<open>time.Now()\<close> in a call. The ACK frame is returned with the new state; indexing the
  last element of an empty slice of ranges panics.
\<close>

definition AckSendDelay :: Duration where "AckSendDelay = 25 * 1000000"
definition MaxPacketsReceivedBeforeAckSend :: int where "MaxPacketsReceivedBeforeAckSend = 20"
definition RetransmittablePacketsBeforeAck :: int where "RetransmittablePacketsBeforeAck = 2"

definition errInvalidPacketNumber :: error where
  "errInvalidPacketNumber = ErrNew ''ReceivedPacketHandler: Invalid packet number''"

record receivedPacketHandler =
  largestObserved :: PacketNumber
  lowerLimit :: PacketNumber
  largestObservedReceivedTime :: Time
  packetHistory :: receivedPacketHistory
  ackSendDelay :: Duration
  packetsReceivedSinceLastAck :: int
  retransmittablePacketsReceivedSinceLastAck :: int
  ackQueued :: bool
  ackAlarm :: Time
  lastAck :: "AckFrame option"
  version :: VersionNumber
  packets :: u64

definition NewReceivedPacketHandler :: "VersionNumber \<Rightarrow> receivedPacketHandler" where
  "NewReceivedPacketHandler v = \<lparr>largestObserved = 0, lowerLimit = 0, largestObservedReceivedTime = zeroTime,
     packetHistory = newReceivedPacketHistory, ackSendDelay = AckSendDelay, packetsReceivedSinceLastAck = 0,
     retransmittablePacketsReceivedSinceLastAck = 0, ackQueued = False, ackAlarm = zeroTime, lastAck = None,
     version = v, packets = 0\<rparr>"

definition GetStatistics :: "receivedPacketHandler \<Rightarrow> u64" where
  "GetStatistics h = packets h"

definition ackConditions :: "PacketNumber \<Rightarrow> receivedPacketHandler \<Rightarrow> bool" where
  "ackConditions packetNumber h \<longleftrightarrow>
     ackQueued h \<or>
     lastAck h = None \<or>
     (version h < Version39 \<and> packetsReceivedSinceLastAck h \<ge> MaxPacketsReceivedBeforeAckSend) \<or>
     (case lastAck h of None \<Rightarrow> False
      | Some ack \<Rightarrow> packetNumber < AckFrame.LargestAcked ack \<or> First (GetHighestAckRange (packetHistory h)) > AckFrame.LargestAcked ack)"

definition maybeQueueAck :: "Time \<Rightarrow> PacketNumber \<Rightarrow> bool \<Rightarrow> receivedPacketHandler \<Rightarrow> receivedPacketHandler" where
  "maybeQueueAck now packetNumber shouldInstigateAck h =
     (let h = h\<lparr>packetsReceivedSinceLastAck := packetsReceivedSinceLastAck h + 1\<rparr>;
          h = (if shouldInstigateAck
               then h\<lparr>retransmittablePacketsReceivedSinceLastAck := retransmittablePacketsReceivedSinceLastAck h + 1\<rparr>
               else h);
          h = h\<lparr>ackQueued := ackConditions packetNumber h\<rparr>;
          h = (if \<not> ackQueued h \<and> shouldInstigateAck then
                 (if retransmittablePacketsReceivedSinceLastAck h \<ge> RetransmittablePacketsBeforeAck
                  then h\<lparr>ackQueued := True\<rparr>
                  else if ackAlarm h = zeroTime then h\<lparr>ackAlarm := now + ackSendDelay h\<rparr> else h)
               else h)
      in if ackQueued h then h\<lparr>ackAlarm := zeroTime\<rparr> else h)"

definition ReceivedPacket ::
    "Time \<Rightarrow> PacketNumber \<Rightarrow> bool \<Rightarrow> receivedPacketHandler \<Rightarrow> (error option) \<times> receivedPacketHandler" where
  "ReceivedPacket now packetNumber shouldInstigateAck h =
     (if packetNumber = 0 then (Some errInvalidPacketNumber, h)
      else
        let h = h\<lparr>packets := packets h + 1\<rparr>;
            h = (if packetNumber > largestObserved h
                 then h\<lparr>largestObserved := packetNumber, largestObservedReceivedTime := now\<rparr> else h)
        in if packetNumber \<le> lowerLimit h then (None, h)
           else case history_ReceivedPacket packetNumber (packetHistory h) of
                  Inl err \<Rightarrow> (Some err, h)
                | Inr history \<Rightarrow> (None, maybeQueueAck now packetNumber shouldInstigateAck (h\<lparr>packetHistory := history\<rparr>)))"

definition SetLowerLimit :: "PacketNumber \<Rightarrow> receivedPacketHandler \<Rightarrow> receivedPacketHandler" where
  "SetLowerLimit p h = h\<lparr>lowerLimit := p, packetHistory := DeleteUpTo p (packetHistory h)\<rparr>"

definition indexPanic :: error where "indexPanic = Panic ''runtime error: index out of range''"

definition GetAckFrame ::
    "Time \<Rightarrow> receivedPacketHandler \<Rightarrow> error + (AckFrame option \<times> receivedPacketHandler)" where
  "GetAckFrame now h =
     (if \<not> ackQueued h \<and> (ackAlarm h = zeroTime \<or> ackAlarm h > now) then Inr (None, h)
      else
        let ackRanges = GetAckRanges (packetHistory h)
        in if ackRanges = [] then Inl indexPanic
           else
             let ack = \<lparr>AckFrame.PathID = 0, LargestAcked = largestObserved h, LowestAcked = First (last ackRanges),
                   AckRanges = (if length ackRanges > 1 then ackRanges else []),
                   PacketReceivedTime = largestObservedReceivedTime h, DelayTime = 0\<rparr>
             in Inr (Some ack, h\<lparr>lastAck := Some ack, ackAlarm := zeroTime, ackQueued := False,
                  packetsReceivedSinceLastAck := 0, retransmittablePacketsReceivedSinceLastAck := 0\<rparr>))"

definition GetClosePathFrame :: "receivedPacketHandler \<Rightarrow> error + ClosePathFrame" where
  "GetClosePathFrame h =
     (let ackRanges = GetAckRanges (packetHistory h)
      in if ackRanges = [] then Inl indexPanic
         else Inr \<lparr>ClosePathFrame.PathID = 0, LargestAcked = largestObserved h, LowestAcked = First (last ackRanges),
                AckRanges = (if length ackRanges > 1 then ackRanges else [])\<rparr>)"

definition GetAlarmTimeout :: "receivedPacketHandler \<Rightarrow> Time" where
  "GetAlarmTimeout h = ackAlarm h"

section \<open>Intervals as a set\<close>

definition interval_ok :: "PacketInterval \<Rightarrow> bool" where
  "interval_ok r \<longleftrightarrow> 1 \<le> unat (Start r) \<and> unat (Start r) \<le> unat (End r)"

definition intervals_wf :: "PacketInterval list \<Rightarrow> bool" where
  "intervals_wf rs \<longleftrightarrow> sorted_wrt (\<lambda>a b. unat (End b) + 1 < unat (Start a)) rs \<and> (\<forall>r \<in> set rs. interval_ok r)"

definition members :: "PacketInterval list \<Rightarrow> PacketNumber set" where
  "members rs = {p. \<exists>r \<in> set rs. unat (Start r) \<le> unat p \<and> unat p \<le> unat (End r)}"

lemma members_simps [simp]:
  "members [] = {}"
  "members (r # rs) = {p. unat (Start r) \<le> unat p \<and> unat p \<le> unat (End r)} \<union> members rs"
  "members (rs @ rs') = members rs \<union> members rs'"
  "members (rev rs) = members rs"
  by (auto simp: members_def)

lemma intervals_wf_Nil [simp]: "intervals_wf []"
  by (simp add: intervals_wf_def)

lemma intervals_wf_Cons [simp]:
  "intervals_wf (r # rs) \<longleftrightarrow> interval_ok r \<and> (\<forall>r' \<in> set rs. unat (End r') + 1 < unat (Start r)) \<and> intervals_wf rs"
  by (auto simp: intervals_wf_def)

lemma unat_next:
  assumes "unat (x :: u64) < unat (y :: u64)"
  shows "unat (x + 1) = unat x + 1"
proof (rule trans [OF unat_add_noov])
  have "unat y < 2 ^ LENGTH(64)" by (rule unsigned_less)
  then show "unat x + unat (1 :: u64) < 2 ^ LENGTH(64)" using assms unfolding unat_1 by linarith
qed simp

lemma unat_pred: "p \<noteq> 0 \<Longrightarrow> unat (p - 1 :: u64) = unat p - 1"
  by (simp add: unat_sub word_le_nat_alt unat_eq_0 Suc_le_eq flip: unat_gt_0)

text \<open>An interval above all others, possibly touching the next one, is merged with it.\<close>

lemma mergeWithPrev_wf:
  assumes "interval_ok el" "intervals_wf rest" "\<forall>r \<in> set rest. unat (End r) < unat (Start el)"
  shows "intervals_wf (mergeWithPrev el rest)" "members (mergeWithPrev el rest) = members (el # rest)"
    "r \<in> set (mergeWithPrev el rest) \<Longrightarrow> unat (End r) \<le> unat (End el)"
proof -
  have touch: "End prev + 1 = Start el \<longleftrightarrow> unat (End prev) + 1 = unat (Start el)"
    if "unat (End prev) < unat (Start el)" for prev
    using unat_next [OF that] by (simp add: word_unat_eq_iff)
  have gap: "unat (End prev) + 1 < unat (Start el)"
    if "unat (End prev) < unat (Start el)" "End prev + 1 \<noteq> Start el" for prev
    using that touch by (metis Suc_eq_plus1 Suc_lessI)
  show "intervals_wf (mergeWithPrev el rest)"
    using assms by (cases rest) (auto simp: interval_ok_def touch intro: gap)
  show "members (mergeWithPrev el rest) = members (el # rest)"
    using assms by (cases rest) (auto simp: interval_ok_def touch)
  show "r \<in> set (mergeWithPrev el rest) \<Longrightarrow> unat (End r) \<le> unat (End el)"
    using assms by (cases rest) (auto simp: interval_ok_def split: if_splits)
qed

lemma receivedLoop_wf:
  assumes "p \<noteq> 0" "intervals_wf rs"
  shows "intervals_wf (receivedLoop p rs) \<and> members (receivedLoop p rs) = insert p (members rs) \<and>
    (\<forall>n. unat p \<le> n \<and> (\<forall>r \<in> set rs. unat (End r) \<le> n) \<longrightarrow> (\<forall>r \<in> set (receivedLoop p rs). unat (End r) \<le> n))"
  using assms(2)
proof (induction rs)
  case Nil
  have "1 \<le> unat p" using assms(1) by (simp add: Suc_le_eq flip: unat_gt_0)
  then show ?case by (auto simp: interval_ok_def word_unat_eq_iff)
next
  case (Cons el rest)
  have p: "1 \<le> unat p" using assms(1) by (simp add: Suc_le_eq flip: unat_gt_0)
  have el: "interval_ok el" "intervals_wf rest" and below: "\<forall>r \<in> set rest. unat (End r) + 1 < unat (Start el)"
    using Cons.prems by auto
  consider (inside) "unat (Start el) \<le> unat p" "unat p \<le> unat (End el)"
    | (extend_end) "unat p = unat (End el) + 1" | (extend_start) "unat (Start el) = unat p + 1"
    | (above) "unat (End el) + 1 < unat p" | (beneath) "unat p + 1 < unat (Start el)" by linarith
  then show ?case
  proof cases
    case inside
    then show ?thesis using Cons.prems by (auto simp: word_le_nat_alt)
  next
    case extend_end
    have "receivedLoop p (el # rest) = mergeWithPrev (el\<lparr>End := p\<rparr>) rest"
      using extend_end unat_pred [OF assms(1)] by (simp add: word_le_nat_alt word_unat_eq_iff)
    moreover have "interval_ok (el\<lparr>End := p\<rparr>)" using el extend_end by (simp add: interval_ok_def)
    moreover have "members (el\<lparr>End := p\<rparr> # rest) = insert p (members (el # rest))"
      using el extend_end by (auto simp: interval_ok_def word_unat_eq_iff)
    ultimately show ?thesis
      using mergeWithPrev_wf [of "el\<lparr>End := p\<rparr>" rest] el below by (fastforce intro: order_trans)
  next
    case extend_start
    have "receivedLoop p (el # rest) = mergeWithPrev (el\<lparr>Start := p\<rparr>) rest"
      using extend_start unat_pred [OF assms(1)] unat_next [of p "Start el"] el(1)
      by (auto simp: word_le_nat_alt word_unat_eq_iff interval_ok_def)
    moreover have "interval_ok (el\<lparr>Start := p\<rparr>)" using el extend_start p by (simp add: interval_ok_def)
    moreover have "members (el\<lparr>Start := p\<rparr> # rest) = insert p (members (el # rest))"
      using el extend_start by (auto simp: interval_ok_def word_unat_eq_iff)
    moreover have "\<forall>r \<in> set rest. unat (End r) < unat p" using below extend_start by auto
    ultimately show ?thesis
      using mergeWithPrev_wf [of "el\<lparr>Start := p\<rparr>" rest] el by (fastforce intro: order_trans)
  next
    case above
    have "Start el \<noteq> p + 1"
      using above el(1) unat_succ [of p] by (cases "p = - 1") (auto simp: interval_ok_def)
    then have "receivedLoop p (el # rest) = \<lparr>Start = p, End = p\<rparr> # el # rest"
      using above unat_pred [OF assms(1)] el(1)
      by (auto simp: word_le_nat_alt word_less_nat_alt word_unat_eq_iff interval_ok_def)
    then show ?thesis using above el below p by (auto simp: interval_ok_def word_unat_eq_iff)
  next
    case beneath
    have "receivedLoop p (el # rest) = el # receivedLoop p rest"
      using beneath unat_pred [OF assms(1)] unat_next [of p "Start el"] el(1)
      by (auto simp: word_le_nat_alt word_less_nat_alt word_unat_eq_iff interval_ok_def)
    moreover have "unat p \<le> unat (Start el) - 2" "\<forall>r \<in> set rest. unat (End r) \<le> unat (Start el) - 2"
      using below beneath by auto
    then have "\<forall>r \<in> set (receivedLoop p rest). unat (End r) \<le> unat (Start el) - 2" using Cons.IH el(2) by blast
    ultimately show ?thesis using Cons.IH el beneath by fastforce
  qed
qed

text \<open>Deleting works on the intervals in ascending order.\<close>

lemma intervals_wf_rev:
  "intervals_wf (rev rs) \<longleftrightarrow> sorted_wrt (\<lambda>a b. unat (End a) + 1 < unat (Start b)) rs \<and> (\<forall>r \<in> set rs. interval_ok r)"
  by (simp add: intervals_wf_def sorted_wrt_rev)

lemma deleteLoop_wf:
  assumes "sorted_wrt (\<lambda>a b. unat (End a) + 1 < unat (Start b)) rs" "\<forall>r \<in> set rs. interval_ok r"
  shows "sorted_wrt (\<lambda>a b. unat (End a) + 1 < unat (Start b)) (deleteLoop p rs)"
    "\<forall>r \<in> set (deleteLoop p rs). interval_ok r"
    "members (deleteLoop p rs) = {q \<in> members rs. unat p < unat q}"
proof -
  have "sorted_wrt (\<lambda>a b. unat (End a) + 1 < unat (Start b)) (deleteLoop p rs) \<and>
    (\<forall>r \<in> set (deleteLoop p rs). interval_ok r) \<and> members (deleteLoop p rs) = {q \<in> members rs. unat p < unat q} \<and>
    (\<forall>r \<in> set (deleteLoop p rs). \<exists>r' \<in> set rs. unat (Start r') \<le> unat (Start r))"
    using assms
  proof (induction rs)
    case (Cons el rest)
    then have IH: "sorted_wrt (\<lambda>a b. unat (End a) + 1 < unat (Start b)) (deleteLoop p rest)"
        "\<forall>r \<in> set (deleteLoop p rest). interval_ok r" "members (deleteLoop p rest) = {q \<in> members rest. unat p < unat q}"
        "\<forall>r \<in> set (deleteLoop p rest). \<exists>r' \<in> set rest. unat (Start r') \<le> unat (Start r)"
      and el: "interval_ok el" "\<forall>r \<in> set rest. unat (End el) + 1 < unat (Start r)" by auto
    have above: "unat (End el) + 1 < unat (Start r)" if "r \<in> set (deleteLoop p rest)" for r
      using IH(4) el(2) that by fastforce
    consider (cut) "unat (Start el) \<le> unat p" "unat p < unat (End el)" | (drop) "unat (End el) \<le> unat p"
      | (stop) "unat p < unat (Start el)" by linarith
    then show ?case
    proof cases
      case cut
      then have p: "unat (p + 1) = unat p + 1" by (intro unat_next)
      have "deleteLoop p (el # rest) = el\<lparr>Start := p + 1\<rparr> # deleteLoop p rest"
        using cut by (simp add: word_le_nat_alt word_less_nat_alt)
      moreover have "interval_ok (el\<lparr>Start := p + 1\<rparr>)" using cut p by (simp add: interval_ok_def)
      ultimately show ?thesis using IH above cut p by auto
    next
      case drop
      then show ?thesis using IH el above by (auto simp: word_le_nat_alt word_less_nat_alt)
    next
      case stop
      have "deleteLoop p (el # rest) = el # rest" using stop el(1)
        by (auto simp: word_le_nat_alt word_less_nat_alt interval_ok_def)
      moreover have "unat p < unat q" if "q \<in> members (el # rest)" for q
        using that stop el Cons.prems by (fastforce simp: members_def interval_ok_def)
      ultimately show ?thesis using Cons.prems by auto
    qed
  qed simp
  then show "sorted_wrt (\<lambda>a b. unat (End a) + 1 < unat (Start b)) (deleteLoop p rs)"
    "\<forall>r \<in> set (deleteLoop p rs). interval_ok r"
    "members (deleteLoop p rs) = {q \<in> members rs. unat p < unat q}" by blast+
qed

section \<open>The history refines a set of packet numbers\<close>

definition wf_history :: "receivedPacketHistory \<Rightarrow> bool" where
  "wf_history h \<longleftrightarrow> intervals_wf (ranges h)"

definition received_set :: "receivedPacketHistory \<Rightarrow> PacketNumber set" where
  "received_set h = members (ranges h)"

text \<open>
  The contract of the history towards the handler: a set of packet numbers that grows by one packet at a
  time, unless it is full, and shrinks from below, and that can be listed as ranges, highest first.
\<close>

locale packet_set =
  fixes empty :: 'h and receive :: "PacketNumber \<Rightarrow> 'h \<Rightarrow> error + 'h" and delete :: "PacketNumber \<Rightarrow> 'h \<Rightarrow> 'h"
    and list_ranges :: "'h \<Rightarrow> AckRange list" and inv :: "'h \<Rightarrow> bool" and elems :: "'h \<Rightarrow> PacketNumber set"
  assumes empty: "inv empty" "elems empty = {}"
    and receive: "inv h \<Longrightarrow> p \<noteq> 0 \<Longrightarrow> receive p h = Inr h' \<Longrightarrow> inv h' \<and> elems h' = insert p (elems h)"
    and delete: "inv h \<Longrightarrow> inv (delete p h) \<and> elems (delete p h) = {q \<in> elems h. p < q}"
    and listed: "inv h \<Longrightarrow> wf_ranges (list_ranges h) \<and> range_set (list_ranges h) = elems h"
    and zero: "inv h \<Longrightarrow> 0 \<notin> elems h"
begin

lemma list_empty: "inv h \<Longrightarrow> list_ranges h = [] \<longleftrightarrow> elems h = {}"
  using listed [of h] by (cases "list_ranges h") (auto simp: range_set_def wf_ranges_def)

text \<open>The largest and smallest elements are the ends of the list.\<close>

lemma hd_largest:
  assumes "inv h" "m \<in> elems h" "\<forall>q \<in> elems h. q \<le> m"
  shows "Last (hd (list_ranges h)) = m"
proof -
  obtain a rs where l: "list_ranges h = a # rs" using assms list_empty by (cases "list_ranges h") auto
  have wf: "wf_ranges (a # rs)" and elems: "elems h = range_set (a # rs)" using listed [OF assms(1)] l by auto
  have "Last a \<in> elems h" unfolding elems using wf by (auto simp: range_set_def wf_ranges_def)
  moreover from assms(2) obtain r where "r \<in> set (a # rs)" "m \<le> Last r" unfolding elems by (auto simp: range_set_def)
  ultimately have "Last a \<le> m" "m \<le> Last a" using wf_ranges_hd_greatest [OF wf] assms(3) by (blast, blast intro: order_trans)
  then show ?thesis using l by simp
qed

text \<open>An ACK of the ranges, as the handler builds it, acknowledges exactly the set.\<close>

lemma acked:
  assumes "inv h" "m \<in> elems h" "\<forall>q \<in> elems h. q \<le> m"
  defines "rs \<equiv> list_ranges h"
  shows "wf_ack m (First (last rs)) (if length rs > 1 then rs else [])"
    "acked_set m (First (last rs)) (if length rs > 1 then rs else []) = elems h"
    "First (last rs) \<noteq> 0"
proof -
  have "elems h \<noteq> {}" using assms(2) by blast
  then have wf: "wf_ranges rs" "range_set rs = elems h" "rs \<noteq> []" "Last (hd rs) = m"
    using listed [OF assms(1)] list_empty [OF assms(1)] hd_largest [OF assms(1-3)] unfolding rs_def by blast+
  have "wf_ack m (First (last rs)) (if length rs > 1 then rs else []) \<and>
    acked_set m (First (last rs)) (if length rs > 1 then rs else []) = elems h"
  proof (cases "length rs > 1")
    case True
    moreover from True have "2 \<le> length rs" by simp
    ultimately show ?thesis using wf by (simp add: wf_ack_def acked_set_def)
  next
    case False
    with wf(3) obtain a where a: "rs = [a]" by (cases rs) simp_all
    have "First a \<le> m" "{First a .. m} = elems h"
      using wf(1,4) unfolding wf(2) [symmetric] a by (simp_all add: range_set_def atLeastAtMost_def atLeast_def atMost_def Collect_conj_eq)
    then show ?thesis unfolding a by (simp add: wf_ack_def acked_set_def)
  qed
  then show "wf_ack m (First (last rs)) (if length rs > 1 then rs else [])"
    "acked_set m (First (last rs)) (if length rs > 1 then rs else []) = elems h" by blast+
  have "last rs \<in> set rs" "First (last rs) \<le> Last (last rs)" using wf(1,3) by (simp_all add: wf_ranges_def)
  then have "First (last rs) \<in> elems h" unfolding wf(2) [symmetric] range_set_def by blast
  then show "First (last rs) \<noteq> 0" using zero [OF assms(1)] by auto
qed

end

lemma history_listed:
  assumes "wf_history h"
  shows "wf_ranges (GetAckRanges h)" "range_set (GetAckRanges h) = received_set h"
  using assms
  by (auto simp: wf_history_def intervals_wf_def wf_ranges_def GetAckRanges_def sorted_wrt_map interval_ok_def
    word_le_nat_alt range_set_def received_set_def members_def)

interpretation history: packet_set newReceivedPacketHistory history_ReceivedPacket DeleteUpTo GetAckRanges
  wf_history received_set
proof unfold_locales
  show "wf_history newReceivedPacketHistory" "received_set newReceivedPacketHistory = {}"
    by (simp_all add: wf_history_def received_set_def newReceivedPacketHistory_def)
next
  fix h p h'
  assume h: "wf_history h" "p \<noteq> 0" "history_ReceivedPacket p h = Inr h'"
  then have "ranges h' = receivedLoop p (ranges h)"
    by (auto simp: history_ReceivedPacket_def split: if_splits)
  then show "wf_history h' \<and> received_set h' = insert p (received_set h)"
    using receivedLoop_wf [of p "ranges h"] h by (simp add: wf_history_def received_set_def)
next
  fix h p
  assume "wf_history h"
  then have "intervals_wf (rev (rev (ranges h)))" by (simp add: wf_history_def)
  then show "wf_history (DeleteUpTo p h) \<and> received_set (DeleteUpTo p h) = {q \<in> received_set h. p < q}"
    unfolding intervals_wf_rev using deleteLoop_wf [of "rev (ranges h)" p]
    by (simp add: wf_history_def received_set_def DeleteUpTo_def intervals_wf_rev word_less_nat_alt)
next
  show "wf_ranges (GetAckRanges h) \<and> range_set (GetAckRanges h) = received_set h" if "wf_history h" for h
    using history_listed [OF that] by blast
next
  show "0 \<notin> received_set h" if "wf_history h" for h
    using that by (auto simp: wf_history_def received_set_def members_def intervals_wf_def interval_ok_def)
qed

section \<open>Runs of the handler\<close>

text \<open>
  A run of the handler, with the time of its last event and the set of packets it is to acknowledge: those
  received above the lower limit. The session sets the lower limit to the least unacked packet of a
  STOP_WAITING frame minus one, which is below the number of the packet that carried it.
\<close>

inductive handler_run :: "VersionNumber \<Rightarrow> Time \<Rightarrow> PacketNumber set \<Rightarrow> receivedPacketHandler \<Rightarrow> bool" for v where
  start: "0 \<le> t \<Longrightarrow> handler_run v t {} (NewReceivedPacketHandler v)"
| packet: "handler_run v t R h \<Longrightarrow> t \<le> now \<Longrightarrow> ReceivedPacket now p shouldInstigateAck h = (None, h') \<Longrightarrow>
    handler_run v now (if p \<le> lowerLimit h then R else insert p R) h'"
| limit: "handler_run v t R h \<Longrightarrow> p < largestObserved h \<Longrightarrow>
    handler_run v t {q \<in> R. p < q} (SetLowerLimit p h)"
| ack: "handler_run v t R h \<Longrightarrow> t \<le> now \<Longrightarrow> GetAckFrame now h = Inr (a, h') \<Longrightarrow> handler_run v now R h'"

definition handler_inv :: "Time \<Rightarrow> PacketNumber set \<Rightarrow> receivedPacketHandler \<Rightarrow> bool" where
  "handler_inv t R h \<longleftrightarrow> 0 \<le> t \<and> wf_history (packetHistory h) \<and> received_set (packetHistory h) = R \<and>
     (\<forall>q \<in> R. q \<le> largestObserved h) \<and> (if largestObserved h = 0 then R = {} else largestObserved h \<in> R) \<and>
     (lowerLimit h = 0 \<or> lowerLimit h < largestObserved h) \<and>
     ((ackQueued h \<or> ackAlarm h \<noteq> zeroTime) \<longrightarrow> R \<noteq> {}) \<and>
     (ackAlarm h \<le> t + AckSendDelay) \<and> ackSendDelay h = AckSendDelay \<and>
     (ackQueued h \<or> retransmittablePacketsReceivedSinceLastAck h < RetransmittablePacketsBeforeAck) \<and>
     (ackQueued h \<or> ackAlarm h \<noteq> zeroTime \<or> retransmittablePacketsReceivedSinceLastAck h = 0)"

lemma maybeQueueAck_fields [simp]:
  "largestObserved (maybeQueueAck now p b h) = largestObserved h"
  "lowerLimit (maybeQueueAck now p b h) = lowerLimit h"
  "packetHistory (maybeQueueAck now p b h) = packetHistory h"
  "ackSendDelay (maybeQueueAck now p b h) = ackSendDelay h"
  by (simp_all add: maybeQueueAck_def Let_def)

lemma maybeQueueAck_alarm:
  fixes p b
  assumes "ackAlarm h \<le> now + ackSendDelay h" "0 < now + ackSendDelay h"
    and "ackQueued h \<or> retransmittablePacketsReceivedSinceLastAck h < RetransmittablePacketsBeforeAck"
    and "ackQueued h \<or> ackAlarm h \<noteq> zeroTime \<or> retransmittablePacketsReceivedSinceLastAck h = 0"
  defines "h' \<equiv> maybeQueueAck now p b h"
  shows "ackAlarm h' \<le> now + ackSendDelay h"
    "ackQueued h' \<or> retransmittablePacketsReceivedSinceLastAck h' < RetransmittablePacketsBeforeAck"
    "ackQueued h' \<or> ackAlarm h' \<noteq> zeroTime \<or> retransmittablePacketsReceivedSinceLastAck h' = 0"
    "b \<Longrightarrow> ackQueued h' \<or> ackAlarm h' \<noteq> zeroTime"
proof -
  define c where "c h = ackConditions p h" for h
  have c: "ackQueued h \<Longrightarrow> c h" for h by (simp add: c_def ackConditions_def)
  show "ackAlarm h' \<le> now + ackSendDelay h"
    using assms(1,2) by (auto simp: h'_def maybeQueueAck_def Let_def zeroTime_def)
  show "ackQueued h' \<or> retransmittablePacketsReceivedSinceLastAck h' < RetransmittablePacketsBeforeAck"
    using assms(3) c unfolding h'_def maybeQueueAck_def Let_def c_def [symmetric] by auto
  show "ackQueued h' \<or> ackAlarm h' \<noteq> zeroTime \<or> retransmittablePacketsReceivedSinceLastAck h' = 0"
    using assms(2,4) c unfolding h'_def maybeQueueAck_def Let_def c_def [symmetric] by (auto simp: zeroTime_def)
  show "b \<Longrightarrow> ackQueued h' \<or> ackAlarm h' \<noteq> zeroTime"
    using assms(2) unfolding h'_def maybeQueueAck_def Let_def c_def [symmetric] by (auto simp: zeroTime_def)
qed

lemma inv_ReceivedPacket:
  assumes inv: "handler_inv t R h" and "t \<le> now" and recv: "ReceivedPacket now p b h = (None, h')"
  shows "handler_inv now (if p \<le> lowerLimit h then R else insert p R) h'"
    "lowerLimit h < p \<Longrightarrow> b \<Longrightarrow> ackQueued h' \<or> ackAlarm h' \<noteq> zeroTime"
proof -
  have p: "p \<noteq> 0" using recv by (auto simp: ReceivedPacket_def split: if_splits)
  note inv' = inv [unfolded handler_inv_def]
  have "handler_inv now (if p \<le> lowerLimit h then R else insert p R) h' \<and>
    (lowerLimit h < p \<longrightarrow> b \<longrightarrow> ackQueued h' \<or> ackAlarm h' \<noteq> zeroTime)"
  proof (cases "p \<le> lowerLimit h")
    case True
    have "lowerLimit h \<noteq> 0" using True p by (auto simp: word_le_nat_alt unsigned_eq_0_iff)
    then have "\<not> largestObserved h < p" using inv' True by (auto simp: order_less_le_trans not_less)
    then have "h' = h\<lparr>packets := packets h + 1\<rparr>"
      using recv True p by (auto simp: ReceivedPacket_def Let_def split: if_splits)
    then show ?thesis using inv' True \<open>t \<le> now\<close> by (auto simp: handler_inv_def)
  next
    case False
    define h1 where "h1 = (let h = h\<lparr>packets := packets h + 1\<rparr> in if p > largestObserved h
      then h\<lparr>largestObserved := p, largestObservedReceivedTime := now\<rparr> else h)"
    have h1: "packetHistory h1 = packetHistory h" "lowerLimit h1 = lowerLimit h" "ackQueued h1 = ackQueued h"
      "ackAlarm h1 = ackAlarm h" "ackSendDelay h1 = ackSendDelay h"
      "retransmittablePacketsReceivedSinceLastAck h1 = retransmittablePacketsReceivedSinceLastAck h"
      "largestObserved h1 = max (largestObserved h) p"
      by (auto simp: h1_def Let_def max_def)
    from recv False p obtain history where hist: "history_ReceivedPacket p (packetHistory h) = Inr history"
      and h': "h' = maybeQueueAck now p b (h1\<lparr>packetHistory := history\<rparr>)"
      unfolding ReceivedPacket_def Let_def h1_def [unfolded Let_def, symmetric]
      by (auto simp: h1 split: sum.splits if_splits)
    have set: "wf_history history" "received_set history = insert p R"
      using history.receive [OF _ p hist] inv' by auto
    have pos: "0 < now + ackSendDelay h" using inv' \<open>t \<le> now\<close> by (simp add: AckSendDelay_def)
    let ?h2 = "h1\<lparr>packetHistory := history\<rparr>"
    have "ackAlarm ?h2 \<le> now + ackSendDelay ?h2" "0 < now + ackSendDelay ?h2"
      "ackQueued ?h2 \<or> retransmittablePacketsReceivedSinceLastAck ?h2 < RetransmittablePacketsBeforeAck"
      "ackQueued ?h2 \<or> ackAlarm ?h2 \<noteq> zeroTime \<or> retransmittablePacketsReceivedSinceLastAck ?h2 = 0"
      using pos inv' \<open>t \<le> now\<close> by (simp_all add: h1)
    note alarm = maybeQueueAck_alarm [OF this, where p = p and b = b, folded h']
    have "\<forall>q \<in> insert p R. q \<le> max (largestObserved h) p" using inv' by (auto simp: le_max_iff_disj)
    moreover have "if largestObserved h = 0 then R = {} else largestObserved h \<in> R" using inv' by blast
    then have "max (largestObserved h) p \<noteq> 0" "max (largestObserved h) p \<in> insert p R"
      using p by (auto simp: max_def word_le_nat_alt unsigned_eq_0_iff split: if_splits)
    moreover have "lowerLimit h = 0 \<or> lowerLimit h < max (largestObserved h) p" using inv' by (auto simp: less_max_iff_disj)
    moreover have "ackAlarm h' \<le> now + AckSendDelay \<and>
        (ackQueued h' \<or> retransmittablePacketsReceivedSinceLastAck h' < RetransmittablePacketsBeforeAck) \<and>
        (ackQueued h' \<or> ackAlarm h' \<noteq> zeroTime \<or> retransmittablePacketsReceivedSinceLastAck h' = 0) \<and>
        (b \<longrightarrow> ackQueued h' \<or> ackAlarm h' \<noteq> zeroTime)"
      using alarm inv' by (simp add: h1)
    moreover have "largestObserved h' = max (largestObserved h) p" "lowerLimit h' = lowerLimit h"
      "packetHistory h' = history" "ackSendDelay h' = AckSendDelay" "0 \<le> now"
      using inv' \<open>t \<le> now\<close> by (simp_all add: h' h1)
    ultimately show ?thesis using False set by (simp add: handler_inv_def)
  qed
  then show "handler_inv now (if p \<le> lowerLimit h then R else insert p R) h'"
    "lowerLimit h < p \<Longrightarrow> b \<Longrightarrow> ackQueued h' \<or> ackAlarm h' \<noteq> zeroTime" by blast+
qed

lemma inv_SetLowerLimit:
  assumes "handler_inv t R h" "p < largestObserved h"
  shows "handler_inv t {q \<in> R. p < q} (SetLowerLimit p h)"
proof -
  have "largestObserved h \<noteq> 0" using assms(2) by auto
  then have "largestObserved h \<in> {q \<in> R. p < q}" using assms by (simp add: handler_inv_def)
  moreover have "wf_history (DeleteUpTo p (packetHistory h))" "received_set (DeleteUpTo p (packetHistory h)) = {q \<in> R. p < q}"
    using history.delete [of "packetHistory h" p] assms(1) by (simp_all add: handler_inv_def)
  ultimately show ?thesis
    using assms \<open>largestObserved h \<noteq> 0\<close> unfolding handler_inv_def SetLowerLimit_def by (simp, blast)
qed

text \<open>When an ACK is due, there is one, and it acknowledges exactly the set of received packets.\<close>

lemma GetAckFrame_inv:
  assumes inv: "handler_inv t R h" and due: "ackQueued h \<or> ackAlarm h \<noteq> zeroTime \<and> ackAlarm h \<le> now"
  shows "\<exists>ack h'. GetAckFrame now h = Inr (Some ack, h') \<and> wf_ack (AckFrame.LargestAcked ack) (AckFrame.LowestAcked ack) (AckFrame.AckRanges ack) \<and>
    AckFrame.LargestAcked ack = largestObserved h \<and> AckFrame.LowestAcked ack \<noteq> 0 \<and> (\<forall>p. AckFrame_AcksPacket ack p \<longleftrightarrow> p \<in> R) \<and>
    (t \<le> now \<longrightarrow> handler_inv now R h')"
proof -
  let ?rs = "GetAckRanges (packetHistory h)" and ?m = "largestObserved h"
  have h: "wf_history (packetHistory h)" "received_set (packetHistory h) = R" "\<forall>q \<in> R. q \<le> ?m"
    using inv by (simp_all add: handler_inv_def)
  have "R \<noteq> {}" using inv due by (auto simp: handler_inv_def)
  then have m: "?m \<in> R" using inv by (auto simp: handler_inv_def split: if_splits)
  have "?rs \<noteq> []" using history.list_empty [OF h(1)] h(2) \<open>R \<noteq> {}\<close> by simp
  moreover note acked = history.acked [OF h(1), unfolded h(2), OF m h(3)]
  ultimately show ?thesis
    using due inv AcksPacket_acked_set [OF acked(1)] acked
    by (auto simp: GetAckFrame_def Let_def AckFrame_AcksPacket_def handler_inv_def AckSendDelay_def zeroTime_def
      RetransmittablePacketsBeforeAck_def)
qed

lemma inv_GetAckFrame:
  assumes "handler_inv t R h" "t \<le> now" "GetAckFrame now h = Inr (a, h')"
  shows "handler_inv now R h'"
proof (cases "ackQueued h \<or> ackAlarm h \<noteq> zeroTime \<and> ackAlarm h \<le> now")
  case True
  then show ?thesis using GetAckFrame_inv [OF assms(1) True] assms(2,3) by auto
next
  case False
  then have "h' = h" using assms(3) by (auto simp: GetAckFrame_def)
  then show ?thesis using assms(1,2) by (auto simp: handler_inv_def)
qed

lemma handler_run_inv: "handler_run v t R h \<Longrightarrow> handler_inv t R h"
proof (induction rule: handler_run.induct)
  case (start t)
  then show ?case
    by (simp add: handler_inv_def NewReceivedPacketHandler_def history.empty zeroTime_def AckSendDelay_def
      RetransmittablePacketsBeforeAck_def)
qed (simp_all add: inv_ReceivedPacket(1) inv_SetLowerLimit inv_GetAckFrame)

section \<open>The properties\<close>

text \<open>Sequences of operations on the history, and on the set of packet numbers it stands for.\<close>

datatype history_op = Receive PacketNumber | Delete PacketNumber

fun run_history :: "history_op list \<Rightarrow> receivedPacketHistory \<Rightarrow> error + receivedPacketHistory" where
  "run_history [] h = Inr h"
| "run_history (Receive p # ops) h = bind_r (history_ReceivedPacket p h) (run_history ops)"
| "run_history (Delete p # ops) h = run_history ops (DeleteUpTo p h)"

fun run_set :: "history_op list \<Rightarrow> PacketNumber set \<Rightarrow> PacketNumber set" where
  "run_set [] R = R"
| "run_set (Receive p # ops) R = run_set ops (insert p R)"
| "run_set (Delete p # ops) R = run_set ops {q \<in> R. p < q}"

text \<open>
  C5. the packet history refines a set of packet numbers. After any sequence of received packets and
  deletions, in whatever order and with whatever duplicates, the intervals stand for exactly the packets
  received and not deleted since, they are sorted and separated by gaps, and the only way the sequence can fail
  is that there were 2500 intervals.
\<close>

theorem history_refines_set:
  assumes "Receive 0 \<notin> set ops"
  shows "case run_history ops newReceivedPacketHistory of
      Inr h \<Rightarrow> wf_history h \<and> received_set h = run_set ops {} \<and> wf_ranges (GetAckRanges h) \<and>
        range_set (GetAckRanges h) = run_set ops {}
    | Inl e \<Rightarrow> e = errTooManyOutstandingReceivedAckRanges"
proof -
  have "case run_history ops h of
      Inr h' \<Rightarrow> wf_history h' \<and> received_set h' = run_set ops (received_set h)
    | Inl e \<Rightarrow> e = errTooManyOutstandingReceivedAckRanges" if "wf_history h" for h
    using assms that
  proof (induction ops arbitrary: h)
    case (Cons op ops)
    show ?case
    proof (cases op)
      case (Receive p)
      show ?thesis
      proof (cases "history_ReceivedPacket p h")
        case (Inl e)
        then show ?thesis using Receive by (auto simp: history_ReceivedPacket_def split: if_splits)
      next
        case (Inr h')
        then have "wf_history h'" "received_set h' = insert p (received_set h)"
          using history.receive [of h p h'] Cons.prems Receive by auto
        then show ?thesis using Cons.IH [of h'] Cons.prems Receive Inr by (auto split: sum.splits)
      qed
    next
      case (Delete p)
      then show ?thesis using Cons.IH [of "DeleteUpTo p h"] Cons.prems history.delete [of h p]
        by (auto split: sum.splits)
    qed
  qed simp
  from this [OF history.empty(1)] show ?thesis
    using history_listed by (auto simp: history.empty(2) split: sum.splits)
qed

theorem history_refines_set_witness:
  "case run_history [Receive 1, Receive 3, Receive 2, Receive 7, Delete 2] newReceivedPacketHistory of
      Inr h \<Rightarrow> received_set h = {3, 7} | Inl e \<Rightarrow> False"
proof -
  let ?ops = "[Receive 1, Receive 3, Receive 2, Receive 7, Delete 2]"
  have "run_history ?ops newReceivedPacketHistory =
      Inr \<lparr>ranges = [\<lparr>Start = 7, End = 7\<rparr>, \<lparr>Start = 3, End = 3\<rparr>], lowestInReceivedPacketNumbers = 3\<rparr>"
    by code_simp
  moreover have "run_set ?ops {} = {3, 7}" by auto
  ultimately show ?thesis using history_refines_set [of ?ops] by simp
qed

text \<open>
  C16. a retransmittable packet is acknowledged in time. In every run of the handler, once a packet above the
  lower limit that asks for an ACK is accepted, a call of \<^verbatim>\<open>GetAckFrame\<close> at any time from 25 ms later on
  returns an ACK frame, and this frame acknowledges the packet, whatever was received before it.
\<close>

theorem ack_within_delay:
  assumes "handler_run v t R h" "t \<le> now" "ReceivedPacket now p True h = (None, h')" "lowerLimit h < p"
    and "now + AckSendDelay \<le> later"
  shows "\<exists>ack h''. GetAckFrame later h' = Inr (Some ack, h'') \<and> AckFrame_AcksPacket ack p"
proof -
  have inv: "handler_inv t R h" using handler_run_inv [OF assms(1)] .
  have inv': "handler_inv now (insert p R) h'"
    using inv_ReceivedPacket(1) [OF inv assms(2,3)] assms(4) by (simp split: if_splits)
  moreover have "ackQueued h' \<or> ackAlarm h' \<noteq> zeroTime" using inv_ReceivedPacket(2) [OF inv assms(2-4)] by simp
  ultimately have "ackQueued h' \<or> ackAlarm h' \<noteq> zeroTime \<and> ackAlarm h' \<le> later"
    using assms(5) by (auto simp: handler_inv_def)
  from GetAckFrame_inv [OF inv' this] show ?thesis by blast
qed

theorem ack_within_delay_witness:
  "\<exists>h' ack h''. ReceivedPacket 1000 5 True (NewReceivedPacketHandler Version39) = (None, h') \<and>
    GetAckFrame 30000000 h' = Inr (Some ack, h'') \<and> AckFrame_AcksPacket ack 5"
proof -
  let ?h = "NewReceivedPacketHandler Version39"
  obtain h' where h': "ReceivedPacket 1000 5 True ?h = (None, h')"
    by (simp add: ReceivedPacket_def NewReceivedPacketHandler_def newReceivedPacketHistory_def
      history_ReceivedPacket_def MaxTrackedReceivedAckRanges_def DefaultMaxCongestionWindow_def)
  have "handler_run Version39 0 {} ?h" by (intro handler_run.start) simp
  moreover have "lowerLimit ?h < 5" by (simp add: NewReceivedPacketHandler_def)
  ultimately show ?thesis using ack_within_delay [of Version39 0 "{}" ?h 1000 5 h' 30000000] h'
    by (auto simp: AckSendDelay_def)
qed

text \<open>
  C17. at most one retransmittable packet waits. In every run of the handler, while no ACK is queued, at most
  one retransmittable packet has been received since the last ACK and then the alarm is set; the alarm never
  lies more than 25 ms after the last event; an ACK is only due when there are packets to acknowledge, so
  \<^verbatim>\<open>GetAckFrame\<close> never indexes an empty slice.
\<close>

theorem ack_timing_invariant:
  assumes "handler_run v t R h"
  shows "(\<not> ackQueued h \<longrightarrow> retransmittablePacketsReceivedSinceLastAck h \<le> 1 \<and>
      (retransmittablePacketsReceivedSinceLastAck h \<noteq> 0 \<longrightarrow> GetAlarmTimeout h \<noteq> zeroTime)) \<and>
    GetAlarmTimeout h \<le> t + AckSendDelay \<and> (\<forall>now. GetAckFrame now h \<noteq> Inl indexPanic)"
proof -
  have inv: "handler_inv t R h" using handler_run_inv [OF assms] .
  have "GetAckFrame now h \<noteq> Inl indexPanic" for now
  proof (cases "ackQueued h \<or> ackAlarm h \<noteq> zeroTime \<and> ackAlarm h \<le> now")
    case True
    then show ?thesis using GetAckFrame_inv [OF inv True] by auto
  next
    case False
    then show ?thesis by (auto simp: GetAckFrame_def)
  qed
  then show ?thesis
    using inv by (auto simp: handler_inv_def GetAlarmTimeout_def RetransmittablePacketsBeforeAck_def)
qed

text \<open>An example: packet 5 arrives first.\<close>

definition receivedFive :: receivedPacketHandler where
  "receivedFive = snd (ReceivedPacket 1000 5 True (NewReceivedPacketHandler Version39))"

lemma receivedFive_run: "handler_run Version39 1000 {5} receivedFive"
proof -
  let ?h = "NewReceivedPacketHandler Version39"
  have "ReceivedPacket 1000 5 True ?h = (None, receivedFive)"
    by (simp add: receivedFive_def ReceivedPacket_def NewReceivedPacketHandler_def newReceivedPacketHistory_def
      history_ReceivedPacket_def MaxTrackedReceivedAckRanges_def DefaultMaxCongestionWindow_def)
  from handler_run.packet [OF handler_run.start [of 0 Version39] _ this] show ?thesis by (simp add: NewReceivedPacketHandler_def)
qed

theorem ack_timing_invariant_witness:
  "handler_run Version39 1000 {5} receivedFive \<and> GetAlarmTimeout receivedFive \<le> 1000 + AckSendDelay \<and>
   GetAckFrame 2000 receivedFive \<noteq> Inl indexPanic"
  using ack_timing_invariant [OF receivedFive_run] receivedFive_run by simp

text \<open>
  a duplicate is not filtered out. A packet number that is already in the history, and smaller than the
  largest acknowledged one, is accepted again and queues another ACK, although it is not missing.
\<close>

theorem duplicate_queues_ack:
  assumes "p \<in> received_set (packetHistory h)" "wf_history (packetHistory h)" "lowerLimit h < p"
    and "length (ranges (packetHistory h)) < MaxTrackedReceivedAckRanges"
    and "lastAck h = Some ack" "p < AckFrame.LargestAcked ack"
  shows "\<exists>h'. ReceivedPacket now p b h = (None, h') \<and> ackQueued h' \<and>
    received_set (packetHistory h') = received_set (packetHistory h)"
proof -
  have p: "p \<noteq> 0" "\<not> p \<le> lowerLimit h" using assms(3) by auto
  obtain hist where hist: "history_ReceivedPacket p (packetHistory h) = Inr hist"
    using assms(4) by (cases "ranges (packetHistory h) = []") (simp_all add: history_ReceivedPacket_def)
  then have "received_set hist = received_set (packetHistory h)"
    using history.receive [OF assms(2) p(1) hist] assms(1) by auto
  moreover have "ackQueued (maybeQueueAck now p b g)" if "lastAck g = Some ack" for g
    using that assms(6) by (simp add: maybeQueueAck_def ackConditions_def Let_def)
  ultimately show ?thesis using p hist assms(5) by (simp add: ReceivedPacket_def Let_def)
qed

definition exampleHandler :: receivedPacketHandler where
  "exampleHandler = (NewReceivedPacketHandler Version39)\<lparr>largestObserved := 7,
     packetHistory := \<lparr>ranges = [\<lparr>Start = 5, End = 7\<rparr>], lowestInReceivedPacketNumbers = 0\<rparr>,
     lastAck := Some \<lparr>AckFrame.PathID = 0, LargestAcked = 7, LowestAcked = 5, AckRanges = [],
       PacketReceivedTime = 0, DelayTime = 0\<rparr>\<rparr>"

theorem duplicate_queues_ack_witness:
  "\<exists>h'. \<not> ackQueued exampleHandler \<and> ReceivedPacket 9 5 False exampleHandler = (None, h') \<and> ackQueued h'"
proof -
  have "5 \<in> received_set (packetHistory exampleHandler)" "wf_history (packetHistory exampleHandler)"
    "lowerLimit exampleHandler < 5"
    "length (ranges (packetHistory exampleHandler)) < MaxTrackedReceivedAckRanges" "\<not> ackQueued exampleHandler"
    by (simp_all add: exampleHandler_def received_set_def wf_history_def interval_ok_def NewReceivedPacketHandler_def
      MaxTrackedReceivedAckRanges_def DefaultMaxCongestionWindow_def)
  then show ?thesis
    using duplicate_queues_ack [of 5 exampleHandler
      "\<lparr>AckFrame.PathID = 0, LargestAcked = 7, LowestAcked = 5, AckRanges = [], PacketReceivedTime = 0, DelayTime = 0\<rparr>" 9 False]
    by (auto simp: exampleHandler_def)
qed

text \<open>
  C33. what a CLOSE_PATH frame reports. In every run of the handler, the frame acknowledges exactly the packets
  received above the lower limit; on a path on which nothing was received, building it panics.
\<close>

theorem close_path_reports_received:
  assumes "handler_run v t R h"
  shows "if R = {} then GetClosePathFrame h = Inl indexPanic
    else \<exists>f. GetClosePathFrame h = Inr f \<and> ClosePathFrame.LargestAcked f = largestObserved h \<and>
      (\<forall>p. ClosePathFrame_AcksPacket f p \<longleftrightarrow> p \<in> R)"
proof -
  let ?rs = "GetAckRanges (packetHistory h)" and ?m = "largestObserved h"
  have h: "wf_history (packetHistory h)" "received_set (packetHistory h) = R" "\<forall>q \<in> R. q \<le> ?m"
    "if ?m = 0 then R = {} else ?m \<in> R"
    using handler_run_inv [OF assms] by (simp_all add: handler_inv_def)
  have empty: "?rs = [] \<longleftrightarrow> R = {}" using history.list_empty [OF h(1)] h(2) by simp
  have "\<exists>f. GetClosePathFrame h = Inr f \<and> ClosePathFrame.LargestAcked f = ?m \<and>
      (\<forall>p. ClosePathFrame_AcksPacket f p \<longleftrightarrow> p \<in> R)" if "R \<noteq> {}"
  proof -
    have m: "?m \<in> R" using h(4) that by (simp split: if_splits)
    note acked = history.acked [OF h(1), unfolded h(2), OF m h(3)]
    show ?thesis using empty that AcksPacket_acked_set [OF acked(1)] acked(2)
      by (simp add: GetClosePathFrame_def Let_def ClosePathFrame_AcksPacket_def)
  qed
  then show ?thesis using empty by (simp add: GetClosePathFrame_def)
qed

theorem close_path_reports_received_witness:
  "GetClosePathFrame (NewReceivedPacketHandler Version39) = Inl indexPanic \<and>
   (\<exists>f. GetClosePathFrame receivedFive = Inr f \<and> (\<forall>p. ClosePathFrame_AcksPacket f p \<longleftrightarrow> p = 5))"
  using close_path_reports_received [OF handler_run.start [of 0 Version39]] close_path_reports_received [OF receivedFive_run] by auto

end
