(* ===== verification/FrameSorter.thy ===== *)
theory FrameSorter
  imports StreamFrame
begin

text \<open>
  The receive buffer of a stream, \<^verbatim>\<open>stream_frame_sorter.go\<close>: the frames queued by offset, the gaps in the
  received data and the read position. Whatever the order and overlap of the frames pushed, the frames popped
  give the stream's bytes in order and without loss; the FIN bit of a frame that is cut is another matter.
\<close>

section \<open>Definitions\<close>

record ByteInterval =
  Start :: ByteCount
  End :: ByteCount

record streamFrameSorter =
  queuedFrames :: "ByteCount \<Rightarrow> StreamFrame option"
  readPosition :: ByteCount
  gaps :: "ByteInterval list"

definition MaxStreamFrameSorterGaps :: nat where "MaxStreamFrameSorterGaps = 2500"

definition errTooManyGapsInReceivedStreamData :: error where
  "errTooManyGapsInReceivedStreamData = ErrNew ''Too many gaps in received StreamFrame data''"
definition errDuplicateStreamData :: error where
  "errDuplicateStreamData = ErrNew ''Duplicate Stream Data''"
definition errEmptyStreamData :: error where
  "errEmptyStreamData = ErrNew ''Stream Data empty''"
definition errNoGap :: error where
  "errNoGap = ErrNew ''StreamFrameSorter BUG: no gap found''"
definition errNoEndGap :: error where
  "errNoEndGap = ErrNew ''StreamFrameSorter BUG: no end gap found''"

definition newStreamFrameSorter :: streamFrameSorter where
  "newStreamFrameSorter = \<lparr>queuedFrames = Map.empty, readPosition = 0, gaps = [\<lparr>Start = 0, End = MaxByteCount\<rparr>]\<rparr>"

text \<open>A frame at the offset of a queued frame keeps only what goes beyond it.\<close>

definition cutQueued :: "streamFrameSorter \<Rightarrow> StreamFrame \<Rightarrow> error + StreamFrame" where
  "cutQueued s frame =
     (case queuedFrames s (Offset frame) of
        None \<Rightarrow> Inr frame
      | Some oldFrame \<Rightarrow>
          if DataLen frame \<le> DataLen oldFrame then Inl errDuplicateStreamData
          else Inr (frame\<lparr>Data := drop (unat (DataLen oldFrame)) (Data frame),
                 Offset := Offset frame + DataLen oldFrame\<rparr>))"

text \<open>The first gap the frame may touch, with the gaps before and after it.\<close>

fun findGap :: "ByteCount \<Rightarrow> ByteCount \<Rightarrow> ByteInterval list \<Rightarrow>
    error + (ByteInterval list \<times> ByteInterval \<times> ByteInterval list)" where
  "findGap start stop [] = Inl errNoGap"
| "findGap start stop (gap # gs) =
     (if stop \<le> Start gap then Inl errDuplicateStreamData
      else if stop > Start gap \<and> start \<le> End gap then Inr ([], gap, gs)
      else bind_r (findGap start stop gs) (\<lambda>(before, g, after). Inr (gap # before, g, after)))"

text \<open>
  The loop over \<^verbatim>\<open>endGap\<close>: the queue, the current end gap, whether it is the first gap itself, whether it is
  still in the list, and the gaps after it.
\<close>

record endGapState =
  queue :: "ByteCount \<Rightarrow> StreamFrame option"
  endGap :: ByteInterval
  isGap :: bool
  inList :: bool
  after :: "ByteInterval list"

fun endGapLoop :: "ByteCount \<Rightarrow> (ByteCount \<Rightarrow> StreamFrame option) \<Rightarrow> bool \<Rightarrow> ByteInterval \<Rightarrow>
    ByteInterval list \<Rightarrow> (error option) \<times> endGapState" where
  "endGapLoop stop q first eg [] =
     ((if stop \<ge> End eg then Some errNoEndGap else None),
      \<lparr>queue = q, endGap = eg, isGap = first, inList = True, after = []\<rparr>)"
| "endGapLoop stop q first eg (nextEndGap # gs) =
     (if stop \<ge> End eg then
        (if stop \<le> Start nextEndGap
         then (None, \<lparr>queue = q, endGap = eg, isGap = first, inList = first, after = nextEndGap # gs\<rparr>)
         else endGapLoop stop (q(End eg := None)) False nextEndGap gs)
      else (None, \<lparr>queue = q, endGap = eg, isGap = first, inList = True, after = nextEndGap # gs\<rparr>))"

text \<open>
  What becomes of \<^verbatim>\<open>gap\<close> and, where it is another one, \<^verbatim>\<open>endGap\<close>: the gaps in their place. The end gap is in
  the list exactly if \<^verbatim>\<open>end\<close> lies before its end.
\<close>

definition adjustGaps :: "ByteCount \<Rightarrow> ByteCount \<Rightarrow> ByteInterval \<Rightarrow> endGapState \<Rightarrow> ByteInterval list" where
  "adjustGaps start stop gap st =
     (let eg = endGap st; kept = (if \<not> isGap st \<and> inList st then [eg] else []) in
      if start = Start gap then
        (if isGap st then
           (if stop \<ge> End gap then [] else if stop < End eg then [gap\<lparr>Start := stop\<rparr>] else [gap])
         else (if stop \<ge> End gap then [] else [gap]) @
              (if stop < End eg then map (\<lambda>g. g\<lparr>Start := stop\<rparr>) kept else kept))
      else if stop = End eg then gap\<lparr>End := start\<rparr> # kept
      else if isGap st then [gap\<lparr>End := start\<rparr>, \<lparr>Start = stop, End = End gap\<rparr>]
      else gap\<lparr>End := start\<rparr> # map (\<lambda>g. g\<lparr>Start := stop\<rparr>) kept)"

definition pushFrame :: "StreamFrame \<Rightarrow> streamFrameSorter \<Rightarrow> (error option) \<times> streamFrameSorter" where
  "pushFrame frame s =
     (let start = Offset frame; stop = Offset frame + DataLen frame in
      case findGap start stop (gaps s) of
        Inl e \<Rightarrow> (Some e, s)
      | Inr (before, gap, after_gap) \<Rightarrow>
          let add = (if start < Start gap then Start gap - start else 0);
              frame = frame\<lparr>Offset := Offset frame + add, Data := drop (unat add) (Data frame)\<rparr>;
              start = start + add
          in
          (case endGapLoop stop (queuedFrames s) True gap after_gap of
             (Some e, st) \<Rightarrow>
               (Some e, s\<lparr>queuedFrames := queue st,
                  gaps := before @ gap # (if isGap st then [] else [endGap st]) @ after st\<rparr>)
           | (None, st) \<Rightarrow>
               let cutLen = (if stop > End (endGap st) then stop - End (endGap st) else 0);
                   frame = frame\<lparr>Data := take (unat (DataLen frame - cutLen)) (Data frame)\<rparr>;
                   stop = stop - cutLen;
                   gs = before @ adjustGaps start stop gap st @ after st
               in if length gs > MaxStreamFrameSorterGaps
                  then (Some errTooManyGapsInReceivedStreamData, s\<lparr>queuedFrames := queue st, gaps := gs\<rparr>)
                  else (None, s\<lparr>queuedFrames := (queue st)(Offset frame \<mapsto> frame), gaps := gs\<rparr>)))"

definition Push :: "StreamFrame \<Rightarrow> streamFrameSorter \<Rightarrow> (error option) \<times> streamFrameSorter" where
  "Push frame s =
     (if DataLen frame = 0 then
        (if FinBit frame then (None, s\<lparr>queuedFrames := (queuedFrames s)(Offset frame \<mapsto> frame)\<rparr>)
         else (Some errEmptyStreamData, s))
      else
        case cutQueued s frame of
          Inl e \<Rightarrow> (Some e, s)
        | Inr frame \<Rightarrow> pushFrame frame s)"

definition Head :: "streamFrameSorter \<Rightarrow> StreamFrame option" where
  "Head s = queuedFrames s (readPosition s)"

definition Pop :: "streamFrameSorter \<Rightarrow> StreamFrame option \<times> streamFrameSorter" where
  "Pop s =
     (case Head s of
        None \<Rightarrow> (None, s)
      | Some frame \<Rightarrow>
          (Some frame, s\<lparr>readPosition := readPosition s + DataLen frame,
             queuedFrames := (queuedFrames s)(Offset frame := None)\<rparr>))"

section \<open>Gaps\<close>

abbreviation gs :: "ByteInterval \<Rightarrow> nat" where "gs g \<equiv> unat (Start g)"
abbreviation ge :: "ByteInterval \<Rightarrow> nat" where "ge g \<equiv> unat (End g)"

definition gaps_wf :: "ByteInterval list \<Rightarrow> bool" where
  "gaps_wf l \<longleftrightarrow> sorted_wrt (\<lambda>a b. ge a < gs b) l \<and> (\<forall>g \<in> set l. gs g < ge g)"

text \<open>The positions of the stream that have not been received.\<close>

definition missing :: "ByteInterval list \<Rightarrow> nat set" where
  "missing l = {x. \<exists>g \<in> set l. gs g \<le> x \<and> x < ge g}"

lemma missing_simps [simp]:
  "missing [] = {}" "missing (g # l) = {gs g ..< ge g} \<union> missing l" "missing (l @ l') = missing l \<union> missing l'"
  by (auto simp: missing_def)

lemma gaps_wf_simps [simp]:
  "gaps_wf []" "gaps_wf (g # l) \<longleftrightarrow> gs g < ge g \<and> (\<forall>h \<in> set l. ge g < gs h) \<and> gaps_wf l"
  by (auto simp: gaps_wf_def)

lemma gaps_wf_append: "gaps_wf (l @ l') \<longleftrightarrow> gaps_wf l \<and> gaps_wf l' \<and> (\<forall>g \<in> set l. \<forall>h \<in> set l'. ge g < gs h)"
  by (auto simp: gaps_wf_def sorted_wrt_append)

lemma findGap_found:
  assumes "findGap start stop l = Inr (before, gap, aft)"
  shows "l = before @ gap # aft" "\<forall>g \<in> set before. ge g < unat start" "gs gap < unat stop" "unat start \<le> ge gap"
proof -
  have "l = before @ gap # aft \<and> (\<forall>g \<in> set before. ge g < unat start) \<and> gs gap < unat stop \<and> unat start \<le> ge gap"
    using assms
    by (induction l arbitrary: before)
      (auto simp: bind_r_eq_Inr not_le word_le_nat_alt word_less_nat_alt split: if_splits)
  then show "l = before @ gap # aft" "\<forall>g \<in> set before. ge g < unat start" "gs gap < unat stop" "unat start \<le> ge gap"
    by blast+
qed

lemma findGap_refused:
  assumes "findGap start stop l = Inl e" "gaps_wf l"
  shows "e = errDuplicateStreamData \<and> {unat start ..< unat stop} \<inter> missing l = {} \<or>
    e = errNoGap \<and> (\<forall>g \<in> set l. ge g < unat start)"
  using assms
proof (induction l)
  case (Cons g l)
  show ?case
  proof (cases "stop \<le> Start g")
    case True
    then have "{unat start ..< unat stop} \<inter> missing (g # l) = {}"
      using Cons.prems(2) by (fastforce simp: word_le_nat_alt missing_def)
    then show ?thesis using Cons.prems(1) True by simp
  next
    case False
    then have "ge g < unat start" "findGap start stop l = Inl e"
      using Cons.prems(1) by (auto simp: bind_r_eq_Inl word_le_nat_alt word_less_nat_alt split: if_splits)
    with Cons.IH Cons.prems(2) show ?thesis by fastforce
  qed
qed simp

text \<open>
  The loop passes over the gaps that end before the frame does: the queued frames right after them are
  dropped, and so are the gaps; the rest of the list lies behind the frame.
\<close>

lemma endGapLoop_found:
  assumes "endGapLoop stop q first eg l = (None, st)" "gaps_wf (eg # l)" "gs eg < unat stop"
  shows "\<exists>passed. eg # l = passed @ endGap st # after st \<and> isGap st = (first \<and> passed = []) \<and>
    inList st = (isGap st \<or> stop < End (endGap st)) \<and>
    queue st = (\<lambda>x. if x \<in> End ` set passed then None else q x) \<and>
    gs (endGap st) < unat stop \<and> (\<forall>h \<in> set (after st). unat stop \<le> gs h)"
  using assms
proof (induction l arbitrary: q first eg)
  case Nil
  then show ?case by (auto simp: not_le split: if_splits)
next
  case (Cons g l)
  consider (before_end) "\<not> End eg \<le> stop" | (between) "End eg \<le> stop" "stop \<le> Start g"
    | (beyond) "End eg \<le> stop" "\<not> stop \<le> Start g" by blast
  then show ?case
  proof cases
    case before_end
    then have "\<forall>h \<in> set (g # l). unat stop \<le> gs h"
      using Cons.prems(2) by (auto simp: word_le_nat_alt not_le)
    moreover have "st = \<lparr>queue = q, endGap = eg, isGap = first, inList = True, after = g # l\<rparr>"
      using before_end Cons.prems(1) by simp
    ultimately show ?thesis using before_end Cons.prems(3) by (intro exI [of _ "[]"]) (simp add: not_le)
  next
    case between
    then have "\<forall>h \<in> set (g # l). unat stop \<le> gs h"
      using Cons.prems(2) by (fastforce simp: word_le_nat_alt)
    moreover have "st = \<lparr>queue = q, endGap = eg, isGap = first, inList = first, after = g # l\<rparr>"
      using between Cons.prems(1) by simp
    ultimately show ?thesis using between Cons.prems(3) by (intro exI [of _ "[]"]) (auto dest: leD)
  next
    case beyond
    then have "endGapLoop stop (q(End eg := None)) False g l = (None, st)" "gs g < unat stop"
      using Cons.prems(1) by (auto simp: word_le_nat_alt)
    from Cons.IH [OF this(1) _ this(2)] Cons.prems(2) obtain passed where
      "g # l = passed @ endGap st # after st" "\<not> isGap st" "inList st = (stop < End (endGap st))"
      "queue st = (\<lambda>x. if x \<in> End ` set passed then None else (q(End eg := None)) x)"
      "gs (endGap st) < unat stop" "\<forall>h \<in> set (after st). unat stop \<le> gs h" by auto
    then show ?thesis by (intro exI [of _ "eg # passed"]) auto
  qed
qed

lemma endGapLoop_refused:
  assumes "endGapLoop stop q first eg l = (Some e, st)"
  shows "e = errNoEndGap \<and> ge (last (eg # l)) \<le> unat stop"
  using assms by (induction l arbitrary: q first eg) (auto simp: word_le_nat_alt split: if_splits)

text \<open>What is left of the first and the last gap the frame touches.\<close>

lemma adjustGaps_rest:
  assumes "gs gap \<le> unat start" "unat start < ge gap" "unat stop \<le> ge (endGap st)" "unat start < unat stop"
    and "isGap st \<Longrightarrow> endGap st = gap" "\<not> isGap st \<Longrightarrow> ge gap < unat stop" "inList st = (isGap st \<or> stop < End (endGap st))"
  shows "adjustGaps start stop gap st =
    (if gs gap < unat start then [\<lparr>Start = Start gap, End = start\<rparr>] else []) @
    (if unat stop < ge (endGap st) then [\<lparr>Start = stop, End = End (endGap st)\<rparr>] else [])"
proof -
  have upd: "g\<lparr>Start := x\<rparr> = \<lparr>Start = x, End = End g\<rparr>" "g\<lparr>End := x\<rparr> = \<lparr>Start = Start g, End = x\<rparr>" for g :: ByteInterval and x
    by (cases g; simp)+
  have eq: "start = Start gap \<longleftrightarrow> \<not> gs gap < unat start" "stop = End (endGap st) \<longleftrightarrow> \<not> unat stop < ge (endGap st)"
    "stop < End (endGap st) \<longleftrightarrow> unat stop < ge (endGap st)" "End gap \<le> stop \<longleftrightarrow> ge gap \<le> unat stop"
    using assms(1,3) by (auto simp: word_unat_eq_iff word_less_nat_alt word_le_nat_alt)
  show ?thesis
  proof (cases "isGap st")
    case True
    then show ?thesis using assms(2,3,5) unfolding adjustGaps_def Let_def eq upd by (auto simp: word_unat_eq_iff)
  next
    case False
    then show ?thesis using assms(6,7) unfolding adjustGaps_def Let_def eq upd by simp
  qed
qed

section \<open>Tilings\<close>

text \<open>The queued frames from position \<open>a\<close> on cover everything up to \<open>b\<close>, one after the other.\<close>

inductive tiled :: "(ByteCount \<Rightarrow> StreamFrame option) \<Rightarrow> nat \<Rightarrow> nat \<Rightarrow> bool" for q where
  tiled_refl: "tiled q a a"
| tiled_step: "q (of_nat a) = Some f \<Longrightarrow> Data f \<noteq> [] \<Longrightarrow> tiled q (a + length (Data f)) b \<Longrightarrow> tiled q a b"

inductive_cases tiledE: "tiled q a b"

lemma tiled_le: "tiled q a b \<Longrightarrow> a \<le> b"
  by (induction rule: tiled.induct) auto

lemma tiled_trans: "tiled q a b \<Longrightarrow> tiled q b c \<Longrightarrow> tiled q a c"
proof (induction rule: tiled.induct)
  case (tiled_step a f b)
  from tiled_step.IH [OF tiled_step.prems] show ?case
    by (rule tiled.tiled_step [of q a f, OF tiled_step(1,2)])
qed

lemma tiled_cong:
  assumes "tiled q a b" "\<And>x. a \<le> x \<Longrightarrow> x < b \<Longrightarrow> q' (of_nat x) = q (of_nat x)"
  shows "tiled q' a b"
  using assms
proof (induction rule: tiled.induct)
  case (tiled_step a f b)
  have "a < b" using tiled_le [OF tiled_step(3)] tiled_step(2) by (cases "Data f") auto
  then show ?case using tiled_step by (intro tiled.tiled_step [of q' a f]) auto
qed (rule tiled_refl)

lemma tiled_one: "q (of_nat a) = Some f \<Longrightarrow> Data f \<noteq> [] \<Longrightarrow> b = a + length (Data f) \<Longrightarrow> tiled q a b"
  using tiled_step [of q a f b] tiled_refl [of q b] by simp

text \<open>Between the gaps everything is tiled.\<close>

fun blocks_tiled :: "(ByteCount \<Rightarrow> StreamFrame option) \<Rightarrow> nat \<Rightarrow> ByteInterval list \<Rightarrow> bool" where
  "blocks_tiled q a [] \<longleftrightarrow> True"
| "blocks_tiled q a (g # l) \<longleftrightarrow> tiled q a (gs g) \<and> blocks_tiled q (ge g) l"

definition lastEnd :: "nat \<Rightarrow> ByteInterval list \<Rightarrow> nat" where
  "lastEnd a l = (if l = [] then a else ge (last l))"

lemma blocks_tiled_append: "blocks_tiled q a (l @ l') \<longleftrightarrow> blocks_tiled q a l \<and> blocks_tiled q (lastEnd a l) l'"
  by (induction l arbitrary: a) (auto simp: lastEnd_def)

lemma blocks_tiled_cong:
  assumes "blocks_tiled q a l" "gaps_wf l"
    and "\<And>x. a \<le> x \<Longrightarrow> \<exists>g \<in> set l. x < gs g \<Longrightarrow> q' (of_nat x) = q (of_nat x)"
  shows "blocks_tiled q' a l"
  using assms
proof (induction l arbitrary: a)
  case (Cons g l)
  have t: "tiled q a (gs g)" "blocks_tiled q (ge g) l" and wf: "gs g < ge g" "gaps_wf l" using Cons.prems(1,2) by simp_all
  have ag: "a \<le> ge g" using tiled_le [OF t(1)] wf(1) by linarith
  have "blocks_tiled q' (ge g) l"
  proof (rule Cons.IH [OF t(2) wf(2)])
    fix x assume "ge g \<le> x" and "\<exists>h \<in> set l. x < gs h"
    then show "q' (of_nat x) = q (of_nat x)" using ag by (intro Cons.prems(3)) (linarith, fastforce)
  qed
  moreover have "tiled q' a (gs g)"
    by (rule tiled_cong [OF t(1)], rule Cons.prems(3)) simp_all
  ultimately show ?case by simp
qed simp

text \<open>After every gap but the last there is a frame with data.\<close>

lemma gap_end_queued:
  assumes "blocks_tiled q a (l @ g # h # l')" "gaps_wf (l @ g # h # l')"
  shows "\<exists>f. q (End g) = Some f \<and> Data f \<noteq> []"
proof -
  have "tiled q (ge g) (gs h)" "ge g < gs h" using assms by (auto simp: blocks_tiled_append gaps_wf_append)
  then show ?thesis by (cases rule: tiledE) auto
qed

lemma blocks_tiled_extend: "tiled q a b \<Longrightarrow> blocks_tiled q b l \<Longrightarrow> blocks_tiled q a l"
  by (cases l) (auto intro: tiled_trans)

lemma blocks_tiled_fill:
  assumes "tiled q p (gs gap)" "tiled q (unat start) (unat stop)" "blocks_tiled q (ge eg) l"
    and "gs gap \<le> unat start" "unat stop \<le> ge eg"
  shows "blocks_tiled q p ((if gs gap < unat start then [\<lparr>Start = Start gap, End = start\<rparr>] else []) @
    (if unat stop < ge eg then [\<lparr>Start = stop, End = End eg\<rparr>] else []) @ l)"
proof -
  have rest: "blocks_tiled q a ((if unat stop < ge eg then [\<lparr>Start = stop, End = End eg\<rparr>] else []) @ l)"
    if "tiled q a (unat stop)" for a
    using that assms(3,5) by (auto intro: blocks_tiled_extend)
  show ?thesis
  proof (cases "gs gap < unat start")
    case True
    then show ?thesis using assms(1) rest [OF assms(2)] by simp
  next
    case False
    then have "gs gap = unat start" using assms(4) by simp
    then show ?thesis using rest [OF tiled_trans [OF assms(1)]] assms(2) by simp
  qed
qed

lemma missing_cut:
  assumes "gaps_wf (gap # l)" "gap # l = passed @ eg # l'" "k < ge gap" "gs eg < stop" "\<forall>h \<in> set l'. stop \<le> gs h"
  shows "missing (gap # l) - {k ..< stop} = {gs gap ..< k} \<union> {stop ..< ge eg} \<union> missing l'"
proof (cases passed)
  case Nil
  have "\<forall>x \<in> missing l'. stop \<le> x" using assms(5) by (fastforce simp: missing_def)
  then show ?thesis using Nil assms by auto
next
  case (Cons g p)
  then have l: "gap = g" "l = p @ eg # l'" using assms(2) by simp_all
  then have wf: "gaps_wf (p @ eg # l')" "\<forall>d \<in> set (p @ eg # l'). ge g < gs d" using assms(1) by auto
  then have "\<forall>d \<in> set p. ge d < gs eg" "\<forall>d \<in> set p. ge g < gs d" "ge gap < gs eg"
    using l by (auto simp: gaps_wf_append)
  then have p: "\<forall>d \<in> set p. k \<le> gs d \<and> ge d \<le> stop" "ge gap < gs eg" "gap = g" "l = p @ eg # l'"
    using l assms(3,4) by (meson less_imp_le order_less_trans)+
  have "\<forall>x \<in> missing l'. stop \<le> x" "\<forall>x \<in> missing p. k \<le> x \<and> x < stop"
    using assms(5) p(1) by (fastforce simp: missing_def)+
  then show ?thesis using p assms(3,4) by auto
qed

section \<open>The invariant\<close>

text \<open>
  The stream has the bytes \<open>c\<close> and the final size \<open>final\<close>. A frame carries a part of it, and is empty only
  at the end.
\<close>

definition carries :: "(nat \<Rightarrow> byte) \<Rightarrow> nat \<Rightarrow> StreamFrame \<Rightarrow> bool" where
  "carries c final f \<longleftrightarrow> Data f = map c [unat (Offset f) ..< unat (Offset f) + length (Data f)] \<and>
     unat (Offset f) + length (Data f) \<le> final \<and> (Data f = [] \<longrightarrow> unat (Offset f) = final)"

definition queue_ok :: "(nat \<Rightarrow> byte) \<Rightarrow> nat \<Rightarrow> ByteInterval list \<Rightarrow> (ByteCount \<Rightarrow> StreamFrame option) \<Rightarrow> bool" where
  "queue_ok c final l q \<longleftrightarrow> (\<forall>p f. q p = Some f \<longrightarrow> Offset f = p \<and> carries c final f \<and>
     {unat p ..< unat p + length (Data f)} \<inter> missing l = {})"

definition sorter_inv :: "(nat \<Rightarrow> byte) \<Rightarrow> nat \<Rightarrow> streamFrameSorter \<Rightarrow> bool" where
  "sorter_inv c final s \<longleftrightarrow> gaps_wf (gaps s) \<and> gaps s \<noteq> [] \<and> ge (last (gaps s)) = 2 ^ 64 - 1 \<and>
     queue_ok c final (gaps s) (queuedFrames s) \<and>
     blocks_tiled (queuedFrames s) (unat (readPosition s)) (gaps s)"

lemma unat_DataLen: "length (Data f) < 2 ^ 64 \<Longrightarrow> unat (DataLen f) = length (Data f)"
  by (simp add: DataLen_def unat_of_nat)

text \<open>Cutting off what is queued at the frame's offset leaves a frame that does not start at the end of a gap.\<close>

lemma gap_end_not_queued:
  assumes "sorter_inv c final s" "g \<in> set (gaps s)" "ge g \<le> final" "final < 2 ^ 64 - 1"
  shows "\<exists>f. queuedFrames s (End g) = Some f"
proof -
  obtain l l' where l: "gaps s = l @ g # l'" using assms(2) by (auto simp: in_set_conv_decomp)
  show ?thesis
  proof (cases l')
    case Nil
    then show ?thesis using assms l by (simp add: sorter_inv_def)
  next
    case (Cons h l'')
    then show ?thesis using gap_end_queued [of "queuedFrames s" "unat (readPosition s)" l g h l''] assms(1) l
      by (auto simp: sorter_inv_def)
  qed
qed

lemma cutQueued_cases:
  assumes inv: "sorter_inv c final s" and f: "carries c final f" "Data f \<noteq> []" "final < 2 ^ 64 - 1"
  shows "case cutQueued s f of
      Inl e \<Rightarrow> e = errDuplicateStreamData \<and> {unat (Offset f) ..< unat (Offset f) + length (Data f)} \<inter> missing (gaps s) = {}
    | Inr f' \<Rightarrow> \<exists>k. k < length (Data f) \<and> f' = f\<lparr>Data := drop k (Data f), Offset := Offset f + of_nat k\<rparr> \<and>
        {unat (Offset f) ..< unat (Offset f) + k} \<inter> missing (gaps s) = {} \<and>
        (\<forall>g \<in> set (gaps s). unat (Offset f) + k \<noteq> ge g)"
proof -
  let ?a = "unat (Offset f)" and ?n = "length (Data f)"
  have fits: "?a + ?n \<le> final" using f(1) by (simp add: carries_def)
  show ?thesis
  proof (cases "queuedFrames s (Offset f)")
    case None
    have "?a \<noteq> ge g" if "g \<in> set (gaps s)" for g
    proof
      assume "?a = ge g"
      then have "Offset f = End g" "ge g \<le> final" using fits by (simp_all add: word_unat_eq_iff)
      then show False using gap_end_not_queued [OF inv that _ f(3)] None by auto
    qed
    then show ?thesis using None f(2) by (auto simp: cutQueued_def intro!: exI [of _ 0])
  next
    case (Some old)
    let ?m = "length (Data old)"
    have old: "Offset old = Offset f" "carries c final old" "{?a ..< ?a + ?m} \<inter> missing (gaps s) = {}"
      using inv Some by (auto simp: sorter_inv_def queue_ok_def)
    have m: "0 < ?m" using old fits f(2) by (auto simp: carries_def)
    have len: "unat (DataLen f) = ?n" "unat (DataLen old) = ?m"
      using fits f(3) old(1,2) by (auto intro!: unat_DataLen simp: carries_def)
    show ?thesis
    proof (cases "?n \<le> ?m")
      case True
      then have "{?a ..< ?a + ?n} \<inter> missing (gaps s) = {}" using old(3) by fastforce
      then show ?thesis using Some len True by (simp add: cutQueued_def word_le_nat_alt)
    next
      case False
      have "?a + ?m \<noteq> ge g" if "g \<in> set (gaps s)" for g
      proof
        assume g: "?a + ?m = ge g"
        have "gs g < ge g" using inv that by (auto simp: sorter_inv_def gaps_wf_def)
        then have "ge g - 1 \<in> missing (gaps s)" using that by (auto simp: missing_def intro!: bexI [of _ g])
        moreover have "ge g - 1 \<in> {?a ..< ?a + ?m}" unfolding g [symmetric] using m by (simp, linarith)
        ultimately show False using old(3) by blast
      qed
      then show ?thesis using Some len old(3) False
        by (auto simp: cutQueued_def word_le_nat_alt DataLen_def intro!: exI [of _ ?m])
    qed
  qed
qed

text \<open>
  A frame that covers the positions from \<open>a\<close> up to \<open>z\<close> touches the gaps from \<open>gap\<close> to \<open>eg\<close>, passing some in
  between. What is new of it, from \<open>start\<close> up to \<open>stop\<close>, is queued as \<open>f\<close>, and of these gaps what lies outside
  remains.
\<close>

record fill =
  left :: nat
  right :: nat
  lower :: "ByteInterval list"
  firstGap :: ByteInterval
  passed :: "ByteInterval list"
  lastGap :: ByteInterval
  upper :: "ByteInterval list"
  start :: ByteCount
  stop :: ByteCount

definition touched :: "fill \<Rightarrow> ByteInterval list" where
  "touched i = passed i @ lastGap i # upper i"

definition fill_ok :: "ByteInterval list \<Rightarrow> fill \<Rightarrow> bool" where
  "fill_ok l i \<longleftrightarrow> gaps_wf l \<and> l = lower i @ touched i \<and> hd (touched i) = firstGap i \<and>
     (\<forall>g \<in> set (lower i). ge g < left i) \<and> (\<forall>h \<in> set (upper i). right i \<le> gs h) \<and>
     gs (firstGap i) < right i \<and> left i < ge (firstGap i) \<and> gs (lastGap i) < right i \<and> left i < right i \<and>
     unat (start i) = max (left i) (gs (firstGap i)) \<and> unat (stop i) = min (right i) (ge (lastGap i))"

definition restGaps :: "fill \<Rightarrow> ByteInterval list" where
  "restGaps i = (if gs (firstGap i) < unat (start i) then [\<lparr>Start = Start (firstGap i), End = start i\<rparr>] else []) @
     (if unat (stop i) < ge (lastGap i) then [\<lparr>Start = stop i, End = End (lastGap i)\<rparr>] else [])"

lemma gaps_wf_nonempty: "gaps_wf l \<Longrightarrow> g \<in> set l \<Longrightarrow> gs g < ge g"
  by (simp add: gaps_wf_def)

lemma fill_ok_bounds:
  assumes "fill_ok l i"
  shows "l = lower i @ touched i" "\<forall>g \<in> set (lower i). ge g < left i" "\<forall>h \<in> set (upper i). right i \<le> gs h"
    "gs (firstGap i) < right i" "left i < ge (firstGap i)" "gs (lastGap i) < right i" "left i < right i"
    "unat (start i) = max (left i) (gs (firstGap i))" "unat (stop i) = min (right i) (ge (lastGap i))"
  using assms unfolding fill_ok_def by blast+

lemma fill_okD:
  assumes "fill_ok l i"
  shows "gaps_wf (lower i)" "gaps_wf (touched i)" "gaps_wf (upper i)" "gs (firstGap i) < ge (firstGap i)"
    "gs (lastGap i) < ge (lastGap i)" "\<forall>g \<in> set (lower i). \<forall>h \<in> set (touched i). ge g < gs h"
    "\<forall>h \<in> set (upper i). ge (lastGap i) < gs h" "firstGap i \<in> set (touched i)"
    "\<exists>r. touched i = firstGap i # r \<and> (passed i = [] \<and> lastGap i = firstGap i \<or> (\<exists>p. passed i = firstGap i # p))"
proof -
  have wf: "gaps_wf (lower i @ touched i)" and hd: "hd (touched i) = firstGap i" using assms by (auto simp: fill_ok_def)
  show first: "\<exists>r. touched i = firstGap i # r \<and> (passed i = [] \<and> lastGap i = firstGap i \<or> (\<exists>p. passed i = firstGap i # p))"
    using hd by (cases "passed i") (auto simp: touched_def)
  then show "firstGap i \<in> set (touched i)" by auto
  show "gaps_wf (lower i)" "gaps_wf (touched i)" "\<forall>g \<in> set (lower i). \<forall>h \<in> set (touched i). ge g < gs h"
    using wf by (simp_all add: gaps_wf_append)
  then show "gs (firstGap i) < ge (firstGap i)" "gaps_wf (upper i)" "gs (lastGap i) < ge (lastGap i)"
    "\<forall>h \<in> set (upper i). ge (lastGap i) < gs h"
    using first by (auto simp: touched_def gaps_wf_append intro: gaps_wf_nonempty)
qed

lemma fill_start_stop:
  assumes "fill_ok l i"
  shows "unat (start i) < unat (stop i)" "gs (firstGap i) \<le> unat (start i)" "unat (start i) < ge (firstGap i)"
    "unat (stop i) \<le> ge (lastGap i)"
    "g \<in> set (passed i) \<Longrightarrow> unat (start i) < ge g \<and> ge g < unat (stop i)"
proof -
  note ok = assms [unfolded fill_ok_def] and D = fill_okD [OF assms]
  have wf: "gaps_wf (passed i @ lastGap i # upper i)" using D(2) by (simp add: touched_def)
  have between: "ge (firstGap i) \<le> ge g \<and> ge g < gs (lastGap i)" if "g \<in> set (passed i)" for g
  proof -
    have "passed i \<noteq> []" using that by auto
    then obtain p where p: "passed i = firstGap i # p" using D(9) by blast
    have "gs g < ge g" "ge g < gs (lastGap i)" using wf that by (auto simp: gaps_wf_append intro: gaps_wf_nonempty)
    moreover have "g = firstGap i \<or> ge (firstGap i) < gs g" using wf that p by auto
    ultimately show ?thesis by auto
  qed
  have "ge (firstGap i) \<le> ge (lastGap i)" "gs (firstGap i) < ge (lastGap i)"
    using D(4,5,9) between [of "firstGap i"] by auto
  then show "unat (start i) < unat (stop i)" "gs (firstGap i) \<le> unat (start i)" "unat (start i) < ge (firstGap i)"
    "unat (stop i) \<le> ge (lastGap i)"
    using ok D(4) by auto
  show "g \<in> set (passed i) \<Longrightarrow> unat (start i) < ge g \<and> ge g < unat (stop i)"
    using between [of g] ok D(4,5) by auto
qed

lemma fill_missing:
  assumes "fill_ok l i"
  shows "missing (lower i @ restGaps i @ upper i) = missing l - {left i ..< right i}"
proof -
  note B = fill_ok_bounds [OF assms] and D = fill_okD [OF assms] and S = fill_start_stop [OF assms]
  obtain r where r: "touched i = firstGap i # r" using D(9) by blast
  have "missing (lower i) \<inter> {left i ..< right i} = {}" using B(2) by (fastforce simp: missing_def)
  moreover have "missing (touched i) - {left i ..< right i} =
      {gs (firstGap i) ..< left i} \<union> {right i ..< ge (lastGap i)} \<union> missing (upper i)"
    unfolding r by (rule missing_cut [where passed = "passed i", OF _ _ B(5,6,3)]) (use D(2) r in \<open>simp_all add: touched_def\<close>)
  moreover have "missing (restGaps i) = {gs (firstGap i) ..< left i} \<union> {right i ..< ge (lastGap i)}"
  proof -
    have "missing (restGaps i) = {gs (firstGap i) ..< unat (start i)} \<union> {unat (stop i) ..< ge (lastGap i)}"
      using S(2,4) by (simp add: restGaps_def)
    moreover have "{gs (firstGap i) ..< unat (start i)} = {gs (firstGap i) ..< left i}"
      "{unat (stop i) ..< ge (lastGap i)} = {right i ..< ge (lastGap i)}" unfolding B(8,9) by auto
    ultimately show ?thesis by simp
  qed
  ultimately show ?thesis unfolding B(1) missing_simps(3) by blast
qed

text \<open>What is queued begins with the first and ends with the last new position.\<close>

lemma fill_new:
  assumes "fill_ok l i"
  defines "N \<equiv> {left i ..< right i} \<inter> missing l"
  shows "unat (start i) \<in> N" "unat (stop i) - 1 \<in> N" "N \<subseteq> {unat (start i) ..< unat (stop i)}"
proof -
  note B = fill_ok_bounds [OF assms(1)] and D = fill_okD [OF assms(1)] and S = fill_start_stop [OF assms(1)]
  have in_l: "{gs (firstGap i) ..< ge (firstGap i)} \<subseteq> missing l" "{gs (lastGap i) ..< ge (lastGap i)} \<subseteq> missing l"
    using D(8) by (auto simp: B(1) touched_def missing_def)
  show "unat (start i) \<in> N" using in_l(1) S(1-3) B(8,9) by (auto simp: N_def)
  have "unat (stop i) - 1 \<in> {gs (lastGap i) ..< ge (lastGap i)}" using B(6,9) D(5) by auto
  then have "unat (stop i) - 1 \<in> missing l" using in_l(2) by blast
  then show "unat (stop i) - 1 \<in> N" using S(1) B(8,9) by (auto simp: N_def)
  have "unat (start i) \<le> x \<and> x < unat (stop i)" if x: "left i \<le> x" "x < right i" "x \<in> missing l" for x
  proof -
    have "{left i ..< right i} \<inter> missing (lower i @ restGaps i @ upper i) = {}" using fill_missing [OF assms(1)] by blast
    then have rest: "x \<notin> missing (lower i @ upper i)" using x by auto
    obtain h where h: "h \<in> set (passed i @ [lastGap i])" "gs h \<le> x" "x < ge h"
      using x(3) rest by (auto simp: B(1) touched_def missing_def)
    have "ge h \<le> ge (lastGap i)" using h(1) S(4) S(5) [of h] by auto
    moreover have "h = firstGap i \<or> ge (firstGap i) < gs h" using h(1) D(2,9) by (auto simp: touched_def)
    then have "gs (firstGap i) \<le> gs h" using D(4) by auto
    ultimately show ?thesis using x h B(8,9) by auto
  qed
  then show "N \<subseteq> {unat (start i) ..< unat (stop i)}" by (auto simp: N_def)
qed

lemma fill_gaps_wf:
  assumes "fill_ok l i"
  shows "gaps_wf (lower i @ restGaps i @ upper i)"
proof -
  note B = fill_ok_bounds [OF assms] and D = fill_okD [OF assms] and S = fill_start_stop [OF assms]
  have above: "unat (stop i) < gs h \<and> unat (start i) < gs h" if "h \<in> set (upper i)" for h
    using that D(7) S(1,4) by (meson order_le_less_trans order_less_trans)
  have "gaps_wf (restGaps i)" using S by (simp add: restGaps_def)
  moreover have "ge g < gs h" if "g \<in> set (restGaps i)" "h \<in> set (upper i)" for g h
    using that above D(7) by (auto simp: restGaps_def split: if_splits)
  moreover have "ge g < gs h" if "g \<in> set (lower i)" "h \<in> set (restGaps i @ upper i)" for g h
  proof -
    have g: "ge g < gs (firstGap i)" using that(1) D(6,8) by blast
    have "gs h = gs (firstGap i) \<or> gs h = unat (stop i) \<or> unat (stop i) < gs h"
      using that(2) above by (auto simp: restGaps_def split: if_splits)
    then show ?thesis using g S(1,2) by linarith
  qed
  ultimately show ?thesis using D(1,3) unfolding gaps_wf_append set_append by blast
qed

lemma fill_last_gap:
  assumes "fill_ok l i" "right i < ge (last l)"
  shows "lower i @ restGaps i @ upper i \<noteq> [] \<and> ge (last (lower i @ restGaps i @ upper i)) = ge (last l)"
proof -
  have l: "last l = last (lastGap i # upper i)" using assms(1) by (simp add: fill_ok_def touched_def)
  show ?thesis
  proof (cases "upper i = []")
    case True
    then have "unat (stop i) < ge (lastGap i)" using assms l by (auto simp: fill_ok_def)
    then show ?thesis using True l by (simp add: restGaps_def)
  next
    case False
    then show ?thesis using l by simp
  qed
qed

text \<open>The queue after a fill: the frames right behind the passed gaps are gone.\<close>

definition fillQueue :: "fill \<Rightarrow> StreamFrame \<Rightarrow> (ByteCount \<Rightarrow> StreamFrame option) \<Rightarrow> ByteCount \<Rightarrow> StreamFrame option" where
  "fillQueue i f q = (\<lambda>x. if x \<in> End ` set (passed i) then None else q x)(start i \<mapsto> f)"

lemma fillQueue_outside:
  assumes "fill_ok l i" "x < unat (start i) \<or> unat (stop i) \<le> x" "x < 2 ^ 64"
  shows "fillQueue i f q (of_nat x) = q (of_nat x)"
proof -
  have x: "unat (of_nat x :: ByteCount) = x" using assms(3) by (simp add: unat_of_nat)
  have "of_nat x \<noteq> start i" using x fill_start_stop(1) [OF assms(1)] assms(2) by (auto simp: word_unat_eq_iff)
  moreover have "of_nat x \<notin> End ` set (passed i)"
  proof
    assume "of_nat x \<in> End ` set (passed i)"
    then obtain g where "g \<in> set (passed i)" "of_nat x = End g" by blast
    with x fill_start_stop(5) [OF assms(1)] assms(2) show False by fastforce
  qed
  ultimately show ?thesis by (simp add: fillQueue_def)
qed

lemma fill_blocks_tiled:
  assumes ok: "fill_ok l i" and tiled: "blocks_tiled q p l"
    and f: "Data f \<noteq> []" "unat (stop i) = unat (start i) + length (Data f)"
  shows "blocks_tiled (fillQueue i f q) p (lower i @ restGaps i @ upper i)"
proof -
  let ?q = "fillQueue i f q" and ?p = "lastEnd p (lower i)"
  note B = fill_ok_bounds [OF ok] and D = fill_okD [OF ok] and S = fill_start_stop [OF ok]
  have same: "?q (of_nat x) = q (of_nat x)" if "x < unat (start i) \<or> unat (stop i) \<le> x" "x < unat (w :: ByteCount)" for x w
  proof (rule fillQueue_outside [OF ok that(1)])
    have "unat w < 2 ^ LENGTH(64)" by (rule unsigned_less)
    then show "x < 2 ^ 64" using that(2) by simp
  qed
  have low: "blocks_tiled q p (lower i)" and mid: "blocks_tiled q ?p (touched i)"
    using tiled unfolding B(1) blocks_tiled_append by auto
  have "tiled q ?p (gs (firstGap i))" using mid D(9) by auto
  then have "tiled ?q ?p (gs (firstGap i))" by (rule tiled_cong) (use same S(2) in auto)
  moreover have "tiled ?q (unat (start i)) (unat (stop i))"
    by (rule tiled_one [of _ _ f]) (use f in \<open>simp_all add: fillQueue_def\<close>)
  moreover have "blocks_tiled q (ge (lastGap i)) (upper i)"
    using mid unfolding touched_def blocks_tiled_append by simp
  then have "blocks_tiled ?q (ge (lastGap i)) (upper i)"
    by (rule blocks_tiled_cong [OF _ D(3)]) (use same S(4) in force)
  ultimately have "blocks_tiled ?q ?p (restGaps i @ upper i)"
    using blocks_tiled_fill [of ?q ?p "firstGap i" "start i" "stop i" "lastGap i" "upper i"] S(2,4)
    by (simp add: restGaps_def)
  moreover have "blocks_tiled ?q p (lower i)"
  proof (rule blocks_tiled_cong [OF low D(1)])
    fix x assume "\<exists>g \<in> set (lower i). x < gs g"
    then obtain g where g: "g \<in> set (lower i)" "x < gs g" by blast
    then have "x < unat (start i)" using D(6,8) S(2) gaps_wf_nonempty [OF D(1) g(1)] by fastforce
    then show "?q (of_nat x) = q (of_nat x)" using same g(2) by blast
  qed
  ultimately show ?thesis unfolding blocks_tiled_append by blast
qed

lemma fill_queue_ok:
  assumes ok: "fill_ok l i" and q: "queue_ok c final l q"
    and f: "carries c final f" "Offset f = start i" "unat (stop i) = unat (start i) + length (Data f)"
  shows "queue_ok c final (lower i @ restGaps i @ upper i) (fillQueue i f q)"
  unfolding queue_ok_def
proof (intro allI impI)
  fix p g assume g: "fillQueue i f q p = Some g"
  let ?m = "missing (lower i @ restGaps i @ upper i)"
  have m: "?m = missing l - {left i ..< right i}" using fill_missing [OF ok] .
  show "Offset g = p \<and> carries c final g \<and> {unat p ..< unat p + length (Data g)} \<inter> ?m = {}"
  proof (cases "p = start i")
    case True
    then have "g = f" using g by (simp add: fillQueue_def)
    moreover have "{unat (start i) ..< unat (stop i)} \<subseteq> {left i ..< right i}"
      using fill_ok_bounds(8,9) [OF ok] by auto
    ultimately show ?thesis using f True m by auto
  next
    case False
    then have "q p = Some g" using g by (auto simp: fillQueue_def split: if_splits)
    then show ?thesis using q m unfolding queue_ok_def by blast
  qed
qed

lemma fill_inv:
  assumes inv: "sorter_inv c final s" and ok: "fill_ok (gaps s) i" and "right i \<le> final" "final < 2 ^ 64 - 1"
    and f: "Offset f = start i" "Data f = map c [unat (start i) ..< unat (stop i)]"
  shows "sorter_inv c final (s\<lparr>queuedFrames := fillQueue i f (queuedFrames s), gaps := lower i @ restGaps i @ upper i\<rparr>)"
proof -
  note S = fill_start_stop [OF ok]
  have len: "unat (stop i) = unat (start i) + length (Data f)" "Data f \<noteq> []" using f(2) S(1) by auto
  have "unat (stop i) \<le> final" using fill_ok_bounds(9) [OF ok] assms(3) by simp
  then have "carries c final f" using f S(1) by (auto simp: carries_def)
  then have "queue_ok c final (lower i @ restGaps i @ upper i) (fillQueue i f (queuedFrames s))"
    using fill_queue_ok [OF ok _ _ f(1) len(1)] inv by (simp add: sorter_inv_def)
  moreover have "blocks_tiled (fillQueue i f (queuedFrames s)) (unat (readPosition s)) (lower i @ restGaps i @ upper i)"
    using fill_blocks_tiled [OF ok _ len(2,1)] inv by (simp add: sorter_inv_def)
  moreover have "right i < ge (last (gaps s))" using inv assms(3,4) by (simp add: sorter_inv_def)
  ultimately show ?thesis
    using fill_gaps_wf [OF ok] fill_last_gap [OF ok] inv unfolding sorter_inv_def by simp
qed

section \<open>Pushing a frame\<close>

lemma unat_max_cut:
  fixes x y :: ByteCount
  defines "add \<equiv> if x < y then y - x else 0"
  shows "unat (x + add) = max (unat x) (unat y)" "unat add = max (unat x) (unat y) - unat x"
proof -
  show "unat add = max (unat x) (unat y) - unat x"
    by (auto simp: add_def word_less_nat_alt unat_sub word_le_nat_alt max_def)
  have "x + add = (if x < y then y else x)" by (simp add: add_def)
  then show "unat (x + add) = max (unat x) (unat y)" by (auto simp: word_less_nat_alt max_def)
qed

lemma unat_min_cut:
  fixes x y :: ByteCount
  defines "cl \<equiv> if y < x then x - y else 0"
  shows "unat (x - cl) = min (unat x) (unat y)" "unat cl = unat x - min (unat x) (unat y)"
proof -
  show "unat cl = unat x - min (unat x) (unat y)"
    by (auto simp: cl_def word_less_nat_alt unat_sub word_le_nat_alt min_def)
  have "x - cl = (if y < x then y else x)" by (simp add: cl_def)
  then show "unat (x - cl) = min (unat x) (unat y)" by (auto simp: word_less_nat_alt min_def)
qed

text \<open>The gaps found by the two loops are those of a fill.\<close>

definition fillOf :: "ByteCount \<Rightarrow> ByteCount \<Rightarrow> ByteInterval list \<Rightarrow> ByteInterval \<Rightarrow> ByteInterval list \<Rightarrow> endGapState \<Rightarrow> fill" where
  "fillOf x y before gap p st = \<lparr>left = unat x, right = unat y, lower = before, firstGap = gap, passed = p,
     lastGap = endGap st, upper = after st, start = x + (if x < Start gap then Start gap - x else 0),
     stop = y - (if End (endGap st) < y then y - End (endGap st) else 0)\<rparr>"

lemma fillOf_ok:
  assumes "gaps_wf l" "unat x < unat y" "\<forall>g \<in> set l. unat x \<noteq> ge g"
    and found: "findGap x y l = Inr (before, gap, aft)" and loop: "endGapLoop y q True gap aft = (None, st)"
  shows "\<exists>p. fill_ok l (fillOf x y before gap p st) \<and>
    queue st = (\<lambda>w. if w \<in> End ` set p then None else q w) \<and>
    adjustGaps (start (fillOf x y before gap p st)) (stop (fillOf x y before gap p st)) gap st =
      restGaps (fillOf x y before gap p st)"
proof -
  note F = findGap_found [OF found]
  have wf: "gaps_wf (gap # aft)" using assms(1) F(1) by (simp add: gaps_wf_append)
  have "unat x < ge gap" using F(1,4) assms(3) by (auto simp: le_less)
  from endGapLoop_found [OF loop wf F(3)] obtain p where
    p: "gap # aft = p @ endGap st # after st" "isGap st = (p = [])" "inList st = (isGap st \<or> y < End (endGap st))"
      "queue st = (\<lambda>w. if w \<in> End ` set p then None else q w)"
      "gs (endGap st) < unat y" "\<forall>h \<in> set (after st). unat y \<le> gs h" by auto
  let ?i = "fillOf x y before gap p st"
  have i: "left ?i = unat x" "right ?i = unat y" "lower ?i = before" "firstGap ?i = gap" "passed ?i = p"
    "lastGap ?i = endGap st" "upper ?i = after st" "touched ?i = gap # aft"
    "unat (start ?i) = max (unat x) (gs gap)" "unat (stop ?i) = min (unat y) (ge (endGap st))"
    by (simp_all add: fillOf_def touched_def p(1) unat_max_cut unat_min_cut)
  have ok: "fill_ok l ?i"
    unfolding fill_ok_def i using assms(1,2) F \<open>unat x < ge gap\<close> p(5,6) by simp
  note S = fill_start_stop [OF ok, unfolded i(4-6)]
  have same: "isGap st \<Longrightarrow> endGap st = gap" using p(1,2) by simp
  have other: "\<not> isGap st \<Longrightarrow> ge gap < unat (stop ?i)" using p(1,2) S(5) [of gap] by (cases p) auto
  have "inList st = (isGap st \<or> stop ?i < End (endGap st))"
    using p(3) unfolding word_less_nat_alt i(10) by auto
  then have "adjustGaps (start ?i) (stop ?i) gap st = restGaps ?i"
    using adjustGaps_rest [OF S(2,3,4,1) same other] by (simp add: restGaps_def i)
  with ok p(4) show ?thesis by blast
qed

text \<open>The two cuts leave the bytes between \<open>start\<close> and \<open>stop\<close>.\<close>

lemma cut_data:
  fixes f :: StreamFrame and add cutLen k :: ByteCount
  assumes data: "Data f = map c [x ..< y]" and len: "y < 2 ^ 64" "x \<le> a" "a \<le> z" "z \<le> y"
    and add: "unat add = a - x" and cutLen: "unat cutLen = y - z"
  defines "f1 \<equiv> f\<lparr>Offset := k, Data := drop (unat add) (Data f)\<rparr>"
  shows "take (unat (DataLen f1 - cutLen)) (Data f1) = map c [a ..< z]"
proof -
  have d: "Data f1 = map c [a ..< y]" using len(2) by (simp add: f1_def data add drop_map drop_upt)
  then have "unat (DataLen f1) = y - a" using len by (simp add: unat_DataLen)
  then have "unat (DataLen f1 - cutLen) = z - a" using cutLen len by (simp add: unat_sub word_le_nat_alt)
  then show ?thesis using len by (simp add: d take_map take_upt)
qed

text \<open>When both loops find their gaps, the frame is queued as the new part of a fill.\<close>

definition pushed :: "(nat \<Rightarrow> byte) \<Rightarrow> StreamFrame \<Rightarrow> fill \<Rightarrow> StreamFrame" where
  "pushed c f i = f\<lparr>Offset := start i, Data := map c [unat (start i) ..< unat (stop i)]\<rparr>"

lemma pushFrame_fill:
  fixes f s
  defines "x \<equiv> Offset f" and "y \<equiv> Offset f + DataLen f"
  assumes wf: "gaps_wf (gaps s)" and data: "Data f = map c [unat x ..< unat y]" "Data f \<noteq> []"
    and apart: "\<forall>g \<in> set (gaps s). unat x \<noteq> ge g"
    and found: "findGap x y (gaps s) = Inr (before, gap, aft)"
    and loop: "endGapLoop y (queuedFrames s) True gap aft = (None, st)"
  shows "\<exists>i. fill_ok (gaps s) i \<and> left i = unat x \<and> right i = unat y \<and>
    pushFrame f s = (let gs = lower i @ restGaps i @ upper i in
      if length gs > MaxStreamFrameSorterGaps
      then (Some errTooManyGapsInReceivedStreamData, s\<lparr>queuedFrames := queue st, gaps := gs\<rparr>)
      else (None, s\<lparr>queuedFrames := fillQueue i (pushed c f i) (queuedFrames s), gaps := gs\<rparr>))"
proof -
  have "unat x < unat y" using data by (metis list.map_disc_iff not_less upt_conv_Nil)
  from fillOf_ok [OF wf this apart found loop] obtain p where
    ok: "fill_ok (gaps s) (fillOf x y before gap p st)"
    and q: "queue st = (\<lambda>w. if w \<in> End ` set p then None else queuedFrames s w)"
    and rest: "adjustGaps (start (fillOf x y before gap p st)) (stop (fillOf x y before gap p st)) gap st =
      restGaps (fillOf x y before gap p st)" by auto
  define i where "i = fillOf x y before gap p st"
  note B = fill_ok_bounds [OF ok [folded i_def]] and S = fill_start_stop [OF ok [folded i_def]]
  have i: "left i = unat x" "right i = unat y" "lower i = before" "upper i = after st" "passed i = p"
    by (simp_all add: i_def fillOf_def)
  let ?add = "if x < Start gap then Start gap - x else 0"
    and ?cut = "if End (endGap st) < y then y - End (endGap st) else 0"
  have st: "x + ?add = start i" "y - ?cut = stop i" by (simp_all add: i_def fillOf_def)
  let ?f1 = "f\<lparr>Offset := start i, Data := drop (unat ?add) (Data f)\<rparr>"
  have "unat y < 2 ^ LENGTH(64)" by (rule unsigned_less)
  then have "take (unat (DataLen ?f1 - ?cut)) (Data ?f1) = map c [unat (start i) ..< unat (stop i)]"
  proof (intro cut_data [where x = "unat x" and y = "unat y"])
    show "unat ?add = unat (start i) - unat x" "unat ?cut = unat y - unat (stop i)"
      by (simp_all add: unat_max_cut unat_min_cut flip: st)
  qed (use data B(8,9) S(1) i in auto)
  then have "?f1\<lparr>Data := take (unat (DataLen ?f1 - ?cut)) (Data ?f1)\<rparr> = pushed c f i" by (simp add: pushed_def)
  moreover have y: "x + DataLen f = y" by (simp add: x_def y_def)
  ultimately have "pushFrame f s = (let gs = lower i @ restGaps i @ upper i in
      if length gs > MaxStreamFrameSorterGaps
      then (Some errTooManyGapsInReceivedStreamData, s\<lparr>queuedFrames := queue st, gaps := gs\<rparr>)
      else (None, s\<lparr>queuedFrames := fillQueue i (pushed c f i) (queuedFrames s), gaps := gs\<rparr>))"
    unfolding pushFrame_def Let_def x_def [symmetric] y found loop sum.case prod.case option.case st
      rest [folded i_def] i(3,4)
    by (simp add: pushed_def fillQueue_def q i)
  with ok i(1,2) show ?thesis unfolding i_def by blast
qed

lemma pushFrame_cases:
  assumes inv: "sorter_inv c final s" and f: "carries c final f" "Data f \<noteq> []" "final < 2 ^ 64 - 1"
    and apart: "\<forall>g \<in> set (gaps s). unat (Offset f) \<noteq> ge g"
  defines "r \<equiv> {unat (Offset f) ..< unat (Offset f) + length (Data f)}"
  shows "case pushFrame f s of
      (None, s') \<Rightarrow> \<exists>i. fill_ok (gaps s) i \<and> {left i ..< right i} = r \<and> right i \<le> final \<and>
        s' = s\<lparr>queuedFrames := fillQueue i (pushed c f i) (queuedFrames s), gaps := lower i @ restGaps i @ upper i\<rparr>
    | (Some e, s') \<Rightarrow> e = errDuplicateStreamData \<and> s' = s \<and> r \<inter> missing (gaps s) = {} \<or>
        e = errTooManyGapsInReceivedStreamData"
proof -
  let ?x = "Offset f" and ?y = "Offset f + DataLen f" and ?n = "length (Data f)"
  have fits: "unat ?x + ?n \<le> final" and data: "Data f = map c [unat ?x ..< unat ?x + ?n]"
    using f(1) unfolding carries_def by blast+
  have "unat (DataLen f) = ?n" using fits f(3) by (intro unat_DataLen) simp
  then have y: "unat ?y = unat ?x + ?n" using fits f(3) by (subst unat_add_noov) auto
  have wf: "gaps_wf (gaps s)" and last: "gaps s \<noteq> []" "ge (last (gaps s)) = 2 ^ 64 - 1"
    using inv by (simp_all add: sorter_inv_def)
  have r: "r = {unat ?x ..< unat ?y}" by (simp add: r_def y)
  show ?thesis
  proof (cases "findGap ?x ?y (gaps s)")
    case (Inl e)
    have "last (gaps s) \<in> set (gaps s)" using last(1) by simp
    then have "\<not> (\<forall>g \<in> set (gaps s). ge g < unat ?x)" using last(2) fits f(3) by (metis add_leE leD order_less_trans)
    then have "e = errDuplicateStreamData \<and> r \<inter> missing (gaps s) = {}"
      using findGap_refused [OF Inl wf] unfolding r by blast
    then show ?thesis using Inl by (simp add: pushFrame_def)
  next
    case (Inr b)
    then obtain before gap aft where found: "findGap ?x ?y (gaps s) = Inr (before, gap, aft)" by (cases b) auto
    obtain e st where loop: "endGapLoop ?y (queuedFrames s) True gap aft = (e, st)" by fastforce
    have "last (gaps s) = last (gap # aft)" unfolding findGap_found(1) [OF found] by simp
    then have "e = None"
      using endGapLoop_refused [of ?y "queuedFrames s" True gap aft _ st] loop last(2) y fits f(3) by (cases e) auto
    with pushFrame_fill [OF wf data [folded y] f(2) apart found] loop obtain i where
      ok: "fill_ok (gaps s) i" and i: "left i = unat ?x" "right i = unat ?y" and
      push: "pushFrame f s = (let gs = lower i @ restGaps i @ upper i in
        if length gs > MaxStreamFrameSorterGaps
        then (Some errTooManyGapsInReceivedStreamData, s\<lparr>queuedFrames := queue st, gaps := gs\<rparr>)
        else (None, s\<lparr>queuedFrames := fillQueue i (pushed c f i) (queuedFrames s), gaps := gs\<rparr>))" by blast
    show ?thesis using ok i fits y by (auto simp: push Let_def r intro!: exI [of _ i])
  qed
qed

lemma pushFrame_inv:
  assumes inv: "sorter_inv c final s" and f: "carries c final f" "Data f \<noteq> []" "final < 2 ^ 64 - 1"
    and apart: "\<forall>g \<in> set (gaps s). unat (Offset f) \<noteq> ge g"
  defines "r \<equiv> {unat (Offset f) ..< unat (Offset f) + length (Data f)}"
  shows "case pushFrame f s of
      (None, s') \<Rightarrow> sorter_inv c final s' \<and> missing (gaps s') = missing (gaps s) - r \<and> readPosition s' = readPosition s
    | (Some e, s') \<Rightarrow> e = errDuplicateStreamData \<and> s' = s \<and> r \<inter> missing (gaps s) = {} \<or>
        e = errTooManyGapsInReceivedStreamData"
proof -
  have "sorter_inv c final (s\<lparr>queuedFrames := fillQueue i (pushed c f i) (queuedFrames s), gaps := lower i @ restGaps i @ upper i\<rparr>) \<and>
    missing (lower i @ restGaps i @ upper i) = missing (gaps s) - {left i ..< right i}"
    if "fill_ok (gaps s) i" "right i \<le> final" for i
    using fill_inv [OF inv that(1) _ f(3)] fill_missing [OF that(1)] that(2) by (simp add: pushed_def)
  then show ?thesis using pushFrame_cases [OF inv f apart, folded r_def] by (fastforce split: prod.splits option.splits)
qed

text \<open>The end-of-stream marker, an empty frame at the final offset, changes no tiling.\<close>

lemma tiled_mono:
  assumes "tiled q a b" "\<And>p f. q p = Some f \<Longrightarrow> Data f \<noteq> [] \<Longrightarrow> q' p = Some f"
  shows "tiled q' a b"
  using assms(1)
proof (induction rule: tiled.induct)
  case (tiled_step a f b)
  then show ?case by (intro tiled.tiled_step [of q' a f] assms(2))
qed (rule tiled_refl)

lemma blocks_tiled_mono:
  assumes "blocks_tiled q a l" "\<And>p f. q p = Some f \<Longrightarrow> Data f \<noteq> [] \<Longrightarrow> q' p = Some f"
  shows "blocks_tiled q' a l"
  using assms(1)
proof (induction l arbitrary: a)
  case (Cons g l)
  then show ?case by (auto intro: tiled_mono [of q _ _ q', OF _ assms(2)])
qed simp

lemma push_fin_inv:
  assumes inv: "sorter_inv c final s" and f: "carries c final f" "Data f = []"
  shows "sorter_inv c final (s\<lparr>queuedFrames := (queuedFrames s)(Offset f \<mapsto> f)\<rparr>)"
proof -
  let ?q = "(queuedFrames s)(Offset f \<mapsto> f)"
  have Q: "queue_ok c final (gaps s) (queuedFrames s)" using inv by (simp add: sorter_inv_def)
  have "?q p = Some g" if "queuedFrames s p = Some g" "Data g \<noteq> []" for p g
  proof -
    have "Offset g = p" "unat (Offset g) + length (Data g) \<le> final"
      using Q that(1) by (auto simp: queue_ok_def carries_def)
    moreover have "unat (Offset f) = final" using f by (simp add: carries_def)
    ultimately have "p \<noteq> Offset f" using that(2) by auto
    then show ?thesis using that by simp
  qed
  moreover have "queue_ok c final (gaps s) ?q" using Q f by (simp add: queue_ok_def)
  ultimately show ?thesis using inv blocks_tiled_mono [of "queuedFrames s" _ _ ?q] by (simp add: sorter_inv_def)
qed

lemma carries_drop:
  assumes "carries c final f" "k < length (Data f)" "final < 2 ^ 64 - 1"
  shows "carries c final (f\<lparr>Data := drop k (Data f), Offset := Offset f + of_nat k\<rparr>)"
    "unat (Offset f + of_nat k) = unat (Offset f) + k"
proof -
  have fits: "unat (Offset f) + length (Data f) \<le> final" and
    d: "Data f = map c [unat (Offset f) ..< unat (Offset f) + length (Data f)]" using assms(1) unfolding carries_def by blast+
  have "unat (of_nat k :: ByteCount) = k" using fits assms(2,3) by (simp add: unat_of_nat)
  then show u: "unat (Offset f + of_nat k) = unat (Offset f) + k" using fits assms(2,3) by (subst unat_add_noov) auto
  have "drop k (Data f) = map c [unat (Offset f) + k ..< unat (Offset f) + length (Data f)]"
    by (subst d) (simp add: drop_map drop_upt)
  then show "carries c final (f\<lparr>Data := drop k (Data f), Offset := Offset f + of_nat k\<rparr>)"
    using fits assms(2) u by (auto simp: carries_def)
qed

text \<open>
  A frame of the stream is queued, is a duplicate, or leaves too many gaps; the two consistency errors of the
  code never occur.
\<close>

lemma Push_inv:
  assumes inv: "sorter_inv c final s" and f: "carries c final f" "final < 2 ^ 64 - 1"
    and nonempty: "Data f = [] \<longrightarrow> FinBit f"
  defines "r \<equiv> {unat (Offset f) ..< unat (Offset f) + length (Data f)}"
  shows "case Push f s of
      (None, s') \<Rightarrow> sorter_inv c final s' \<and> missing (gaps s') = missing (gaps s) - r \<and> readPosition s' = readPosition s
    | (Some e, s') \<Rightarrow> e = errDuplicateStreamData \<and> s' = s \<and> r \<inter> missing (gaps s) = {} \<or>
        e = errTooManyGapsInReceivedStreamData"
proof (cases "Data f = []")
  case True
  then have "DataLen f = 0" by (simp add: DataLen_def)
  then show ?thesis using push_fin_inv [OF inv f(1) True] True nonempty by (simp add: Push_def r_def)
next
  case False
  have "length (Data f) < 2 ^ 64" using f by (simp add: carries_def)
  then have "DataLen f \<noteq> 0" using False unat_DataLen [of f] by auto
  note C = cutQueued_cases [OF inv f(1) False f(2)]
  show ?thesis
  proof (cases "cutQueued s f")
    case (Inl e)
    then show ?thesis using C \<open>DataLen f \<noteq> 0\<close> by (simp add: Push_def r_def)
  next
    case (Inr g)
    then obtain k where k: "k < length (Data f)" and g: "g = f\<lparr>Data := drop k (Data f), Offset := Offset f + of_nat k\<rparr>"
      and old: "{unat (Offset f) ..< unat (Offset f) + k} \<inter> missing (gaps s) = {}"
      and apart: "\<forall>h \<in> set (gaps s). unat (Offset f) + k \<noteq> ge h" using C by auto
    note D = carries_drop [OF f(1) k f(2)]
    let ?r = "{unat (Offset f) + k ..< unat (Offset f) + length (Data f)}"
    have "r = {unat (Offset f) ..< unat (Offset f) + k} \<union> ?r" using k by (auto simp: r_def)
    then have r: "r \<inter> missing (gaps s) = ?r \<inter> missing (gaps s)" using old by blast
    have "Push f s = pushFrame g s" using Inr \<open>DataLen f \<noteq> 0\<close> by (simp add: Push_def)
    moreover have "carries c final g" "Data g \<noteq> []" "\<forall>h \<in> set (gaps s). unat (Offset g) \<noteq> ge h"
      "{unat (Offset g) ..< unat (Offset g) + length (Data g)} = ?r"
      using D k apart by (simp_all add: g)
    ultimately show ?thesis using pushFrame_inv [OF inv, of g] f(2) r
      by (auto split: prod.splits option.splits)
  qed
qed

text \<open>The frame that an accepted one leaves in the queue.\<close>

lemma pushFrame_queued:
  assumes inv: "sorter_inv c final s" and f: "carries c final f" "Data f \<noteq> []" "final < 2 ^ 64 - 1"
    and apart: "\<forall>g \<in> set (gaps s). unat (Offset f) \<noteq> ge g" and push: "pushFrame f s = (None, s')"
  defines "N \<equiv> {unat (Offset f) ..< unat (Offset f) + length (Data f)} \<inter> missing (gaps s)"
  shows "\<exists>g. queuedFrames s' (Offset g) = Some g \<and> FinBit g = FinBit f \<and> Data g \<noteq> [] \<and>
    unat (Offset g) \<in> N \<and> unat (Offset g) + length (Data g) - 1 \<in> N \<and>
    N \<subseteq> {unat (Offset g) ..< unat (Offset g) + length (Data g)}"
proof -
  obtain i where ok: "fill_ok (gaps s) i" and N: "N = {left i ..< right i} \<inter> missing (gaps s)"
    and s': "s' = s\<lparr>queuedFrames := fillQueue i (pushed c f i) (queuedFrames s), gaps := lower i @ restGaps i @ upper i\<rparr>"
    using pushFrame_cases [OF inv f apart] unfolding push N_def by auto
  note S = fill_start_stop [OF ok] and new = fill_new [OF ok, folded N]
  show ?thesis using S(1) new by (intro exI [of _ "pushed c f i"]) (simp add: s' pushed_def fillQueue_def)
qed

lemma Push_queued:
  assumes inv: "sorter_inv c final s" and f: "carries c final f" "final < 2 ^ 64 - 1" "Data f \<noteq> []" and push: "Push f s = (None, s')"
  defines "N \<equiv> {unat (Offset f) ..< unat (Offset f) + length (Data f)} \<inter> missing (gaps s)"
  shows "\<exists>g. queuedFrames s' (Offset g) = Some g \<and> FinBit g = FinBit f \<and> Data g \<noteq> [] \<and>
    unat (Offset g) \<in> N \<and> unat (Offset g) + length (Data g) - 1 \<in> N \<and>
    N \<subseteq> {unat (Offset g) ..< unat (Offset g) + length (Data g)}"
proof -
  have "length (Data f) < 2 ^ 64" using f by (simp add: carries_def)
  then have "DataLen f \<noteq> 0" using f(3) unat_DataLen [of f] by auto
  with push obtain g where g: "cutQueued s f = Inr g" "pushFrame g s = (None, s')"
    by (auto simp: Push_def split: sum.splits)
  then obtain k where k: "k < length (Data f)" and g': "g = f\<lparr>Data := drop k (Data f), Offset := Offset f + of_nat k\<rparr>"
    and old: "{unat (Offset f) ..< unat (Offset f) + k} \<inter> missing (gaps s) = {}"
    and apart: "\<forall>h \<in> set (gaps s). unat (Offset f) + k \<noteq> ge h" using cutQueued_cases [OF inv f(1,3,2)] by auto
  note D = carries_drop [OF f(1) k f(2)]
  have "{unat (Offset f) ..< unat (Offset f) + length (Data f)} =
    {unat (Offset f) ..< unat (Offset f) + k} \<union> {unat (Offset g) ..< unat (Offset g) + length (Data g)}"
    using D(2) k by (auto simp: g')
  then have "N = {unat (Offset g) ..< unat (Offset g) + length (Data g)} \<inter> missing (gaps s)"
    unfolding N_def using old by blast
  then show ?thesis using pushFrame_queued [OF inv _ _ f(2) _ g(2)] D k apart by (simp add: g')
qed

text \<open>Reading: the head of the queue starts at the read position, and nothing is queued there only before a gap.\<close>

lemma Head_None:
  assumes "sorter_inv c final s" "Head s = None"
  shows "unat (readPosition s) \<in> missing (gaps s)"
proof -
  obtain g l where g: "gaps s = g # l" using assms(1) by (cases "gaps s") (auto simp: sorter_inv_def)
  then have "tiled (queuedFrames s) (unat (readPosition s)) (gs g)" "gs g < ge g"
    using assms(1) by (simp_all add: sorter_inv_def)
  then show ?thesis using assms(2) g by (cases rule: tiledE) (auto simp: Head_def)
qed

lemma Pop_inv:
  assumes inv: "sorter_inv c final s" and h: "Head s = Some f" and small: "final < 2 ^ 64 - 1"
  defines "s' \<equiv> snd (Pop s)"
  shows "sorter_inv c final s'" "gaps s' = gaps s"
    "unat (readPosition s') = unat (readPosition s) + length (Data f)"
    "Data f = map c [unat (readPosition s) ..< unat (readPosition s) + length (Data f)]"
    "unat (readPosition s) + length (Data f) \<le> final"
proof -
  let ?q = "queuedFrames s" and ?r = "unat (readPosition s)" and ?n = "length (Data f)"
  let ?q' = "?q(readPosition s := None)"
  have Q: "queue_ok c final (gaps s) ?q" "blocks_tiled ?q ?r (gaps s)" using inv by (simp_all add: sorter_inv_def)
  have f: "Offset f = readPosition s" "carries c final f" "{?r ..< ?r + ?n} \<inter> missing (gaps s) = {}"
    using Q(1) h by (auto simp: queue_ok_def Head_def)
  have "carries c final f \<longrightarrow> unat (Offset f) + ?n \<le> final"
    "carries c final f \<longrightarrow> Data f = map c [unat (Offset f) ..< unat (Offset f) + ?n]"
    unfolding carries_def by blast+
  then have fits: "?r + ?n \<le> final" and d: "Data f = map c [?r ..< ?r + ?n]" using f(2) by (simp_all only: f(1))
  have n: "unat (DataLen f) = ?n" using fits small by (intro unat_DataLen) simp
  have s': "s' = s\<lparr>readPosition := readPosition s + DataLen f, queuedFrames := ?q'\<rparr>"
    using h f(1) by (simp add: s'_def Pop_def)
  have r: "unat (readPosition s + DataLen f) = ?r + ?n" using n fits small by (subst unat_add_noov) auto
  show "gaps s' = gaps s" "unat (readPosition s') = ?r + ?n" using r by (simp_all add: s')
  show "Data f = map c [?r ..< ?r + ?n]" "?r + ?n \<le> final" by (rule d fits)+
  have "blocks_tiled ?q' (?r + ?n) (gaps s)"
  proof (cases "Data f = []")
    case True
    have "blocks_tiled ?q' ?r (gaps s)"
      by (rule blocks_tiled_mono [OF Q(2)]) (use True h in \<open>auto simp: Head_def\<close>)
    then show ?thesis using True by simp
  next
    case False
    obtain g l where g: "gaps s = g # l" using inv by (cases "gaps s") (auto simp: sorter_inv_def)
    have "?r \<in> {?r ..< ?r + ?n}" using False by simp
    then have "?r \<notin> missing (gaps s)" using f(3) by blast
    then have "gs g \<noteq> ?r" using inv by (auto simp: sorter_inv_def g)
    moreover have "tiled ?q ?r (gs g)" using Q(2) g by simp
    ultimately have "tiled ?q (?r + ?n) (gs g)" using h by (cases rule: tiledE) (auto simp: Head_def)
    then have "blocks_tiled ?q (?r + ?n) (gaps s)" using Q(2) g by simp
    moreover have "?q' (of_nat x) = ?q (of_nat x)" if "?r + ?n \<le> x" "\<exists>h \<in> set (gaps s). x < gs h" for x
    proof -
      from that(2) obtain h where "x < gs h" by blast
      moreover have "gs h < 2 ^ LENGTH(64)" by (rule unsigned_less)
      ultimately have "x < 2 ^ 64" by simp
      then have "unat (of_nat x :: ByteCount) = x" by (simp add: unat_of_nat)
      moreover have "x \<noteq> ?r" using that(1) False by auto
      ultimately show ?thesis by auto
    qed
    ultimately show ?thesis using inv blocks_tiled_cong [of ?q _ "gaps s" ?q'] by (simp add: sorter_inv_def)
  qed
  moreover have "queue_ok c final (gaps s) ?q'" using Q(1) by (simp add: queue_ok_def)
  ultimately show "sorter_inv c final s'" using inv r by (simp add: sorter_inv_def s')
qed

section \<open>Runs\<close>

text \<open>
  A run of the buffer of one stream: frames of the stream are pushed, in any order, cut and repeated in any way,
  and heads are popped. \<open>P\<close> has the positions pushed so far and \<open>out\<close> the bytes read. A run ends with the
  connection when there are too many gaps.
\<close>

definition frame_of :: "(nat \<Rightarrow> byte) \<Rightarrow> nat \<Rightarrow> StreamFrame \<Rightarrow> bool" where
  "frame_of c final f \<longleftrightarrow> carries c final f \<and> (Data f = [] \<longrightarrow> FinBit f) \<and>
     (FinBit f \<longrightarrow> unat (Offset f) + length (Data f) = final)"

abbreviation positions :: "StreamFrame \<Rightarrow> nat set" where
  "positions f \<equiv> {unat (Offset f) ..< unat (Offset f) + length (Data f)}"

inductive sorter_run :: "(nat \<Rightarrow> byte) \<Rightarrow> nat \<Rightarrow> nat set \<Rightarrow> byte list \<Rightarrow> streamFrameSorter \<Rightarrow> bool" for c final where
  run_start: "sorter_run c final {} [] newStreamFrameSorter"
| run_push: "sorter_run c final P out s \<Longrightarrow> frame_of c final f \<Longrightarrow> Push f s = (e, s') \<Longrightarrow>
    e \<noteq> Some errTooManyGapsInReceivedStreamData \<Longrightarrow> sorter_run c final (P \<union> positions f) out s'"
| run_pop: "sorter_run c final P out s \<Longrightarrow> Pop s = (Some f, s') \<Longrightarrow> sorter_run c final P (out @ Data f) s'"

lemma sorter_inv_new: "sorter_inv c final newStreamFrameSorter" "missing (gaps newStreamFrameSorter) = {..< 2 ^ 64 - 1}"
  by (auto simp: sorter_inv_def newStreamFrameSorter_def queue_ok_def MaxByteCount_def missing_def intro: tiled_refl)

lemma sorter_run_inv:
  assumes "sorter_run c final P out s" "final < 2 ^ 64 - 1"
  shows "sorter_inv c final s \<and> missing (gaps s) = {..< 2 ^ 64 - 1} - P \<and>
    unat (readPosition s) = length out \<and> (\<forall>i < length out. out ! i = c i) \<and> length out \<le> final"
  using assms(1)
proof (induction rule: sorter_run.induct)
  case run_start
  then show ?case using sorter_inv_new by (simp add: newStreamFrameSorter_def)
next
  case (run_push P out s f e s')
  then have inv: "sorter_inv c final s" and f: "carries c final f" "Data f = [] \<longrightarrow> FinBit f"
    by (simp_all add: frame_of_def)
  have "sorter_inv c final s' \<and> missing (gaps s') = missing (gaps s) - positions f \<and> readPosition s' = readPosition s"
    using Push_inv [OF inv f(1) assms(2) f(2)] run_push(4) inv unfolding run_push(3) by (cases e) auto
  then show ?case using run_push.IH by (simp add: Diff_eq Int_assoc)
next
  case (run_pop P out s f s')
  then have h: "Head s = Some f" and s': "s' = snd (Pop s)" by (auto simp: Pop_def split: option.splits)
  have IH: "sorter_inv c final s" "missing (gaps s) = {..< 2 ^ 64 - 1} - P" "unat (readPosition s) = length out"
    "\<forall>i < length out. out ! i = c i" using run_pop.IH by blast+
  note P = Pop_inv [OF IH(1) h assms(2), folded s', unfolded IH(3)]
  have "Data f ! i = c (length out + i)" if "i < length (Data f)" for i
    using that by (subst P(4)) simp
  then have "\<forall>i < length (out @ Data f). (out @ Data f) ! i = c i" using IH(4) by (auto simp: nth_append)
  then show ?case using P(1-3,5) IH(2) by simp
qed

text \<open>
  C8. whatever frames of a stream arrive, in whatever order and with whatever overlap, the bytes the reader
  pops are the stream's bytes from the beginning on, in order, none twice and none left out.
\<close>

theorem sorter_in_order:
  assumes "sorter_run c final P out s" "final < 2 ^ 64 - 1"
  shows "out = map c [0 ..< length out] \<and> readPosition s = of_nat (length out) \<and> length out \<le> final"
proof -
  note I = sorter_run_inv [OF assms]
  have "readPosition s = of_nat (unat (readPosition s))" by simp
  then have "readPosition s = of_nat (length out)" using I by metis
  moreover have "out = map c [0 ..< length out]" using I by (intro nth_equalityI) auto
  ultimately show ?thesis using I by blast
qed

text \<open>
  C4. nothing received is lost: once the reader has popped all it can, it has every byte up to the first one
  that has not arrived.
\<close>

theorem sorter_no_loss:
  assumes "sorter_run c final P out s" "final < 2 ^ 64 - 1" "Head s = None"
  shows "length out \<notin> P \<and> (\<forall>n. {..< n} \<subseteq> P \<longrightarrow> n \<le> length out)"
proof -
  note I = sorter_run_inv [OF assms(1,2)]
  have "length out \<notin> P" using Head_None [OF _ assms(3)] I by auto
  then show ?thesis by (meson lessThan_iff not_le subsetD)
qed

lemma push_errors_differ: "errDuplicateStreamData \<noteq> errTooManyGapsInReceivedStreamData"
  by (simp add: errDuplicateStreamData_def errTooManyGapsInReceivedStreamData_def)

text \<open>
  C34. pushing a frame of the stream gives one of two errors only. A frame is refused as a duplicate only
  when it has no new byte (then the buffer does not change), and the two errors the code reserves for
  inconsistent gap lists never occur.
\<close>

theorem sorter_push_errors:
  assumes "sorter_run c final P out s" "frame_of c final f" "final < 2 ^ 64 - 1" "Push f s = (e, s')"
  shows "e \<in> {None, Some errDuplicateStreamData, Some errTooManyGapsInReceivedStreamData} \<and>
    (e = Some errDuplicateStreamData \<longrightarrow> s' = s \<and> positions f \<subseteq> P)"
proof
  note I = sorter_run_inv [OF assms(1,3)]
  have f: "carries c final f" "Data f = [] \<longrightarrow> FinBit f" using assms(2) by (simp_all add: frame_of_def)
  note C = Push_inv [OF conjunct1 [OF I] f(1) assms(3) f(2), unfolded assms(4)]
  show "e \<in> {None, Some errDuplicateStreamData, Some errTooManyGapsInReceivedStreamData}" using C by (cases e) auto
  have "positions f \<subseteq> {..< 2 ^ 64 - 1}" using f(1) assms(3) by (auto simp: carries_def)
  moreover have "e = Some errDuplicateStreamData \<longrightarrow> s' = s \<and> positions f \<inter> missing (gaps s) = {}"
    using C by (cases e) (simp_all add: push_errors_differ, use push_errors_differ in blast)
  ultimately show "e = Some errDuplicateStreamData \<longrightarrow> s' = s \<and> positions f \<subseteq> P" using I by blast
qed

text \<open>An example: the last byte of three arrives, then all three with the end of the stream.\<close>

definition tailFrame :: StreamFrame where
  "tailFrame = \<lparr>StreamFrame.StreamID = 5, FinBit = False, DataLenPresent = True, Offset = 2, Data = [2]\<rparr>"

definition wholeFrame :: StreamFrame where
  "wholeFrame = \<lparr>StreamFrame.StreamID = 5, FinBit = True, DataLenPresent = True, Offset = 0, Data = [0, 1, 2]\<rparr>"

definition exampleSorter :: streamFrameSorter where
  "exampleSorter = snd (Push wholeFrame (snd (Push tailFrame newStreamFrameSorter)))"

lemma example_frames: "frame_of of_nat 3 tailFrame" "frame_of of_nat 3 wholeFrame"
  by (simp_all add: frame_of_def carries_def tailFrame_def wholeFrame_def upt_conv_Cons)

lemma example_push:
  "Push tailFrame newStreamFrameSorter = (None, \<lparr>queuedFrames = [2 \<mapsto> tailFrame], readPosition = 0,
     gaps = [\<lparr>Start = 0, End = 2\<rparr>, \<lparr>Start = 3, End = MaxByteCount\<rparr>]\<rparr>)"
  by (simp add: Push_def pushFrame_def cutQueued_def tailFrame_def newStreamFrameSorter_def DataLen_def
      MaxByteCount_def MaxStreamFrameSorterGaps_def adjustGaps_def)

lemma example_push_whole: "exampleSorter = \<lparr>queuedFrames = [2 \<mapsto> tailFrame, 0 \<mapsto> wholeFrame\<lparr>Data := [0, 1]\<rparr>],
     readPosition = 0, gaps = [\<lparr>Start = 3, End = MaxByteCount\<rparr>]\<rparr>"
  "fst (Push wholeFrame (snd (Push tailFrame newStreamFrameSorter))) = None"
  by (simp_all add: exampleSorter_def example_push, simp_all add: Push_def pushFrame_def cutQueued_def wholeFrame_def DataLen_def
      MaxByteCount_def MaxStreamFrameSorterGaps_def adjustGaps_def)

lemma example_run: "sorter_run of_nat 3 {..< 3} [] exampleSorter"
proof -
  have "sorter_run of_nat 3 ({} \<union> positions tailFrame) [] (snd (Push tailFrame newStreamFrameSorter))"
    by (rule run_push [OF run_start example_frames(1) prod.collapse [symmetric]]) (simp add: example_push)
  then have "sorter_run of_nat 3 ({} \<union> positions tailFrame \<union> positions wholeFrame) [] exampleSorter"
    unfolding exampleSorter_def
    by (rule run_push [OF _ example_frames(2) prod.collapse [symmetric]]) (simp add: example_push_whole)
  moreover have "{} \<union> positions tailFrame \<union> positions wholeFrame = {..< 3}"
    by (auto simp: tailFrame_def wholeFrame_def)
  ultimately show ?thesis by simp
qed

definition poppedSorter :: streamFrameSorter where
  "poppedSorter = snd (Pop (snd (Pop exampleSorter)))"

lemma example_pop: "sorter_run of_nat 3 {..< 3} [0, 1, 2] poppedSorter" "Head poppedSorter = None"
proof -
  have "sorter_run of_nat 3 {..< 3} ([] @ Data (wholeFrame\<lparr>Data := [0, 1]\<rparr>)) (snd (Pop exampleSorter))"
    by (rule run_pop [OF example_run]) (simp add: Pop_def Head_def example_push_whole)
  then have "sorter_run of_nat 3 {..< 3} (([] @ Data (wholeFrame\<lparr>Data := [0, 1]\<rparr>)) @ Data tailFrame) poppedSorter"
    unfolding poppedSorter_def
    by (rule run_pop) (simp add: Pop_def Head_def example_push_whole wholeFrame_def DataLen_def)
  then show "sorter_run of_nat 3 {..< 3} [0, 1, 2] poppedSorter" by (simp add: tailFrame_def)
  show "Head poppedSorter = None"
    by (simp add: poppedSorter_def Pop_def Head_def example_push_whole wholeFrame_def tailFrame_def DataLen_def)
qed

theorem sorter_in_order_witness: "([0, 1, 2] :: byte list) = map of_nat [0 ..< 3] \<and> readPosition poppedSorter = 3"
  using sorter_in_order [OF example_pop(1)] by (simp add: upt_conv_Cons)

theorem sorter_no_loss_witness: "(3 :: nat) \<le> length ([0, 1, 2] :: byte list) \<and> sorter_run of_nat 3 {..< 3} [0, 1, 2] poppedSorter"
  using sorter_no_loss [OF example_pop(1) _ example_pop(2)] example_pop(1) by simp

theorem sorter_push_errors_witness:
  "fst (Push wholeFrame exampleSorter) \<in> {None, Some errDuplicateStreamData, Some errTooManyGapsInReceivedStreamData}"
  using sorter_push_errors [OF example_run example_frames(2) _ prod.collapse [symmetric]] by simp

text \<open>
  C35. what an accepted frame leaves in the queue, and where its FIN bit gets to. The queued frame reaches from the first
  to the last byte of the frame that was new, and it keeps the FIN bit. So the FIN bit is where the stream ends exactly
  if the last byte of the stream had not been received before; otherwise the frame marked as the last one ends too early.
\<close>

theorem sorter_fin_before_end:
  assumes "sorter_run c final P out s" "frame_of c final f" "final < 2 ^ 64 - 1" "Data f \<noteq> []" "Push f s = (None, s')"
  shows "\<exists>g. queuedFrames s' (Offset g) = Some g \<and> FinBit g = FinBit f \<and>
    positions g = {Min (positions f - P) .. Max (positions f - P)} \<and>
    (FinBit f \<longrightarrow> (unat (Offset g) + length (Data g) = final \<longleftrightarrow> final - 1 \<notin> P))"
proof -
  note I = sorter_run_inv [OF assms(1,3)]
  have f: "carries c final f" "FinBit f \<longrightarrow> unat (Offset f) + length (Data f) = final" using assms(2) by (simp_all add: frame_of_def)
  from Push_queued [OF conjunct1 [OF I] f(1) assms(3,4,5)] obtain g where
    g: "queuedFrames s' (Offset g) = Some g" "FinBit g = FinBit f" "Data g \<noteq> []" and
    N: "unat (Offset g) \<in> positions f \<inter> missing (gaps s)" "unat (Offset g) + length (Data g) - 1 \<in> positions f \<inter> missing (gaps s)"
      "positions f \<inter> missing (gaps s) \<subseteq> positions g" by blast
  have "positions f \<subseteq> {..< 2 ^ 64 - 1}" using f(1) assms(3) by (auto simp: carries_def)
  then have new: "positions f \<inter> missing (gaps s) = positions f - P" using I by blast
  have "positions g = {unat (Offset g) .. unat (Offset g) + length (Data g) - 1}" using g(3) by (cases "Data g") auto
  moreover have "Min (positions f - P) = unat (Offset g)" "Max (positions f - P) = unat (Offset g) + length (Data g) - 1"
    using N unfolding new by (fastforce intro!: Min_eqI Max_eqI dest: subsetD [OF N(3) [unfolded new]])+
  moreover have "unat (Offset g) + length (Data g) = final \<longleftrightarrow> final - 1 \<notin> P" if "FinBit f"
  proof -
    have fin: "positions f = {unat (Offset f) ..< final}" "unat (Offset f) < final" using f(2) that assms(4) by auto
    have "final - 1 \<in> positions f" using fin by auto
    then have "final - 1 \<notin> P \<longrightarrow> final - 1 \<in> positions g" using N(3) unfolding new by blast
    moreover have "0 < length (Data g)" "unat (Offset g) + length (Data g) - 1 < final" using N(2) g(3) fin by auto
    ultimately show ?thesis using N(2) unfolding new by auto
  qed
  ultimately show ?thesis using g by (intro exI [of _ g]) simp
qed

theorem sorter_fin_before_end_witness:
  "\<exists>g. queuedFrames exampleSorter (Offset g) = Some g \<and> FinBit g \<and> unat (Offset g) + length (Data g) \<noteq> 3"
proof -
  have push: "Push wholeFrame (snd (Push tailFrame newStreamFrameSorter)) = (None, exampleSorter)"
    using example_push_whole(2) by (simp add: exampleSorter_def prod_eq_iff)
  have "sorter_run of_nat 3 ({} \<union> positions tailFrame) [] (snd (Push tailFrame newStreamFrameSorter))"
    by (rule run_push [OF run_start example_frames(1) prod.collapse [symmetric]]) (simp add: example_push)
  from sorter_fin_before_end [OF this example_frames(2) _ _ push] show ?thesis by (auto simp: wholeFrame_def tailFrame_def)
qed

end
