(* ===== verification/GoFloat.thy ===== *)
theory GoFloat
  imports Prelude Complex_Main "HOL-Library.Log_Nat"
begin

text \<open>
  Go's floating-point arithmetic, as far as the components use it: a finite \<^verbatim>\<open>float32\<close> or \<^verbatim>\<open>float64\<close> is the
  rational number it stands for, and every operation rounds its exact result to the nearest number with 24 or
  53 significant bits, ties to even (IEEE 754). Values stay far from overflow and from the subnormal range.
\<close>

section \<open>Rounding\<close>

text \<open>The binary exponent of a positive number.\<close>

definition ilog2 :: "rat \<Rightarrow> int" where
  "ilog2 q =
     (let (n, d) = quotient_of q; e = bitlen n - bitlen d
      in if 2 powi e \<le> q then e else e - 1)"

definition roundEven :: "rat \<Rightarrow> int" where
  "roundEven x =
     (let f = \<lfloor>x\<rfloor>; r = x - of_int f
      in if r < 1 / 2 then f else if r > 1 / 2 then f + 1 else if even f then f else f + 1)"

definition roundTo :: "nat \<Rightarrow> rat \<Rightarrow> rat" where
  "roundTo p q =
     (if q = 0 then 0
      else let e = ilog2 \<bar>q\<bar> - (int p - 1) in of_int (roundEven (q / 2 powi e)) * 2 powi e)"

abbreviation float32 :: "rat \<Rightarrow> rat" where "float32 \<equiv> roundTo 24"
abbreviation float64 :: "rat \<Rightarrow> rat" where "float64 \<equiv> roundTo 53"

text \<open>A conversion to an integer type truncates.\<close>

definition truncRat :: "rat \<Rightarrow> int" where
  "truncRat q = (if q \<ge> 0 then \<lfloor>q\<rfloor> else \<lceil>q\<rceil>)"

section \<open>Bounds\<close>

lemma bitlen_powi:
  assumes "0 < n"
  shows "2 powi (bitlen n - 1) \<le> (of_int n :: rat)" "(of_int n :: rat) < 2 powi bitlen n"
proof -
  have "2 ^ nat (bitlen n - 1) \<le> n \<and> n < 2 ^ nat (bitlen n)" using assms bitlen_bounds by blast
  then have "of_int (2 ^ nat (bitlen n - 1)) \<le> (of_int n :: rat)" "(of_int n :: rat) < of_int (2 ^ nat (bitlen n))"
    by (simp_all only: of_int_le_iff of_int_less_iff)
  moreover have "0 < bitlen n" using assms by (subst compute_bitlen) (simp add: bitlen_nonneg)
  ultimately show "2 powi (bitlen n - 1) \<le> (of_int n :: rat)" "(of_int n :: rat) < 2 powi bitlen n"
    by (simp_all add: power_int_def)
qed

lemma ilog2_bounds:
  assumes "0 < q"
  shows "2 powi ilog2 q \<le> q" "q < 2 powi (ilog2 q + 1)"
proof -
  obtain n d where q: "quotient_of q = (n, d)" by fastforce
  have d: "0 < d" and eq: "q = of_int n / of_int d" using q quotient_of_denom_pos quotient_of_div by blast+
  have n: "0 < n" using assms d unfolding eq by (simp add: zero_less_divide_iff)
  define a b where "a = bitlen n" and "b = bitlen d"
  note N = bitlen_powi [OF n, folded a_def] and D = bitlen_powi [OF d, folded b_def]
  have dpos: "0 < (of_int d :: rat)" using d by simp
  have "2 powi (a - b - 1) * of_int d < (2 powi (a - b - 1) * 2 powi b :: rat)" using D(2) by simp
  also have "\<dots> = 2 powi (a - 1)" by (simp flip: power_int_add)
  finally have lower: "2 powi (a - b - 1) < q" using N(1) dpos by (simp add: eq pos_less_divide_eq)
  have "of_int n < 2 powi (a - b + 1) * (2 powi (b - 1) :: rat)" using N(2) by (simp flip: power_int_add)
  also have "\<dots> \<le> 2 powi (a - b + 1) * of_int d" using D(1) by simp
  finally have upper: "q < 2 powi (a - b + 1)" using dpos by (simp add: eq pos_divide_less_eq)
  show "2 powi ilog2 q \<le> q" "q < 2 powi (ilog2 q + 1)"
    using lower upper by (auto simp: ilog2_def q Let_def a_def b_def)
qed

lemma powi_le_cancel: "(2 :: rat) powi a < 2 powi b \<Longrightarrow> a < b"
  by (meson not_less power_int_increasing one_le_numeral)

lemma roundEven_of_int [simp]: "roundEven (of_int m) = m"
  by (simp add: roundEven_def)

lemma roundEven_error: "\<bar>of_int (roundEven x) - x\<bar> \<le> 1 / 2"
proof -
  define f where "f = \<lfloor>x\<rfloor>"
  have "of_int f \<le> x" "x < of_int f + 1" unfolding f_def by linarith+
  then show ?thesis unfolding roundEven_def Let_def f_def [symmetric] abs_le_iff by (auto simp: not_less)
qed

text \<open>A number with at most \<open>p\<close> significant bits is not changed, and the relative error is at most \<open>1 / 2 ^ p\<close>.\<close>

lemma roundTo_exact:
  assumes "\<bar>m\<bar> < 2 ^ p"
  shows "roundTo p (of_int m * 2 powi k) = of_int m * 2 powi k"
proof (cases "m = 0")
  case False
  define q where "q = (of_int m * 2 powi k :: rat)"
  define e where "e = ilog2 \<bar>q\<bar> - (int p - 1)"
  have q0: "q \<noteq> 0" using False by (simp add: q_def)
  have "of_int \<bar>m\<bar> < (of_int (2 ^ p) :: rat)" using assms by (simp only: of_int_less_iff)
  then have "\<bar>q\<bar> < 2 ^ p * 2 powi k" by (simp add: q_def abs_mult)
  also have "\<dots> = 2 powi (int p + k)" by (simp add: power_int_add)
  finally have "2 powi ilog2 \<bar>q\<bar> < (2 :: rat) powi (int p + k)"
    using ilog2_bounds(1) [of "\<bar>q\<bar>"] q0 by simp
  then obtain n where n: "k = e + int n" using powi_le_cancel nonneg_int_cases [of "k - e"] unfolding e_def
    by (metis add.commute diff_add_cancel diff_ge_0_iff_ge diff_diff_eq2 zle_diff1_eq add_diff_eq diff_le_eq)
  have "q / 2 powi e = of_int (m * 2 ^ n)" by (simp add: q_def n power_int_add)
  then have "roundEven (q / 2 powi e) = m * 2 ^ n" by (simp only: roundEven_of_int)
  then show ?thesis using q0 unfolding q_def [symmetric]
    by (simp add: roundTo_def Let_def e_def [symmetric]) (simp add: q_def n power_int_add)
qed (simp add: roundTo_def)

lemma roundTo_error: "\<bar>roundTo p q - q\<bar> \<le> \<bar>q\<bar> / 2 ^ p"
proof (cases "q = 0")
  case False
  let ?e = "ilog2 \<bar>q\<bar> - (int p - 1)"
  have "roundTo p q - q = (of_int (roundEven (q / 2 powi ?e)) - q / 2 powi ?e) * 2 powi ?e"
    using False by (simp add: roundTo_def Let_def left_diff_distrib)
  then have "\<bar>roundTo p q - q\<bar> \<le> 1 / 2 * 2 powi ?e"
    using roundEven_error [of "q / 2 powi ?e"] by (simp add: abs_mult mult_right_mono)
  also have "\<dots> = 2 powi ilog2 \<bar>q\<bar> / 2 ^ p" by (simp add: power_int_diff)
  also have "\<dots> \<le> \<bar>q\<bar> / 2 ^ p" using ilog2_bounds(1) [of "\<bar>q\<bar>"] False by (simp add: divide_right_mono)
  finally show ?thesis .
qed (simp add: roundTo_def)

lemma float32_near:
  assumes "0 \<le> q"
  shows "99 / 100 * q \<le> float32 q" "float32 q \<le> 101 / 100 * q"
proof -
  define x where "x = float32 q"
  have "\<bar>x - q\<bar> \<le> q / 100" using roundTo_error [of 24 q] assms by (simp add: x_def)
  from abs_le_D1 [OF this] abs_le_D2 [OF this] have "99 / 100 * q \<le> x" "x \<le> 101 / 100 * q" by linarith+
  then show "99 / 100 * q \<le> float32 q" "float32 q \<le> 101 / 100 * q" by (simp_all add: x_def)
qed

end
