(* ===== verification/Handshake.thy ===== *)
theory Handshake
  imports ByteOrder Qerr PublicHeader "HOL-Library.AList_Mapping" "HOL-Library.Char_ord"
begin

text \<open>
  Handshake messages, \<^verbatim>\<open>internal/handshake/handshake_message.go\<close> and \<^verbatim>\<open>tags.go\<close>, and public resets, which are
  handshake messages without encryption, \<^verbatim>\<open>internal/wire/public_reset.go\<close>. A message is a tag with a map from
  tags to values; it is written with the tags sorted and an index of the ends of the values, and read back.
\<close>

section \<open>Tags\<close>

type_synonym Tag = u32

text \<open>\<^verbatim>\<open>'C' + 'H'<<8 + 'L'<<16 + 'O'<<24\<close>, with three or four characters.\<close>

primrec fourCC :: "string \<Rightarrow> Tag" where
  "fourCC [] = 0"
| "fourCC (c # cs) = of_char c + push_bit 8 (fourCC cs)"

definition TagCHLO :: Tag where "TagCHLO = fourCC ''CHLO''"
definition TagREJ :: Tag where "TagREJ = fourCC ''REJ''"
definition TagSHLO :: Tag where "TagSHLO = fourCC ''SHLO''"
definition TagPAD :: Tag where "TagPAD = fourCC ''PAD''"
definition TagMSPC :: Tag where "TagMSPC = fourCC ''MSPC''"
definition TagMIDS :: Tag where "TagMIDS = fourCC ''MIDS''"
definition TagTCID :: Tag where "TagTCID = fourCC ''TCID''"
definition TagICSL :: Tag where "TagICSL = fourCC ''ICSL''"
definition TagCFCW :: Tag where "TagCFCW = fourCC ''CFCW''"
definition TagSFCW :: Tag where "TagSFCW = fourCC ''SFCW''"
definition TagPRST :: Tag where "TagPRST = fourCC ''PRST''"
definition TagRSEQ :: Tag where "TagRSEQ = fourCC ''RSEQ''"
definition TagRNON :: Tag where "TagRNON = fourCC ''RNON''"

section \<open>Messages\<close>

type_synonym tag_map = "(Tag, byte list) mapping"

record HandshakeMessage =
  Tag :: Tag
  Data :: tag_map

definition CryptoMaxParams :: u32 where "CryptoMaxParams = 128"
definition CryptoParameterMaxLength :: u32 where "CryptoParameterMaxLength = 4000"

text \<open>\<^verbatim>\<open>binary.LittleEndian\<close> of the standard library, on slices that are long enough.\<close>

definition Uint32 :: "byte list \<Rightarrow> u32" where
  "Uint32 b = ucast (b ! 0) OR push_bit 8 (ucast (b ! 1)) OR push_bit 16 (ucast (b ! 2)) OR push_bit 24 (ucast (b ! 3))"

definition Uint64 :: "byte list \<Rightarrow> u64" where
  "Uint64 b = ucast (b ! 0) OR push_bit 8 (ucast (b ! 1)) OR push_bit 16 (ucast (b ! 2)) OR push_bit 24 (ucast (b ! 3)) OR
     push_bit 32 (ucast (b ! 4)) OR push_bit 40 (ucast (b ! 5)) OR push_bit 48 (ucast (b ! 6)) OR push_bit 56 (ucast (b ! 7))"

definition PutUint32 :: "u32 \<Rightarrow> byte list" where
  "PutUint32 v = [ucast v, ucast (drop_bit 8 v), ucast (drop_bit 16 v), ucast (drop_bit 24 v)]"

text \<open>The loop over the index, eight bytes at a time, which reads the values from the rest of the input.\<close>

fun parsePairs :: "byte list \<Rightarrow> u32 \<Rightarrow> tag_map \<Rightarrow> tag_map parser" where
  "parsePairs (b0 # b1 # b2 # b3 # b4 # b5 # b6 # b7 # index) dataStart resultMap =
     (let tag = Uint32 [b0, b1, b2, b3];
          dataEnd = Uint32 [b4, b5, b6, b7];
          dataLen = dataEnd - dataStart
      in if dataLen > CryptoParameterMaxLength then fail_p (QuicError CryptoInvalidValueLength ''value too long'')
         else bind_p (ReadFull (unat dataLen)) (\<lambda>data.
           parsePairs index dataEnd (Mapping.update tag data resultMap)))"
| "parsePairs index dataStart resultMap = return_p resultMap"

definition ParseHandshakeMessage :: "HandshakeMessage parser" where
  "ParseHandshakeMessage =
     bind_p (ReadFull 4) (\<lambda>slice4. let messageTag = Uint32 slice4 in
     bind_p (ReadFull 4) (\<lambda>slice4. let nPairs = Uint32 slice4 in
       if nPairs > CryptoMaxParams then fail_p (Code CryptoTooManyEntries)
       else
     bind_p (ReadFull (unat (nPairs * 8))) (\<lambda>index.
     bind_p (parsePairs index 0 Mapping.empty) (\<lambda>resultMap.
       return_p \<lparr>Tag = messageTag, Data = resultMap\<rparr>))))"

definition getTagsSorted :: "HandshakeMessage \<Rightarrow> Tag list" where
  "getTagsSorted h = Mapping.ordered_keys (Data h)"

text \<open>The index and the values, from an offset on.\<close>

fun writePairs :: "tag_map \<Rightarrow> u32 \<Rightarrow> Tag list \<Rightarrow> byte list \<times> byte list" where
  "writePairs data offset [] = ([], [])"
| "writePairs data offset (t # ts) =
     (let v = (case Mapping.lookup data t of Some v \<Rightarrow> v | None \<Rightarrow> []);
          offset = offset + of_nat (length v);
          (indexData, values) = writePairs data offset ts
      in (PutUint32 t @ PutUint32 offset @ indexData, v @ values))"

definition HandshakeMessage_Write :: "HandshakeMessage \<Rightarrow> byte list" where
  "HandshakeMessage_Write h =
     (let data = Data h;
          (indexData, values) = writePairs data 0 (getTagsSorted h)
      in littleEndian_WriteUint32 (Tag h) @ littleEndian_WriteUint16 (of_nat (Mapping.size data)) @
         littleEndian_WriteUint16 0 @ indexData @ values)"

section \<open>Public resets\<close>

record PublicReset =
  RejectedPacketNumber :: PacketNumber
  Nonce :: u64

definition WritePublicReset :: "ConnectionID \<Rightarrow> PacketNumber \<Rightarrow> u64 \<Rightarrow> byte list" where
  "WritePublicReset connectionID rejectedPacketNumber nonceProof =
     [0x0a] @ littleEndian_WriteUint64 connectionID @ littleEndian_WriteUint32 TagPRST @ littleEndian_WriteUint32 2 @
     littleEndian_WriteUint32 TagRNON @ littleEndian_WriteUint32 8 @ littleEndian_WriteUint32 TagRSEQ @
     littleEndian_WriteUint32 16 @ littleEndian_WriteUint64 nonceProof @ littleEndian_WriteUint64 rejectedPacketNumber"

definition errWrongPublicResetTag :: error where "errWrongPublicResetTag = ErrNew ''wrong public reset tag''"
definition errRSEQMissing :: error where "errRSEQMissing = ErrNew ''RSEQ missing''"
definition errInvalidRSEQ :: error where "errInvalidRSEQ = ErrNew ''invalid RSEQ tag''"
definition errRNONMissing :: error where "errRNONMissing = ErrNew ''RNON missing''"
definition errInvalidRNON :: error where "errInvalidRNON = ErrNew ''invalid RNON tag''"

definition ParsePublicReset :: "PublicReset parser" where
  "ParsePublicReset =
     bind_p ParseHandshakeMessage (\<lambda>msg.
       if Tag msg \<noteq> TagPRST then fail_p errWrongPublicResetTag
       else case Mapping.lookup (Data msg) TagRSEQ of
         None \<Rightarrow> fail_p errRSEQMissing
       | Some rseq \<Rightarrow>
           if length rseq \<noteq> 8 then fail_p errInvalidRSEQ
           else case Mapping.lookup (Data msg) TagRNON of
             None \<Rightarrow> fail_p errRNONMissing
           | Some rnon \<Rightarrow>
               if length rnon \<noteq> 8 then fail_p errInvalidRNON
               else return_p \<lparr>RejectedPacketNumber = Uint64 rseq, Nonce = Uint64 rnon\<rparr>)"

section \<open>Round trips\<close>

lemma or_next_byte:
  fixes x :: "'a::len word"
  shows "m = n + 8 \<Longrightarrow> take_bit n x OR push_bit n (take_bit 8 (drop_bit n x)) = take_bit m x"
  by (rule bit_word_eqI) (auto simp: bit_simps)

lemma ucast_low_byte: "ucast (ucast (x :: 'a::len word) :: byte) = take_bit 8 x"
  by (rule bit_word_eqI) (auto simp: bit_simps)

lemma Uint32_Put [codec, simp]:
  "Uint32 (PutUint32 v) = v" "Uint32 (littleEndian_WriteUint32 v) = v"
  unfolding Uint32_def PutUint32_def littleEndian_WriteUint32_def
  by (simp_all add: ucast_low_byte or_next_byte take_bit_word_eq_self flip: or.assoc)

lemma Uint64_Write [codec, simp]: "Uint64 (littleEndian_WriteUint64 v) = v"
  unfolding Uint64_def littleEndian_WriteUint64_def by (simp add: ucast_low_byte or_next_byte take_bit_word_eq_self flip: or.assoc)

lemma length_writers [simp]:
  "length (PutUint32 v) = 4" "length (littleEndian_WriteUint32 v) = 4" "length (littleEndian_WriteUint64 w) = 8"
  by (simp_all add: PutUint32_def littleEndian_WriteUint32_def littleEndian_WriteUint64_def)

text \<open>The index entry of one value is read back with the value.\<close>

lemma parsePairs_entry:
  assumes "unat start + length v < 2 ^ 32" "length v \<le> 4000" "offset = start + of_nat (length v)"
  shows "parsePairs (PutUint32 t @ PutUint32 offset @ index) start m (v @ r) =
    parsePairs index offset (Mapping.update t v m) r"
proof -
  have len: "unat (offset - start) = length v" using assms by (simp add: unat_of_nat)
  then have "\<not> offset - start > CryptoParameterMaxLength"
    using assms(2) by (simp add: CryptoParameterMaxLength_def word_less_nat_alt)
  moreover obtain a b c d where t: "PutUint32 t = [a, b, c, d]" by (simp add: PutUint32_def)
  moreover obtain a' b' c' d' where o: "PutUint32 offset = [a', b', c', d']" by (simp add: PutUint32_def)
  moreover have "Uint32 [a, b, c, d] = t" "Uint32 [a', b', c', d'] = offset" by (simp_all flip: t o)
  ultimately show ?thesis by (simp add: bind_p_apply len)
qed

definition total :: "tag_map \<Rightarrow> Tag list \<Rightarrow> nat" where
  "total data ts = (\<Sum>t \<leftarrow> ts. length (the (Mapping.lookup data t)))"

lemma parse_writePairs:
  assumes "set ts \<subseteq> Mapping.keys data" "\<forall>t \<in> set ts. length (the (Mapping.lookup data t)) \<le> 4000"
    and "unat start + total data ts < 2 ^ 32" "writePairs data start ts = (index, vs)"
  shows "parsePairs index start m (vs @ r) = Inr (fold (\<lambda>t. Mapping.update t (the (Mapping.lookup data t))) ts m, r) \<and>
    length index = 8 * length ts \<and> length vs = total data ts"
  using assms
proof (induction ts arbitrary: start index vs m)
  case (Cons t ts)
  obtain v where v: "Mapping.lookup data t = Some v" using Cons.prems(1) by (auto dest: in_keysD)
  define offset where "offset = start + of_nat (length v)"
  obtain ix ws where rec: "writePairs data offset ts = (ix, ws)" by fastforce
  have fits: "unat start + length v + total data ts < 2 ^ 32" using Cons.prems(3) v by (simp add: total_def)
  then have "unat offset = unat start + length v"
    by (simp add: offset_def unat_word_ariths unat_of_nat)
  then have IH: "parsePairs ix offset m' (ws @ r) = Inr (fold (\<lambda>t. Mapping.update t (the (Mapping.lookup data t))) ts m', r) \<and>
      length ix = 8 * length ts \<and> length ws = total data ts" for m'
    using Cons.prems(1,2) fits by (intro Cons.IH [OF _ _ _ rec]) auto
  have "index = PutUint32 t @ PutUint32 offset @ ix" "vs = v @ ws"
    using Cons.prems(4) v rec by (auto simp: offset_def)
  then show ?case using IH parsePairs_entry [OF _ _ offset_def, of t ix m "ws @ r"] fits Cons.prems(2) v by (simp add: total_def)
qed (simp add: total_def)

definition wf_message :: "HandshakeMessage \<Rightarrow> bool" where
  "wf_message h \<longleftrightarrow> finite (Mapping.keys (Data h)) \<and> Mapping.size (Data h) \<le> 128 \<and>
     Mapping.All_mapping (Data h) (\<lambda>_ v. length v \<le> 4000)"

lemma wf_message_bounds:
  assumes "wf_message h"
  shows "set (getTagsSorted h) = Mapping.keys (Data h)" "length (getTagsSorted h) = Mapping.size (Data h)"
    "\<forall>t \<in> set (getTagsSorted h). length (the (Mapping.lookup (Data h) t)) \<le> 4000"
    "total (Data h) (getTagsSorted h) < 2 ^ 32"
proof -
  let ?ts = "getTagsSorted h"
  show set: "set ?ts = Mapping.keys (Data h)" using assms by (simp add: wf_message_def getTagsSorted_def)
  show len: "length ?ts = Mapping.size (Data h)"
    using set distinct_card [of ?ts] by (simp add: getTagsSorted_def Mapping.size_def)
  show le: "\<forall>t \<in> set ?ts. length (the (Mapping.lookup (Data h) t)) \<le> 4000"
    using assms set by (auto simp: wf_message_def All_mapping_def dest!: in_keysD split: option.splits)
  have "total (Data h) ?ts \<le> (\<Sum>t \<leftarrow> ?ts. 4000)" unfolding total_def using le by (intro sum_list_mono) blast
  also have "\<dots> \<le> 128 * 4000" using assms len by (simp add: wf_message_def sum_list_triv)
  finally show "total (Data h) ?ts < 2 ^ 32" by simp
qed

lemma write_count:
  "littleEndian_WriteUint16 c @ littleEndian_WriteUint16 0 = PutUint32 (ucast c)"
proof -
  have "ucast c = (ucast (ucast c :: u32) :: byte)" "ucast (drop_bit 8 c) = (ucast (drop_bit 8 (ucast c :: u32)) :: byte)"
    "0 = (ucast (drop_bit 16 (ucast c :: u32)) :: byte)" "0 = (ucast (drop_bit 24 (ucast c :: u32)) :: byte)"
    by (rule bit_word_eqI; auto simp: bit_simps dest: bit_imp_le_length)+
  then show ?thesis by (simp add: littleEndian_WriteUint16_def PutUint32_def)
qed

lemma handshake_write_parse:
  assumes "wf_message h"
  shows "ParseHandshakeMessage (HandshakeMessage_Write h @ r) = Inr (h, r)"
proof -
  let ?ts = "getTagsSorted h" and ?n = "of_nat (Mapping.size (Data h)) :: u32"
  note B = wf_message_bounds [OF assms]
  obtain index vs where w: "writePairs (Data h) 0 ?ts = (index, vs)" by fastforce
  note P = parse_writePairs [OF _ B(3) _ w, of Mapping.empty r]
  have size: "Mapping.size (Data h) \<le> 128" using assms by (simp add: wf_message_def)
  then have n: "unat ?n = Mapping.size (Data h)" "unat (?n * 8) = 8 * Mapping.size (Data h)" "\<not> CryptoMaxParams < ?n"
    by (simp_all add: unat_of_nat unat_word_ariths CryptoMaxParams_def word_less_nat_alt)
  have count: "littleEndian_WriteUint16 (of_nat (Mapping.size (Data h))) @ littleEndian_WriteUint16 0 @ x = PutUint32 ?n @ x" for x
    unfolding append_assoc [symmetric] write_count append_same_eq using size by (intro arg_cong [where f = PutUint32]) (simp add: word_unat_eq_iff unat_of_nat)
  have "fold (\<lambda>t. Mapping.update t (the (Mapping.lookup (Data h) t))) ?ts Mapping.empty = Data h"
  proof (rule mapping_eqI)
    show "Mapping.lookup (fold (\<lambda>t. Mapping.update t (the (Mapping.lookup (Data h) t))) ?ts Mapping.empty) x =
        Mapping.lookup (Data h) x" for x
      using lookup_tabulate [of ?ts "\<lambda>t. the (Mapping.lookup (Data h) t)" x] B(1)
      by (cases "Mapping.lookup (Data h) x") (auto simp: getTagsSorted_def keys_dom_lookup simp flip: tabulate_fold)
  qed
  then show ?thesis using P B n
    by (simp add: ParseHandshakeMessage_def HandshakeMessage_Write_def Let_def w bind_p_apply count)
qed

lemma consumes_parsePairs [consumes_intros]: "consumes (parsePairs index start m)"
  by (induction index start m rule: parsePairs.induct) (auto simp: Let_def simp del: return_p_apply intro!: consumes_intros)

lemma consumes_ParseHandshakeMessage [consumes_intros]: "consumes ParseHandshakeMessage"
  unfolding ParseHandshakeMessage_def Let_def by (intro consumes_intros)

text \<open>What has been read so far stays within the limits.\<close>

lemma parsePairs_sound:
  assumes "parsePairs index start m s = Inr (m', r)" "finite (Mapping.keys m)"
    and "Mapping.All_mapping m (\<lambda>_ v. length v \<le> 4000)"
  shows "finite (Mapping.keys m') \<and> Mapping.size m' \<le> Mapping.size m + length index div 8 \<and>
    Mapping.All_mapping m' (\<lambda>_ v. length v \<le> 4000)"
  using assms
proof (induction index start m arbitrary: s rule: parsePairs.induct)
  case (1 b0 b1 b2 b3 b4 b5 b6 b7 index start m)
  define t where "t = Uint32 [b0, b1, b2, b3]"
  define e where "e = Uint32 [b4, b5, b6, b7]"
  from 1(2) obtain v s' where le: "\<not> e - start > CryptoParameterMaxLength" and v: "ReadFull (unat (e - start)) s = Inr (v, s')"
    and rec: "parsePairs index e (Mapping.update t v m) s' = Inr (m', r)"
    by (auto simp: t_def e_def Let_def bind_p_eq_Inr split: if_splits)
  have "length v \<le> 4000" using v le
    by (auto simp: ReadFull_def CryptoParameterMaxLength_def word_less_nat_alt split: if_splits)
  then have "finite (Mapping.keys (Mapping.update t v m))" "Mapping.All_mapping (Mapping.update t v m) (\<lambda>_ v. length v \<le> 4000)"
    using 1(3,4) by (auto simp: All_mapping_def lookup_update')
  then have "finite (Mapping.keys m') \<and> Mapping.size m' \<le> Mapping.size (Mapping.update t v m) + length index div 8 \<and>
    Mapping.All_mapping m' (\<lambda>_ v. length v \<le> 4000)"
    using 1(1) [OF t_def e_def refl _ rec [folded]] le by (simp add: e_def t_def)
  moreover have "(8 + length index) div 8 = Suc (length index div 8)" by simp
  ultimately show ?case using 1(3) by (auto simp: size_update simp del: div_add_self1 split: if_splits)
qed auto

lemma parse_handshake_sound:
  assumes "ParseHandshakeMessage s = Inr (h, r)"
  shows "wf_message h"
proof -
  obtain n ix m s1 s2 where n: "\<not> n > CryptoMaxParams" and ix: "ReadFull (unat (n * 8)) s1 = Inr (ix, s2)"
    and m: "parsePairs ix 0 Mapping.empty s2 = Inr (m, r)" "Data h = m"
    using assms by (auto simp: ParseHandshakeMessage_def Let_def bind_p_eq_Inr split: if_splits)
  have le: "unat n \<le> 128" using n by (simp add: CryptoMaxParams_def word_less_nat_alt)
  then have "length ix = 8 * unat n" using ix
    by (auto simp: ReadFull_def unat_word_ariths split: if_splits)
  then show ?thesis using parsePairs_sound [OF m(1)] m(2) le by (simp add: wf_message_def All_mapping_def)
qed

text \<open>
  C37. a handshake message with at most 128 parameters of at most 4000 bytes each is read back as it was written,
  whatever follows it, with every tag and value; and every message the parser accepts, from any bytes at all,
  satisfies these limits and was taken from the front of the input.
\<close>

theorem handshake_message_roundtrip:
  assumes "wf_message h"
  shows "ParseHandshakeMessage (HandshakeMessage_Write h @ r) = Inr (h, r) \<and>
    (\<forall>s h' r'. ParseHandshakeMessage s = Inr (h', r') \<longrightarrow> wf_message h' \<and> (\<exists>pre. s = pre @ r'))"
  using handshake_write_parse [OF assms] parse_handshake_sound consumesE [OF consumes_ParseHandshakeMessage] by metis

definition exampleMessage :: HandshakeMessage where
  "exampleMessage = \<lparr>Tag = TagCHLO,
     Data = Mapping.update TagPAD [0, 0, 0] (Mapping.update TagMSPC [100, 0, 0, 0] Mapping.empty)\<rparr>"

lemma wf_exampleMessage: "wf_message exampleMessage"
  by (simp add: wf_message_def exampleMessage_def size_update All_mapping_def lookup_update')

theorem handshake_message_roundtrip_witness:
  "wf_message exampleMessage \<and> ParseHandshakeMessage (HandshakeMessage_Write exampleMessage) = Inr (exampleMessage, [])"
  using handshake_message_roundtrip [OF wf_exampleMessage, of "[]"] wf_exampleMessage by simp

text \<open>Behind the public header, a public reset is a handshake message.\<close>

definition resetMessage :: "PacketNumber \<Rightarrow> u64 \<Rightarrow> HandshakeMessage" where
  "resetMessage pn nonce = \<lparr>Tag = TagPRST, Data = Mapping.update TagRSEQ (littleEndian_WriteUint64 pn)
     (Mapping.update TagRNON (littleEndian_WriteUint64 nonce) Mapping.empty)\<rparr>"

lemma tag_values: "TagPRST = 0x54535250" "TagRNON = 0x4E4F4E52" "TagRSEQ = 0x51455352"
  by (simp_all add: TagPRST_def TagRNON_def TagRSEQ_def)

lemma WritePublicReset_message:
  "WritePublicReset connectionID pn nonce = 0x0a # littleEndian_WriteUint64 connectionID @ HandshakeMessage_Write (resetMessage pn nonce)"
  by (simp add: WritePublicReset_def HandshakeMessage_Write_def resetMessage_def getTagsSorted_def tag_values size_update,
      simp add: littleEndian_WriteUint16_def littleEndian_WriteUint32_def PutUint32_def)

text \<open>
  a public reset arrives. The packet the server writes for a connection is parsed, by a client that knows the
  version and by one that does not, as a public header with the reset flag and the connection ID, and what
  follows the header as the rejected packet number and the nonce.
\<close>

theorem public_reset_roundtrip:
  assumes "connectionID \<noteq> 0"
  shows "\<exists>hdr rest. ParsePublicHeader PerspectiveServer v (WritePublicReset connectionID pn nonce) = Inr (hdr, rest) \<and>
    ResetFlag hdr \<and> \<not> VersionFlag hdr \<and> PublicHeader.ConnectionID hdr = connectionID \<and>
    ParsePublicReset rest = Inr (\<lparr>RejectedPacketNumber = pn, Nonce = nonce\<rparr>, [])"
proof -
  have "wf_message (resetMessage pn nonce)"
    by (simp add: wf_message_def resetMessage_def size_update All_mapping_def lookup_update')
  then have "ParsePublicReset (HandshakeMessage_Write (resetMessage pn nonce)) = Inr (\<lparr>RejectedPacketNumber = pn, Nonce = nonce\<rparr>, [])"
    using handshake_write_parse [of "resetMessage pn nonce" "[]"]
    by (simp add: ParsePublicReset_def bind_p_apply) (simp add: resetMessage_def tag_values)
  then show ?thesis using assms
    by (simp add: WritePublicReset_message ParsePublicHeader_def bind_p_apply hasPacketNumber_def Let_def readVersion_def le.read64_write64)
qed

theorem public_reset_roundtrip_witness:
  "\<exists>hdr rest. ParsePublicHeader PerspectiveServer VersionUnknown (WritePublicReset 77 5 99) = Inr (hdr, rest) \<and> ResetFlag hdr \<and>
    ParsePublicReset rest = Inr (\<lparr>RejectedPacketNumber = 5, Nonce = 99\<rparr>, [])"
  using public_reset_roundtrip [of 77 VersionUnknown 5 99] by auto

end
