(* ===== verification/ConnectionParameters.thy ===== *)
theory ConnectionParameters
  imports Handshake GoFloat
begin

text \<open>
  The negotiation of connection parameters, \<^verbatim>\<open>internal/handshake/connection_parameters_manager.go\<close>: what client
  and server offer in their hello messages and what each of them takes from the other's. After the exchange the
  two sides agree.
\<close>

section \<open>Definitions\<close>

definition Second :: Duration where "Second = 1000000000"

definition InitialStreamFlowControlWindow :: ByteCount where "InitialStreamFlowControlWindow = push_bit 14 1"
definition InitialConnectionFlowControlWindow :: ByteCount where "InitialConnectionFlowControlWindow = push_bit 14 1"
definition ReceiveStreamFlowControlWindow :: ByteCount where "ReceiveStreamFlowControlWindow = push_bit 10 1 * 32"
definition ReceiveConnectionFlowControlWindow :: ByteCount where "ReceiveConnectionFlowControlWindow = push_bit 10 1 * 48"
definition MaxStreamsPerConnection :: u32 where "MaxStreamsPerConnection = 100"
definition MaxIncomingDynamicStreamsPerConnection :: u32 where "MaxIncomingDynamicStreamsPerConnection = 100"
definition MaxStreamsMultiplier :: rat where "MaxStreamsMultiplier = 11 / 10"
definition MaxStreamsMinimumIncrement :: u32 where "MaxStreamsMinimumIncrement = 10"

definition ErrMalformedTag :: error where
  "ErrMalformedTag = QuicError InvalidCryptoMessageParameter ''malformed Tag value''"
definition ErrFlowControlRenegotiationNotSupported :: error where
  "ErrFlowControlRenegotiationNotSupported =
     QuicError InvalidCryptoMessageParameter ''renegotiation of flow control parameters not supported''"

record connectionParametersManager =
  version :: VersionNumber
  perspective :: Perspective
  flowControlNegotiated :: bool
  truncateConnectionID :: bool
  maxStreamsPerConnection :: u32
  maxIncomingDynamicStreamsPerConnection :: u32
  idleConnectionStateLifetime :: Duration
  sendStreamFlowControlWindow :: ByteCount
  sendConnectionFlowControlWindow :: ByteCount
  receiveStreamFlowControlWindow :: ByteCount
  receiveConnectionFlowControlWindow :: ByteCount
  maxReceiveStreamFlowControlWindow :: ByteCount
  maxReceiveConnectionFlowControlWindow :: ByteCount

definition NewConnectionParamatersManager ::
    "Perspective \<Rightarrow> VersionNumber \<Rightarrow> ByteCount \<Rightarrow> ByteCount \<Rightarrow> Duration \<Rightarrow> connectionParametersManager" where
  "NewConnectionParamatersManager pers v maxStream maxConnection idleTimeout =
     \<lparr>version = v, perspective = pers, flowControlNegotiated = False, truncateConnectionID = False,
      maxStreamsPerConnection = MaxStreamsPerConnection, maxIncomingDynamicStreamsPerConnection = MaxStreamsPerConnection,
      idleConnectionStateLifetime = idleTimeout,
      sendStreamFlowControlWindow = InitialStreamFlowControlWindow,
      sendConnectionFlowControlWindow = InitialConnectionFlowControlWindow,
      receiveStreamFlowControlWindow = ReceiveStreamFlowControlWindow,
      receiveConnectionFlowControlWindow = ReceiveConnectionFlowControlWindow,
      maxReceiveStreamFlowControlWindow = maxStream, maxReceiveConnectionFlowControlWindow = maxConnection\<rparr>"

definition negotiateMaxStreamsPerConnection :: "u32 \<Rightarrow> u32" where
  "negotiateMaxStreamsPerConnection clientValue = min clientValue MaxStreamsPerConnection"

definition negotiateMaxIncomingDynamicStreamsPerConnection :: "u32 \<Rightarrow> u32" where
  "negotiateMaxIncomingDynamicStreamsPerConnection clientValue = min clientValue MaxIncomingDynamicStreamsPerConnection"

definition negotiateIdleConnectionStateLifetime :: "Duration \<Rightarrow> connectionParametersManager \<Rightarrow> Duration" where
  "negotiateIdleConnectionStateLifetime clientValue h = min clientValue (idleConnectionStateLifetime h)"

text \<open>One parameter of \<^verbatim>\<open>SetFromMap\<close>: nothing happens when it is absent, and a value that is too short is an error.\<close>

definition setParam ::
    "Tag \<Rightarrow> tag_map \<Rightarrow> (u32 \<Rightarrow> connectionParametersManager \<Rightarrow> connectionParametersManager) \<Rightarrow>
     connectionParametersManager \<Rightarrow> error option \<times> connectionParametersManager" where
  "setParam tag params upd h =
     (case Mapping.lookup params tag of
        None \<Rightarrow> (None, h)
      | Some value \<Rightarrow>
          (case littleEndian_ReadUint32 value of
             Inl err \<Rightarrow> (Some ErrMalformedTag, h)
           | Inr (v, _) \<Rightarrow> (None, upd v h)))"

definition setWindow ::
    "Tag \<Rightarrow> tag_map \<Rightarrow> (u32 \<Rightarrow> connectionParametersManager \<Rightarrow> connectionParametersManager) \<Rightarrow>
     connectionParametersManager \<Rightarrow> error option \<times> connectionParametersManager" where
  "setWindow tag params upd h =
     (if Mapping.lookup params tag \<noteq> None \<and> flowControlNegotiated h
      then (Some ErrFlowControlRenegotiationNotSupported, h)
      else setParam tag params upd h)"

definition SetFromMap :: "tag_map \<Rightarrow> connectionParametersManager \<Rightarrow> error option \<times> connectionParametersManager" where
  "SetFromMap params h =
     andThen (if perspective h = PerspectiveServer
              then setParam TagTCID params (\<lambda>v h. h\<lparr>truncateConnectionID := (v = 0)\<rparr>) h else (None, h)) (\<lambda>h.
     andThen (setParam TagMSPC params (\<lambda>v h. h\<lparr>maxStreamsPerConnection := negotiateMaxStreamsPerConnection v\<rparr>) h) (\<lambda>h.
     andThen (setParam TagMIDS params (\<lambda>v h. h\<lparr>maxIncomingDynamicStreamsPerConnection :=
       negotiateMaxIncomingDynamicStreamsPerConnection v\<rparr>) h) (\<lambda>h.
     andThen (setParam TagICSL params (\<lambda>v h. h\<lparr>idleConnectionStateLifetime :=
       negotiateIdleConnectionStateLifetime (uint v * Second) h\<rparr>) h) (\<lambda>h.
     andThen (setWindow TagSFCW params (\<lambda>v h. h\<lparr>sendStreamFlowControlWindow := ucast v\<rparr>) h) (\<lambda>h.
     andThen (setWindow TagCFCW params (\<lambda>v h. h\<lparr>sendConnectionFlowControlWindow := ucast v\<rparr>) h) (\<lambda>h.
       (None, if Mapping.lookup params TagCFCW \<noteq> None \<or> Mapping.lookup params TagSFCW \<noteq> None
              then h\<lparr>flowControlNegotiated := True\<rparr> else h)))))))"

definition GetSendStreamFlowControlWindow :: "connectionParametersManager \<Rightarrow> ByteCount" where
  "GetSendStreamFlowControlWindow h = sendStreamFlowControlWindow h"
definition GetSendConnectionFlowControlWindow :: "connectionParametersManager \<Rightarrow> ByteCount" where
  "GetSendConnectionFlowControlWindow h = sendConnectionFlowControlWindow h"
definition GetReceiveStreamFlowControlWindow :: "connectionParametersManager \<Rightarrow> ByteCount" where
  "GetReceiveStreamFlowControlWindow h = receiveStreamFlowControlWindow h"
definition GetMaxReceiveStreamFlowControlWindow :: "connectionParametersManager \<Rightarrow> ByteCount" where
  "GetMaxReceiveStreamFlowControlWindow h = maxReceiveStreamFlowControlWindow h"
definition GetReceiveConnectionFlowControlWindow :: "connectionParametersManager \<Rightarrow> ByteCount" where
  "GetReceiveConnectionFlowControlWindow h = receiveConnectionFlowControlWindow h"
definition GetMaxReceiveConnectionFlowControlWindow :: "connectionParametersManager \<Rightarrow> ByteCount" where
  "GetMaxReceiveConnectionFlowControlWindow h = maxReceiveConnectionFlowControlWindow h"
definition GetMaxOutgoingStreams :: "connectionParametersManager \<Rightarrow> u32" where
  "GetMaxOutgoingStreams h = maxIncomingDynamicStreamsPerConnection h"
definition GetIdleConnectionStateLifetime :: "connectionParametersManager \<Rightarrow> Duration" where
  "GetIdleConnectionStateLifetime h = idleConnectionStateLifetime h"
definition TruncateConnectionID :: "connectionParametersManager \<Rightarrow> bool" where
  "TruncateConnectionID h = (if perspective h = PerspectiveClient then False else truncateConnectionID h)"

definition GetMaxIncomingStreams :: "connectionParametersManager \<Rightarrow> u32" where
  "GetMaxIncomingStreams h =
     (let maxStreams = MaxIncomingDynamicStreamsPerConnection
      in max (maxStreams + MaxStreamsMinimumIncrement)
           (word_of_int (truncRat (float64 (float64 (of_int (uint maxStreams)) * float64 MaxStreamsMultiplier)))))"

definition GetHelloMap :: "connectionParametersManager \<Rightarrow> tag_map" where
  "GetHelloMap h =
     (let sfcw = littleEndian_WriteUint32 (ucast (GetReceiveStreamFlowControlWindow h));
          cfcw = littleEndian_WriteUint32 (ucast (GetReceiveConnectionFlowControlWindow h));
          mspc = littleEndian_WriteUint32 (maxStreamsPerConnection h);
          mids = littleEndian_WriteUint32 MaxIncomingDynamicStreamsPerConnection;
          icsl = littleEndian_WriteUint32 (word_of_int (GetIdleConnectionStateLifetime h sdiv Second))
      in Mapping.update TagICSL icsl (Mapping.update TagMSPC mspc (Mapping.update TagMIDS mids
           (Mapping.update TagCFCW cfcw (Mapping.update TagSFCW sfcw Mapping.empty)))))"

section \<open>Negotiation\<close>

lemma parameter_tags: "TagTCID = 0x44494354" "TagMSPC = 0x4350534D" "TagMIDS = 0x5344494D" "TagICSL = 0x4C534349"
  "TagSFCW = 0x57434653" "TagCFCW = 0x57434643"
  by (simp_all add: TagTCID_def TagMSPC_def TagMIDS_def TagICSL_def TagSFCW_def TagCFCW_def)

lemma wf_hello: "wf_message \<lparr>Tag = t, Data = GetHelloMap h\<rparr>"
  by (simp add: wf_message_def GetHelloMap_def Let_def size_update All_mapping_def lookup_update' parameter_tags)

text \<open>One side's hello message, written, parsed and applied by the other side.\<close>

definition hello :: "Tag \<Rightarrow> connectionParametersManager \<Rightarrow> connectionParametersManager \<Rightarrow>
    error option \<times> connectionParametersManager" where
  "hello t sender receiver =
     (case ParseHandshakeMessage (HandshakeMessage_Write \<lparr>Tag = t, Data = GetHelloMap sender\<rparr>) of
        Inl err \<Rightarrow> (Some err, receiver)
      | Inr (msg, _) \<Rightarrow> SetFromMap (Data msg) receiver)"

lemma read32_written [simp]: "littleEndian_ReadUint32 (littleEndian_WriteUint32 v) = Inr (v, [])"
  using le.read32_write32 [of v "[]"] by simp

text \<open>The idle timeout is announced in whole seconds.\<close>

abbreviation announced :: "Duration \<Rightarrow> Duration" where
  "announced t \<equiv> t div Second * Second"

lemma announced_read:
  assumes "0 \<le> t" "t < 2 ^ 32 * Second"
  shows "uint (word_of_int (t sdiv Second) :: u32) * Second = announced t"
proof -
  have "0 \<le> t div Second" "t div Second < 2 ^ 32"
    using assms by (simp_all add: Second_def pos_imp_zdiv_nonneg_iff div_less_iff_less_mult)
  then have "uint (word_of_int (t div Second) :: u32) = t div Second"
    by (simp add: unsigned_of_int take_bit_int_eq_self)
  then show ?thesis using assms(1) by (simp add: signed_divide_int_def Second_def sgn_if)
qed

lemma hello_received:
  assumes "\<not> flowControlNegotiated r"
    and "0 \<le> idleConnectionStateLifetime s" "idleConnectionStateLifetime s < 2 ^ 32 * Second"
  shows "hello t s r = (None, r\<lparr>maxStreamsPerConnection := min (maxStreamsPerConnection s) 100,
    maxIncomingDynamicStreamsPerConnection := 100,
    idleConnectionStateLifetime := min (announced (idleConnectionStateLifetime s)) (idleConnectionStateLifetime r),
    sendStreamFlowControlWindow := ucast (ucast (receiveStreamFlowControlWindow s) :: u32),
    sendConnectionFlowControlWindow := ucast (ucast (receiveConnectionFlowControlWindow s) :: u32),
    flowControlNegotiated := True\<rparr>)"
  using assms(1) handshake_write_parse [OF wf_hello, of t s "[]"]
  by (simp add: announced_read [OF assms(2,3)] hello_def SetFromMap_def setParam_def setWindow_def GetHelloMap_def Let_def lookup_update' parameter_tags
      GetReceiveStreamFlowControlWindow_def GetReceiveConnectionFlowControlWindow_def GetIdleConnectionStateLifetime_def
      negotiateMaxStreamsPerConnection_def negotiateMaxIncomingDynamicStreamsPerConnection_def MaxStreamsPerConnection_def
      negotiateIdleConnectionStateLifetime_def MaxIncomingDynamicStreamsPerConnection_def)

lemma hello_refused:
  assumes "flowControlNegotiated r"
  shows "fst (hello t s r) = Some ErrFlowControlRenegotiationNotSupported"
  using assms handshake_write_parse [OF wf_hello, of t s "[]"]
  by (simp add: hello_def SetFromMap_def setParam_def setWindow_def GetHelloMap_def Let_def lookup_update' parameter_tags)

lemma GetMaxIncomingStreams_eq: "GetMaxIncomingStreams h = 110"
  unfolding GetMaxIncomingStreams_def by code_simp

text \<open>
  C38. after the exchange of hello messages client and server agree. Each side sends within the windows the other
  side receives with; the idle timeouts are the smaller one of the two, rounded down to what was announced, so
  they are equal when configured in whole seconds; no side opens more streams than the other one accepts; and a
  second exchange is refused.
\<close>

theorem hello_negotiation:
  assumes "c = NewConnectionParamatersManager PerspectiveClient v ms mc tc"
    and "s = NewConnectionParamatersManager PerspectiveServer v ms' mc' ts"
    and "0 \<le> tc" "tc < 2 ^ 32 * Second" "0 \<le> ts" "ts < 2 ^ 32 * Second"
  shows "\<exists>s' c'. hello TagCHLO c s = (None, s') \<and> hello TagSHLO s' c = (None, c') \<and>
    GetSendStreamFlowControlWindow c' = GetReceiveStreamFlowControlWindow s' \<and>
    GetSendConnectionFlowControlWindow c' = GetReceiveConnectionFlowControlWindow s' \<and>
    GetSendStreamFlowControlWindow s' = GetReceiveStreamFlowControlWindow c' \<and>
    GetSendConnectionFlowControlWindow s' = GetReceiveConnectionFlowControlWindow c' \<and>
    GetIdleConnectionStateLifetime s' = min (announced tc) ts \<and>
    GetIdleConnectionStateLifetime c' = min (announced (min (announced tc) ts)) tc \<and>
    (Second dvd tc \<and> Second dvd ts \<longrightarrow> GetIdleConnectionStateLifetime c' = GetIdleConnectionStateLifetime s') \<and>
    GetMaxOutgoingStreams c' < GetMaxIncomingStreams s' \<and> GetMaxOutgoingStreams s' < GetMaxIncomingStreams c' \<and>
    fst (hello TagSHLO s' c') = Some ErrFlowControlRenegotiationNotSupported"
proof -
  note new = NewConnectionParamatersManager_def ReceiveStreamFlowControlWindow_def ReceiveConnectionFlowControlWindow_def
    MaxStreamsPerConnection_def
  obtain s' where s': "hello TagCHLO c s = (None, s')" and s'_eq: "s' = s\<lparr>maxStreamsPerConnection := 100, maxIncomingDynamicStreamsPerConnection := 100,
      idleConnectionStateLifetime := min (announced tc) ts, sendStreamFlowControlWindow := 32768,
      sendConnectionFlowControlWindow := 49152, flowControlNegotiated := True\<rparr>"
    using hello_received [of s c TagCHLO] assms by (simp add: new)
  have idle: "0 \<le> min (announced tc) ts" "min (announced tc) ts < 2 ^ 32 * Second"
    using assms(3-6) by (auto simp: min_def Second_def)
  obtain c' where c': "hello TagSHLO s' c = (None, c')" and c'_eq: "c' = c\<lparr>maxStreamsPerConnection := 100, maxIncomingDynamicStreamsPerConnection := 100,
      idleConnectionStateLifetime := min (announced (min (announced tc) ts)) tc, sendStreamFlowControlWindow := 32768,
      sendConnectionFlowControlWindow := 49152, flowControlNegotiated := True\<rparr>"
    using hello_received [of c s' TagSHLO] assms(1,2) idle by (simp add: new s'_eq)
  have "fst (hello TagSHLO s' c') = Some ErrFlowControlRenegotiationNotSupported" by (simp add: hello_refused c'_eq)
  moreover have "min (announced (min (announced tc) ts)) tc = min (announced tc) ts" if "Second dvd tc" "Second dvd ts"
  proof -
    have "announced tc = tc" "announced ts = ts" using that by simp_all
    then show ?thesis by (simp add: min_def)
  qed
  ultimately show ?thesis using s' c' assms(1,2)
    by (auto simp: new s'_eq c'_eq GetMaxIncomingStreams_eq GetSendStreamFlowControlWindow_def GetReceiveStreamFlowControlWindow_def
      GetSendConnectionFlowControlWindow_def GetReceiveConnectionFlowControlWindow_def GetIdleConnectionStateLifetime_def
      GetMaxOutgoingStreams_def)
qed

theorem hello_negotiation_witness:
  "\<exists>s' c'. hello TagSHLO s' (NewConnectionParamatersManager PerspectiveClient Version39 65536 98304 (30 * Second)) = (None, c') \<and>
    GetIdleConnectionStateLifetime s' = 10 * Second \<and> GetIdleConnectionStateLifetime c' = 10 * Second \<and>
    GetSendStreamFlowControlWindow c' = GetReceiveStreamFlowControlWindow s'"
  using hello_negotiation [OF refl refl, of "30 * Second" "10 * Second" Version39 65536 98304 65536 98304]
  by (auto simp: Second_def)

end
