(* ===== verification/FlowControl.thy ===== *)
theory FlowControl
  imports ConnectionParameters
begin

text \<open>
  Flow control, \<^verbatim>\<open>internal/flowcontrol\<close>: the controller of one stream or of the connection, in
  \<^verbatim>\<open>flow_controller.go\<close>, and the manager, \<^verbatim>\<open>flow_control_manager.go\<close>, which keeps a controller for every stream
  and one for the connection. What a controller shares with the rest of the session, the connection parameters,
  the smoothed round-trip time and the remote round-trip times, is the record \<open>flowEnv\<close>; \<open>now\<close> is the value of
  \<^verbatim>\<open>time.Now()\<close> in a call.
\<close>

section \<open>The controller\<close>

record flowEnv =
  connectionParameters :: connectionParametersManager
  SmoothedRTT :: Duration
  remoteRTTs :: "(PathID, Duration) mapping"

record flowController =
  streamID :: StreamID
  contributesToConnection :: bool
  bytesSent :: ByteCount
  sendWindow :: ByteCount
  bytesRetrans :: ByteCount
  lastWindowUpdateTime :: Time
  bytesRead :: ByteCount
  highestReceived :: ByteCount
  receiveWindow :: ByteCount
  receiveWindowIncrement :: ByteCount
  maxReceiveWindowIncrement :: ByteCount

definition ErrReceivedSmallerByteOffset :: error where
  "ErrReceivedSmallerByteOffset = ErrNew ''Received a smaller byte offset''"

definition newFlowController :: "StreamID \<Rightarrow> bool \<Rightarrow> flowEnv \<Rightarrow> flowController" where
  "newFlowController sid contributes env =
     (let cp = connectionParameters env;
          w = (if sid = 0 then GetReceiveConnectionFlowControlWindow cp else GetReceiveStreamFlowControlWindow cp);
          m = (if sid = 0 then GetMaxReceiveConnectionFlowControlWindow cp else GetMaxReceiveStreamFlowControlWindow cp)
      in \<lparr>streamID = sid, contributesToConnection = contributes, bytesSent = 0, sendWindow = 0, bytesRetrans = 0,
          lastWindowUpdateTime = zeroTime, bytesRead = 0, highestReceived = 0, receiveWindow = w,
          receiveWindowIncrement = w, maxReceiveWindowIncrement = m\<rparr>)"

definition ContributesToConnection :: "flowController \<Rightarrow> bool" where
  "ContributesToConnection c = contributesToConnection c"

definition getSendWindow :: "flowEnv \<Rightarrow> flowController \<Rightarrow> ByteCount" where
  "getSendWindow env c =
     (if sendWindow c = 0 then
        (if streamID c = 0 then GetSendConnectionFlowControlWindow (connectionParameters env)
         else GetSendStreamFlowControlWindow (connectionParameters env))
      else sendWindow c)"

definition fc_AddBytesSent :: "ByteCount \<Rightarrow> flowController \<Rightarrow> flowController" where
  "fc_AddBytesSent n c = c\<lparr>bytesSent := bytesSent c + n\<rparr>"

definition fc_GetBytesSent :: "flowController \<Rightarrow> ByteCount" where
  "fc_GetBytesSent c = bytesSent c"

definition fc_AddBytesRetrans :: "ByteCount \<Rightarrow> flowController \<Rightarrow> flowController" where
  "fc_AddBytesRetrans n c = c\<lparr>bytesRetrans := bytesRetrans c + n\<rparr>"

definition fc_GetBytesRetrans :: "flowController \<Rightarrow> ByteCount" where
  "fc_GetBytesRetrans c = bytesRetrans c"

definition UpdateSendWindow :: "ByteCount \<Rightarrow> flowController \<Rightarrow> bool \<times> flowController" where
  "UpdateSendWindow newOffset c =
     (if newOffset > sendWindow c then (True, c\<lparr>sendWindow := newOffset\<rparr>) else (False, c))"

definition fc_SendWindowSize :: "flowEnv \<Rightarrow> flowController \<Rightarrow> ByteCount" where
  "fc_SendWindowSize env c =
     (let w = getSendWindow env c in if bytesSent c > w then 0 else w - bytesSent c)"

definition SendWindowOffset :: "flowEnv \<Rightarrow> flowController \<Rightarrow> ByteCount" where
  "SendWindowOffset env c = getSendWindow env c"

text \<open>The increment and the error; the error comes with the increment 0.\<close>

definition fc_UpdateHighestReceived :: "ByteCount \<Rightarrow> flowController \<Rightarrow> (ByteCount \<times> error option) \<times> flowController" where
  "fc_UpdateHighestReceived byteOffset c =
     (if byteOffset = highestReceived c then ((0, None), c)
      else if byteOffset > highestReceived c
      then ((byteOffset - highestReceived c, None), c\<lparr>highestReceived := byteOffset\<rparr>)
      else ((0, Some ErrReceivedSmallerByteOffset), c))"

definition IncrementHighestReceived :: "ByteCount \<Rightarrow> flowController \<Rightarrow> flowController" where
  "IncrementHighestReceived increment c = c\<lparr>highestReceived := highestReceived c + increment\<rparr>"

definition fc_AddBytesRead :: "Time \<Rightarrow> ByteCount \<Rightarrow> flowController \<Rightarrow> flowController" where
  "fc_AddBytesRead now n c =
     (let c = (if bytesRead c = 0 then c\<lparr>lastWindowUpdateTime := now\<rparr> else c)
      in c\<lparr>bytesRead := bytesRead c + n\<rparr>)"

definition maxRemoteRTT :: "flowEnv \<Rightarrow> Duration" where
  "maxRemoteRTT env =
     fold (\<lambda>p m. max m (the (Mapping.lookup (remoteRTTs env) p))) (Mapping.ordered_keys (remoteRTTs env)) 0"

definition maybeAdjustWindowIncrement :: "flowEnv \<Rightarrow> Time \<Rightarrow> flowController \<Rightarrow> flowController" where
  "maybeAdjustWindowIncrement env now c =
     (let rtt = SmoothedRTT env in
      if lastWindowUpdateTime c = zeroTime then c
      else if rtt = 0 then c
      else if time_Sub now (lastWindowUpdateTime c) \<ge> 2 * max rtt (maxRemoteRTT env) then c
      else c\<lparr>receiveWindowIncrement := min (2 * receiveWindowIncrement c) (maxReceiveWindowIncrement c)\<rparr>)"

text \<open>Whether an update is necessary, the new increment and the new offset.\<close>

definition MaybeUpdateWindow ::
    "flowEnv \<Rightarrow> Time \<Rightarrow> flowController \<Rightarrow> (bool \<times> ByteCount \<times> ByteCount) \<times> flowController" where
  "MaybeUpdateWindow env now c =
     (let diff = receiveWindow c - bytesRead c in
      if diff < receiveWindowIncrement c div 2 then
        let oldWindowIncrement = receiveWindowIncrement c;
            c = maybeAdjustWindowIncrement env now c;
            newWindowIncrement = (if receiveWindowIncrement c \<noteq> oldWindowIncrement then receiveWindowIncrement c else 0);
            c = c\<lparr>lastWindowUpdateTime := now, receiveWindow := bytesRead c + receiveWindowIncrement c\<rparr>
        in ((True, newWindowIncrement, receiveWindow c), c)
      else ((False, receiveWindowIncrement c, receiveWindow c), c))"

definition EnsureMinimumWindowIncrement :: "ByteCount \<Rightarrow> flowController \<Rightarrow> flowController" where
  "EnsureMinimumWindowIncrement inc c =
     (if inc > receiveWindowIncrement c
      then c\<lparr>receiveWindowIncrement := min inc (maxReceiveWindowIncrement c), lastWindowUpdateTime := zeroTime\<rparr>
      else c)"

definition CheckFlowControlViolation :: "flowController \<Rightarrow> bool" where
  "CheckFlowControlViolation c = (highestReceived c > receiveWindow c)"

section \<open>The manager\<close>

record flowControlManager =
  streamFlowController :: "(StreamID, flowController) mapping"
  connFlowController :: flowController
  numOutofOrder :: int

record WindowUpdate =
  StreamID :: StreamID
  Offset :: ByteCount

definition errMapAccess :: error where
  "errMapAccess = ErrNew ''Error accessing the flowController map.''"

definition ConnectionFlowControlMultiplier :: rat where "ConnectionFlowControlMultiplier = 3 / 2"

definition NewFlowControlManager :: "flowEnv \<Rightarrow> flowControlManager" where
  "NewFlowControlManager env =
     \<lparr>streamFlowController = Mapping.empty, connFlowController = newFlowController 0 False env, numOutofOrder = 0\<rparr>"

definition NewStream :: "flowEnv \<Rightarrow> StreamID \<Rightarrow> bool \<Rightarrow> flowControlManager \<Rightarrow> flowControlManager" where
  "NewStream env sid contributes f =
     (if Mapping.lookup (streamFlowController f) sid \<noteq> None then f
      else f\<lparr>streamFlowController := Mapping.update sid (newFlowController sid contributes env) (streamFlowController f)\<rparr>)"

definition RemoveStream :: "StreamID \<Rightarrow> flowControlManager \<Rightarrow> flowControlManager" where
  "RemoveStream sid f = f\<lparr>streamFlowController := Mapping.delete sid (streamFlowController f)\<rparr>"

definition getFlowController :: "StreamID \<Rightarrow> flowControlManager \<Rightarrow> error + flowController" where
  "getFlowController sid f =
     (case Mapping.lookup (streamFlowController f) sid of None \<Rightarrow> Inl errMapAccess | Some fc \<Rightarrow> Inr fc)"

text \<open>The controllers are pointers: what a method changes is visible in the map.\<close>

definition putFlowController :: "StreamID \<Rightarrow> flowController \<Rightarrow> flowControlManager \<Rightarrow> flowControlManager" where
  "putFlowController sid fc f = f\<lparr>streamFlowController := Mapping.update sid fc (streamFlowController f)\<rparr>"

definition errStreamViolation :: "ByteCount \<Rightarrow> StreamID \<Rightarrow> flowController \<Rightarrow> error" where
  "errStreamViolation byteOffset sid fc = QuicErrorf FlowControlReceivedTooMuchData
     ''Received %d bytes on stream %d, allowed %d bytes'' [uint byteOffset, uint sid, uint (receiveWindow fc)]"

definition errConnectionViolation :: "flowController \<Rightarrow> error" where
  "errConnectionViolation fc = QuicErrorf FlowControlReceivedTooMuchData
     ''Received %d bytes for the connection, allowed %d bytes'' [uint (highestReceived fc), uint (receiveWindow fc)]"

text \<open>What \<^verbatim>\<open>ResetStream\<close> and \<^verbatim>\<open>UpdateHighestReceived\<close> have in common: the checks after a new offset.\<close>

definition checkViolations ::
    "StreamID \<Rightarrow> ByteCount \<Rightarrow> ByteCount \<Rightarrow> flowController \<Rightarrow> flowControlManager \<Rightarrow> error option \<times> flowControlManager" where
  "checkViolations sid byteOffset increment fc f =
     (if CheckFlowControlViolation fc then (Some (errStreamViolation byteOffset sid fc), f)
      else if ContributesToConnection fc then
        let conn = IncrementHighestReceived increment (connFlowController f);
            f = f\<lparr>connFlowController := conn\<rparr>
        in if CheckFlowControlViolation conn then (Some (errConnectionViolation conn), f) else (None, f)
      else (None, f))"

definition ResetStream :: "StreamID \<Rightarrow> ByteCount \<Rightarrow> flowControlManager \<Rightarrow> error option \<times> flowControlManager" where
  "ResetStream sid byteOffset f =
     (case getFlowController sid f of
        Inl err \<Rightarrow> (Some err, f)
      | Inr fc \<Rightarrow>
          (case fc_UpdateHighestReceived byteOffset fc of
             ((increment, Some err), fc) \<Rightarrow> (Some (Code StreamDataAfterTermination), putFlowController sid fc f)
           | ((increment, None), fc) \<Rightarrow> checkViolations sid byteOffset increment fc (putFlowController sid fc f)))"

definition UpdateHighestReceived :: "StreamID \<Rightarrow> ByteCount \<Rightarrow> flowControlManager \<Rightarrow> error option \<times> flowControlManager" where
  "UpdateHighestReceived sid byteOffset f =
     (case getFlowController sid f of
        Inl err \<Rightarrow> (Some err, f)
      | Inr fc \<Rightarrow>
          (case fc_UpdateHighestReceived byteOffset fc of
             ((increment, errReorder), fc) \<Rightarrow>
               let f = putFlowController sid fc f;
                   f = (if errReorder \<noteq> None then f\<lparr>numOutofOrder := numOutofOrder f + 1\<rparr> else f)
               in checkViolations sid byteOffset increment fc f))"

text \<open>A change of a stream's controller that is made to the connection's as well if the stream contributes to it.\<close>

definition onBoth ::
    "(flowController \<Rightarrow> flowController) \<Rightarrow> StreamID \<Rightarrow> flowControlManager \<Rightarrow> error option \<times> flowControlManager" where
  "onBoth g sid f =
     (case getFlowController sid f of
        Inl err \<Rightarrow> (Some err, f)
      | Inr fc \<Rightarrow>
          let f = putFlowController sid (g fc) f
          in (None, if ContributesToConnection (g fc)
                    then f\<lparr>connFlowController := g (connFlowController f)\<rparr> else f))"

definition AddBytesRead :: "Time \<Rightarrow> StreamID \<Rightarrow> ByteCount \<Rightarrow> flowControlManager \<Rightarrow> error option \<times> flowControlManager" where
  "AddBytesRead now sid n f = onBoth (fc_AddBytesRead now n) sid f"

definition AddBytesSent :: "StreamID \<Rightarrow> ByteCount \<Rightarrow> flowControlManager \<Rightarrow> error option \<times> flowControlManager" where
  "AddBytesSent sid n f = onBoth (fc_AddBytesSent n) sid f"

definition AddBytesRetrans :: "StreamID \<Rightarrow> ByteCount \<Rightarrow> flowControlManager \<Rightarrow> error option \<times> flowControlManager" where
  "AddBytesRetrans sid n f = onBoth (fc_AddBytesRetrans n) sid f"

definition GetBytesSent :: "StreamID \<Rightarrow> flowControlManager \<Rightarrow> error + ByteCount" where
  "GetBytesSent sid f = bind_r (getFlowController sid f) (\<lambda>fc. Inr (fc_GetBytesSent fc))"

definition GetBytesRetrans :: "StreamID \<Rightarrow> flowControlManager \<Rightarrow> error + ByteCount" where
  "GetBytesRetrans sid f = bind_r (getFlowController sid f) (\<lambda>fc. Inr (fc_GetBytesRetrans fc))"

text \<open>\<^verbatim>\<open>protocol.ByteCount(float64(newIncrement) * protocol.ConnectionFlowControlMultiplier)\<close>\<close>

definition connectionIncrement :: "ByteCount \<Rightarrow> ByteCount" where
  "connectionIncrement newIncrement =
     word_of_int (truncRat (float64 (float64 (of_int (uint newIncrement)) * float64 ConnectionFlowControlMultiplier)))"

text \<open>
  The loop over the streams of \<^verbatim>\<open>GetWindowUpdates\<close>. Go iterates over a map in any order: \<open>ids\<close> is the order of
  this call.
\<close>

fun streamUpdates ::
    "flowEnv \<Rightarrow> Time \<Rightarrow> bool \<Rightarrow> StreamID list \<Rightarrow> flowControlManager \<Rightarrow> WindowUpdate list \<times> flowControlManager" where
  "streamUpdates env now force [] f = ([], f)"
| "streamUpdates env now force (sid # ids) f =
     (case Mapping.lookup (streamFlowController f) sid of
        None \<Rightarrow> streamUpdates env now force ids f
      | Some fc \<Rightarrow>
          (case MaybeUpdateWindow env now fc of
             ((necessary, newIncrement, offset), fc) \<Rightarrow>
               let f = putFlowController sid fc f;
                   upd = (force \<or> necessary);
                   f = (if upd \<and> ContributesToConnection fc \<and> newIncrement \<noteq> 0
                        then f\<lparr>connFlowController :=
                          EnsureMinimumWindowIncrement (connectionIncrement newIncrement) (connFlowController f)\<rparr>
                        else f);
                   (res, f) = streamUpdates env now force ids f
               in (if upd then \<lparr>StreamID = sid, Offset = offset\<rparr> # res else res, f)))"

definition GetWindowUpdates ::
    "flowEnv \<Rightarrow> Time \<Rightarrow> StreamID list \<Rightarrow> bool \<Rightarrow> flowControlManager \<Rightarrow> WindowUpdate list \<times> flowControlManager" where
  "GetWindowUpdates env now ids force f =
     (case streamUpdates env now force ids f of
        (res, f) \<Rightarrow>
          (case MaybeUpdateWindow env now (connFlowController f) of
             ((necessary, _, offset), conn) \<Rightarrow>
               let f = f\<lparr>connFlowController := conn\<rparr>
               in (if force \<or> necessary then res @ [\<lparr>StreamID = 0, Offset = offset\<rparr>] else res, f)))"

definition GetReceiveWindow :: "StreamID \<Rightarrow> flowControlManager \<Rightarrow> error + ByteCount" where
  "GetReceiveWindow sid f =
     (if sid = 0 then Inr (receiveWindow (connFlowController f))
      else bind_r (getFlowController sid f) (\<lambda>fc. Inr (receiveWindow fc)))"

definition SendWindowSize :: "flowEnv \<Rightarrow> StreamID \<Rightarrow> flowControlManager \<Rightarrow> error + ByteCount" where
  "SendWindowSize env sid f =
     bind_r (getFlowController sid f) (\<lambda>fc.
       let res = fc_SendWindowSize env fc
       in Inr (if ContributesToConnection fc then min res (fc_SendWindowSize env (connFlowController f)) else res))"

definition RemainingConnectionWindowSize :: "flowEnv \<Rightarrow> flowControlManager \<Rightarrow> ByteCount" where
  "RemainingConnectionWindowSize env f = fc_SendWindowSize env (connFlowController f)"

definition UpdateWindow :: "StreamID \<Rightarrow> ByteCount \<Rightarrow> flowControlManager \<Rightarrow> (error + bool) \<times> flowControlManager" where
  "UpdateWindow sid offset f =
     (if sid = 0 then
        let (b, fc) = UpdateSendWindow offset (connFlowController f) in (Inr b, f\<lparr>connFlowController := fc\<rparr>)
      else case getFlowController sid f of
             Inl err \<Rightarrow> (Inl err, f)
           | Inr fc \<Rightarrow> let (b, fc) = UpdateSendWindow offset fc in (Inr b, putFlowController sid fc f))"

section \<open>Receiving\<close>

text \<open>
  A controller in order: what was read was received, what was received was allowed, and no more was allowed than
  the maximum window beyond what was read.
\<close>

definition recv_ok :: "flowController \<Rightarrow> bool" where
  "recv_ok c \<longleftrightarrow> unat (bytesRead c) \<le> unat (highestReceived c) \<and> unat (highestReceived c) \<le> unat (receiveWindow c) \<and>
     unat (receiveWindow c) \<le> unat (bytesRead c) + unat (maxReceiveWindowIncrement c) \<and>
     2 \<le> unat (receiveWindowIncrement c) \<and> unat (receiveWindowIncrement c) \<le> unat (maxReceiveWindowIncrement c) \<and>
     unat (maxReceiveWindowIncrement c) < 2 ^ 62 \<and> unat (bytesRead c) < 2 ^ 62"

text \<open>A window update changes the window, its increment and the time only, and never shrinks the window.\<close>

definition grown :: "flowController \<Rightarrow> flowController \<Rightarrow> bool" where
  "grown c c' \<longleftrightarrow> streamID c' = streamID c \<and> contributesToConnection c' = contributesToConnection c \<and>
     bytesSent c' = bytesSent c \<and> sendWindow c' = sendWindow c \<and> bytesRead c' = bytesRead c \<and>
     highestReceived c' = highestReceived c \<and> maxReceiveWindowIncrement c' = maxReceiveWindowIncrement c \<and>
     receiveWindow c \<le> receiveWindow c' \<and> recv_ok c'"

lemma grown_refl [simp]: "grown c c \<longleftrightarrow> recv_ok c"
  by (simp add: grown_def)

lemma grown_trans: "grown c c' \<Longrightarrow> grown c' c'' \<Longrightarrow> grown c c''"
  unfolding grown_def by auto

lemma unat_min: "unat (min a b) = min (unat a) (unat (b :: 'a::len word))"
  by (simp add: min_def word_le_nat_alt)

lemma maybeAdjust_cases:
  assumes "recv_ok c"
  obtains i where "maybeAdjustWindowIncrement env now c = c\<lparr>receiveWindowIncrement := i\<rparr>"
    "unat (receiveWindowIncrement c) \<le> unat i" "unat i \<le> unat (maxReceiveWindowIncrement c)"
proof -
  let ?i = "receiveWindowIncrement c" and ?m = "maxReceiveWindowIncrement c"
  have m: "unat ?i \<le> unat ?m" "unat ?m < 2 ^ 62" using assms by (simp_all add: recv_ok_def)
  then have "unat (2 * ?i) = 2 * unat ?i" by (simp add: unat_word_ariths)
  then have "unat ?i \<le> unat (min (2 * ?i) ?m)" "unat (min (2 * ?i) ?m) \<le> unat ?m" using m by (simp_all add: unat_min)
  moreover have "maybeAdjustWindowIncrement env now c \<in> {c\<lparr>receiveWindowIncrement := ?i\<rparr>, c\<lparr>receiveWindowIncrement := min (2 * ?i) ?m\<rparr>}"
    unfolding maybeAdjustWindowIncrement_def Let_def by (cases c) simp
  ultimately show thesis using that m(1) by blast
qed

lemma MaybeUpdateWindow_grown:
  assumes "recv_ok c" "MaybeUpdateWindow env now c = ((necessary, inc, offset), c')"
  shows "grown c c' \<and> offset = receiveWindow c' \<and> (necessary \<or> receiveWindow c' = receiveWindow c) \<and>
    bytesRead c' < receiveWindow c'"
proof (cases "receiveWindow c - bytesRead c < receiveWindowIncrement c div 2")
  case True
  obtain i where adj: "maybeAdjustWindowIncrement env now c = c\<lparr>receiveWindowIncrement := i\<rparr>"
    and i: "unat (receiveWindowIncrement c) \<le> unat i" "unat i \<le> unat (maxReceiveWindowIncrement c)"
    using maybeAdjust_cases [OF assms(1)] by blast
  have c': "c' = c\<lparr>receiveWindowIncrement := i, lastWindowUpdateTime := now, receiveWindow := bytesRead c + i\<rparr>"
    "offset = receiveWindow c'"
    using assms(2) True by (auto simp: MaybeUpdateWindow_def Let_def adj)
  have ok: "unat (bytesRead c) \<le> unat (receiveWindow c)" "unat (maxReceiveWindowIncrement c) < 2 ^ 62" "unat (bytesRead c) < 2 ^ 62"
    using assms(1) by (simp_all add: recv_ok_def)
  have w: "unat (bytesRead c + i) = unat (bytesRead c) + unat i" using i ok by (subst unat_add_noov) simp_all
  have "unat (receiveWindow c) - unat (bytesRead c) < unat (receiveWindowIncrement c) div 2"
    using True ok(1) by (simp add: word_less_nat_alt unat_sub word_le_nat_alt unat_div)
  then have "unat (receiveWindow c) \<le> unat (bytesRead c + i)" using w i(1) by linarith
  moreover have "2 \<le> unat i" using assms(1) i(1) by (simp add: recv_ok_def)
  moreover have necessary using assms(2) True by (auto simp: MaybeUpdateWindow_def Let_def)
  ultimately show ?thesis using assms(1) w i c' by (simp add: grown_def recv_ok_def word_le_nat_alt word_less_nat_alt)
next
  case False
  have r: "unat (bytesRead c) \<le> unat (receiveWindow c)" "2 \<le> unat (receiveWindowIncrement c)" using assms(1) by (simp_all add: recv_ok_def)
  then have "unat (receiveWindowIncrement c) div 2 \<le> unat (receiveWindow c) - unat (bytesRead c)"
    using False by (simp add: word_less_nat_alt unat_sub word_le_nat_alt unat_div not_less)
  then have "bytesRead c < receiveWindow c" using r by (simp add: word_less_nat_alt)
  then show ?thesis using assms False by (auto simp: MaybeUpdateWindow_def)
qed

lemma EnsureMinimumWindowIncrement_grown:
  "recv_ok c \<Longrightarrow> grown c (EnsureMinimumWindowIncrement inc c)"
  by (auto simp: EnsureMinimumWindowIncrement_def grown_def recv_ok_def unat_min word_less_nat_alt)

definition all_ok :: "flowControlManager \<Rightarrow> bool" where
  "all_ok f \<longleftrightarrow> recv_ok (connFlowController f) \<and> (\<forall>sid fc. Mapping.lookup (streamFlowController f) sid = Some fc \<longrightarrow> recv_ok fc)"

definition all_grown :: "flowControlManager \<Rightarrow> flowControlManager \<Rightarrow> bool" where
  "all_grown f f' \<longleftrightarrow> grown (connFlowController f) (connFlowController f') \<and>
     (\<forall>sid. rel_option grown (Mapping.lookup (streamFlowController f) sid) (Mapping.lookup (streamFlowController f') sid))"

lemma all_grown_refl: "all_ok f \<Longrightarrow> all_grown f f"
  by (auto simp: all_grown_def all_ok_def rel_option_iff split: option.splits)

lemma rel_option_grown_trans: "rel_option grown x y \<Longrightarrow> rel_option grown y z \<Longrightarrow> rel_option grown x z"
  by (cases x; cases y; cases z) (auto intro: grown_trans)

lemma all_grown_trans: "all_grown f g \<Longrightarrow> all_grown g h \<Longrightarrow> all_grown f h"
  unfolding all_grown_def by (blast intro: grown_trans rel_option_grown_trans)

lemma all_grown_ok: "all_grown f f' \<Longrightarrow> all_ok f'"
  unfolding all_grown_def all_ok_def by (metis grown_def option.rel_sel option.discI option.sel)

lemma streams_of_put [simp]:
  "streamFlowController (putFlowController sid fc f) = Mapping.update sid fc (streamFlowController f)"
  "connFlowController (putFlowController sid fc f) = connFlowController f"
  by (simp_all add: putFlowController_def)

text \<open>One round of the loop: the stream's window, and possibly the increment of the connection's.\<close>

lemma streamUpdates_step:
  assumes "all_ok f" "Mapping.lookup (streamFlowController f) sid = Some fc" "grown fc fc'"
    and "f' = putFlowController sid fc' f \<or>
      (\<exists>inc. f' = (putFlowController sid fc' f)\<lparr>connFlowController := EnsureMinimumWindowIncrement inc (connFlowController f)\<rparr>)"
  shows "all_grown f f'"
proof -
  have "grown (connFlowController f) (connFlowController f')"
    using assms(1,4) EnsureMinimumWindowIncrement_grown by (auto simp: all_ok_def)
  moreover have "streamFlowController f' = Mapping.update sid fc' (streamFlowController f)" using assms(4) by auto
  moreover have "rel_option grown (Mapping.lookup (streamFlowController f) x) (Mapping.lookup (streamFlowController f) x)" for x
    using assms(1) by (cases "Mapping.lookup (streamFlowController f) x") (auto simp: all_ok_def)
  ultimately show ?thesis using assms(2,3) by (auto simp: all_grown_def lookup_update')
qed

text \<open>An update between two states offers at least the old and at most the new window.\<close>

definition offered :: "flowControlManager \<Rightarrow> WindowUpdate \<Rightarrow> flowControlManager \<Rightarrow> bool" where
  "offered f u f' \<longleftrightarrow>
     (if StreamID u = 0
      then receiveWindow (connFlowController f) \<le> Offset u \<and> Offset u \<le> receiveWindow (connFlowController f')
      else \<exists>fc fc'. Mapping.lookup (streamFlowController f) (StreamID u) = Some fc \<and>
        Mapping.lookup (streamFlowController f') (StreamID u) = Some fc' \<and>
        receiveWindow fc \<le> Offset u \<and> Offset u \<le> receiveWindow fc')"

lemma all_grown_lookup:
  assumes "all_grown f f'" "Mapping.lookup (streamFlowController f) sid = Some fc"
  obtains fc' where "Mapping.lookup (streamFlowController f') sid = Some fc'" "grown fc fc'"
  using assms unfolding all_grown_def by (metis option_rel_Some1)

lemma all_grown_lookup':
  assumes "all_grown f f'" "Mapping.lookup (streamFlowController f') sid = Some fc'"
  obtains fc where "Mapping.lookup (streamFlowController f) sid = Some fc" "grown fc fc'"
  using assms unfolding all_grown_def by (metis option_rel_Some2)

lemma offered_grown:
  assumes "offered f u f'" "all_grown f' f''"
  shows "offered f u f''"
proof (cases "StreamID u = 0")
  case True
  then show ?thesis using assms by (auto simp: offered_def all_grown_def grown_def)
next
  case False
  then show ?thesis using assms unfolding offered_def by (smt (verit) all_grown_lookup grown_def order_trans)
qed

lemma grown_offered:
  assumes "all_grown f f'" "offered f' u f''"
  shows "offered f u f''"
proof (cases "StreamID u = 0")
  case True
  then show ?thesis using assms by (auto simp: offered_def all_grown_def grown_def)
next
  case False
  then show ?thesis using assms unfolding offered_def by (smt (verit) all_grown_lookup' grown_def order_trans)
qed

lemma streamUpdates_Cons:
  assumes "all_ok f" "streamUpdates env now force (sid # ids) f = (res, f')" "Mapping.lookup (streamFlowController f) sid = Some fc"
  obtains fc' f1 res1 where "streamUpdates env now force ids f1 = (res1, f')" "grown fc fc'" "bytesRead fc' < receiveWindow fc'"
    "streamFlowController f1 = Mapping.update sid fc' (streamFlowController f)" "all_grown f f1"
    "receiveWindow (connFlowController f1) = receiveWindow (connFlowController f)"
    "set res1 \<subseteq> set res" "set res \<subseteq> insert \<lparr>StreamID = sid, Offset = receiveWindow fc'\<rparr> (set res1)"
    "receiveWindow fc' = receiveWindow fc \<or> \<lparr>StreamID = sid, Offset = receiveWindow fc'\<rparr> \<in> set res"
proof -
  obtain necessary inc offset fc' where upd: "MaybeUpdateWindow env now fc = ((necessary, inc, offset), fc')"
    by (metis surj_pair)
  have g: "grown fc fc'" "offset = receiveWindow fc'" "necessary \<or> receiveWindow fc' = receiveWindow fc" "bytesRead fc' < receiveWindow fc'"
    using MaybeUpdateWindow_grown [OF _ upd] assms(1,3) by (auto simp: all_ok_def)
  define f1 where "f1 = (if (force \<or> necessary) \<and> ContributesToConnection fc' \<and> inc \<noteq> 0
    then (putFlowController sid fc' f)\<lparr>connFlowController :=
      EnsureMinimumWindowIncrement (connectionIncrement inc) (connFlowController f)\<rparr> else putFlowController sid fc' f)"
  obtain res1 f2 where rec: "streamUpdates env now force ids f1 = (res1, f2)" by fastforce
  have "streamUpdates env now force (sid # ids) f =
      (if force \<or> necessary then \<lparr>StreamID = sid, Offset = offset\<rparr> # res1 else res1, f2)"
    using assms(3) upd rec unfolding f1_def by (auto simp: Let_def split: if_splits)
  then have res: "res = (if force \<or> necessary then \<lparr>StreamID = sid, Offset = offset\<rparr> # res1 else res1)" "f2 = f'"
    using assms(2) by (metis prod.inject)+
  have f1_cases: "f1 = putFlowController sid fc' f \<or>
      (\<exists>inc. f1 = (putFlowController sid fc' f)\<lparr>connFlowController := EnsureMinimumWindowIncrement inc (connFlowController f)\<rparr>)"
    by (auto simp: f1_def)
  have ens: "receiveWindow (EnsureMinimumWindowIncrement i c) = receiveWindow c" for i c by (simp add: EnsureMinimumWindowIncrement_def)
  show thesis
    by (rule that [of f1 res1 fc']) (use rec res g f1_cases streamUpdates_step [OF assms(1,3) g(1) f1_cases] ens in \<open>auto split: if_splits\<close>)
qed

lemma streamUpdates_grown:
  assumes "all_ok f" "streamUpdates env now force ids f = (res, f')" "0 \<notin> set ids"
  shows "all_grown f f' \<and> (\<forall>u \<in> set res. offered f u f')"
  using assms
proof (induction ids arbitrary: f res)
  case Nil
  then show ?case by (simp add: all_grown_refl)
next
  case (Cons sid ids)
  show ?case
  proof (cases "Mapping.lookup (streamFlowController f) sid")
    case None
    then show ?thesis using Cons by simp
  next
    case (Some fc)
    obtain fc' f1 res1 where f1: "streamUpdates env now force ids f1 = (res1, f')" "grown fc fc'"
      "streamFlowController f1 = Mapping.update sid fc' (streamFlowController f)" "all_grown f f1"
      "set res \<subseteq> insert \<lparr>StreamID = sid, Offset = receiveWindow fc'\<rparr> (set res1)"
      using streamUpdates_Cons [OF Cons.prems(1,2) Some] by metis
    have 2: "all_grown f1 f' \<and> (\<forall>u \<in> set res1. offered f1 u f')"
      using Cons.IH [OF all_grown_ok [OF f1(4)] f1(1)] Cons.prems(3) by simp
    have "offered f \<lparr>StreamID = sid, Offset = receiveWindow fc'\<rparr> f1"
      using f1(2,3) Some Cons.prems(3) by (auto simp: offered_def grown_def)
    then show ?thesis using f1(4,5) 2 by (blast intro: all_grown_trans offered_grown grown_offered)
  qed
qed

lemma GetWindowUpdates_grown:
  assumes "all_ok f" "GetWindowUpdates env now ids force f = (res, f')" "0 \<notin> set ids"
  shows "all_grown f f' \<and> (\<forall>u \<in> set res. offered f u f')"
proof -
  obtain res1 f1 where r: "streamUpdates env now force ids f = (res1, f1)" by fastforce
  note G = streamUpdates_grown [OF assms(1) r assms(3)]
  then have ok: "all_ok f1" using all_grown_ok by blast
  obtain necessary inc offset conn where upd: "MaybeUpdateWindow env now (connFlowController f1) = ((necessary, inc, offset), conn)"
    by (metis surj_pair)
  then have g: "grown (connFlowController f1) conn" "offset = receiveWindow conn"
    using MaybeUpdateWindow_grown [OF _ upd] ok by (auto simp: all_ok_def)
  have f': "f' = f1\<lparr>connFlowController := conn\<rparr>" "set res \<subseteq> insert \<lparr>StreamID = 0, Offset = offset\<rparr> (set res1)"
    using assms(2) r upd by (auto simp: GetWindowUpdates_def Let_def split: if_splits)
  have "all_grown f1 f'" using all_grown_refl [OF ok] g(1) by (simp add: all_grown_def f'(1))
  moreover have "offered f1 \<lparr>StreamID = 0, Offset = offset\<rparr> f'" using g by (simp add: offered_def f'(1) grown_def)
  ultimately show ?thesis using G f'(2) by (blast intro: all_grown_trans offered_grown grown_offered)
qed

text \<open>
  Every window that grows is announced, and after the updates every window visited has room: what is allowed
  exceeds what has been read.
\<close>

definition told :: "flowControlManager \<Rightarrow> WindowUpdate set \<Rightarrow> flowControlManager \<Rightarrow> bool" where
  "told f U f' \<longleftrightarrow> (\<forall>sid fc fc'. Mapping.lookup (streamFlowController f) sid = Some fc \<and>
     Mapping.lookup (streamFlowController f') sid = Some fc' \<longrightarrow>
     receiveWindow fc' = receiveWindow fc \<or> \<lparr>StreamID = sid, Offset = receiveWindow fc'\<rparr> \<in> U)"

lemma streamUpdates_told:
  assumes "all_ok f" "streamUpdates env now force ids f = (res, f')" "0 \<notin> set ids"
  shows "told f (set res) f' \<and> receiveWindow (connFlowController f') = receiveWindow (connFlowController f) \<and>
    (\<forall>sid fc'. sid \<in> set ids \<and> Mapping.lookup (streamFlowController f') sid = Some fc' \<longrightarrow> bytesRead fc' < receiveWindow fc')"
  using assms
proof (induction ids arbitrary: f res)
  case Nil
  then show ?case by (auto simp: told_def)
next
  case (Cons sid ids)
  show ?case
  proof (cases "Mapping.lookup (streamFlowController f) sid")
    case None
    then have "streamUpdates env now force ids f = (res, f')" using Cons.prems(2) by simp
    moreover from this have "Mapping.lookup (streamFlowController f') sid = None"
      using streamUpdates_grown [OF Cons.prems(1), of env now force ids res f'] Cons.prems(3) None
      by (auto simp: all_grown_def dest: spec [of _ sid])
    ultimately show ?thesis using Cons.IH [OF Cons.prems(1)] Cons.prems(3) by auto
  next
    case (Some fc)
    obtain fc1 f1 res1 where f1: "streamUpdates env now force ids f1 = (res1, f')" "grown fc fc1" "bytesRead fc1 < receiveWindow fc1"
      "streamFlowController f1 = Mapping.update sid fc1 (streamFlowController f)" "all_grown f f1"
      "receiveWindow (connFlowController f1) = receiveWindow (connFlowController f)" "set res1 \<subseteq> set res"
      "receiveWindow fc1 = receiveWindow fc \<or> \<lparr>StreamID = sid, Offset = receiveWindow fc1\<rparr> \<in> set res"
      using streamUpdates_Cons [OF Cons.prems(1,2) Some] by metis
    have zero: "0 \<notin> set ids" using Cons.prems(3) by simp
    note IH = Cons.IH [OF all_grown_ok [OF f1(5)] f1(1) zero]
    have "all_grown f1 f'" using streamUpdates_grown [OF all_grown_ok [OF f1(5)] f1(1) zero] by blast
    then obtain fc2 where fc2: "Mapping.lookup (streamFlowController f') sid = Some fc2" "grown fc1 fc2"
      using f1(4) by (auto elim: all_grown_lookup [where sid = sid])
    have "told f (set res) f'"
      unfolding told_def
    proof (intro allI impI, elim conjE)
      fix s c c' assume s: "Mapping.lookup (streamFlowController f) s = Some c" "Mapping.lookup (streamFlowController f') s = Some c'"
      obtain c1 where c1: "Mapping.lookup (streamFlowController f1) s = Some c1"
        "receiveWindow c1 = receiveWindow c \<or> \<lparr>StreamID = s, Offset = receiveWindow c1\<rparr> \<in> set res"
        using s(1) Some f1(4,8) by (cases "s = sid") (auto simp: lookup_update')
      then have "receiveWindow c' = receiveWindow c1 \<or> \<lparr>StreamID = s, Offset = receiveWindow c'\<rparr> \<in> set res1"
        using IH s(2) unfolding told_def by blast
      then show "receiveWindow c' = receiveWindow c \<or> \<lparr>StreamID = s, Offset = receiveWindow c'\<rparr> \<in> set res"
        using c1(2) f1(7) by auto
    qed
    moreover have "bytesRead fc2 < receiveWindow fc2" using f1(3) fc2(2) by (auto simp: grown_def)
    ultimately show ?thesis using IH f1(6) fc2(1) by auto
  qed
qed

lemma GetWindowUpdates_told:
  assumes "all_ok f" "GetWindowUpdates env now ids force f = (res, f')" "0 \<notin> set ids"
  shows "told f (set res) f'"
    "receiveWindow (connFlowController f') = receiveWindow (connFlowController f) \<or>
      \<lparr>StreamID = 0, Offset = receiveWindow (connFlowController f')\<rparr> \<in> set res"
    "bytesRead (connFlowController f') < receiveWindow (connFlowController f')"
    "\<And>sid fc'. sid \<in> set ids \<Longrightarrow> Mapping.lookup (streamFlowController f') sid = Some fc' \<Longrightarrow> bytesRead fc' < receiveWindow fc'"
proof -
  obtain res1 f1 where r: "streamUpdates env now force ids f = (res1, f1)" by fastforce
  note T = streamUpdates_told [OF assms(1) r assms(3)]
  have ok: "all_ok f1" using streamUpdates_grown [OF assms(1) r assms(3)] all_grown_ok by blast
  obtain necessary inc offset conn where upd: "MaybeUpdateWindow env now (connFlowController f1) = ((necessary, inc, offset), conn)"
    by (metis surj_pair)
  have g: "offset = receiveWindow conn" "necessary \<or> receiveWindow conn = receiveWindow (connFlowController f1)"
    "bytesRead conn < receiveWindow conn"
    using MaybeUpdateWindow_grown [OF _ upd] ok by (auto simp: all_ok_def)
  have f': "f' = f1\<lparr>connFlowController := conn\<rparr>" "set res1 \<subseteq> set res" "necessary \<Longrightarrow> \<lparr>StreamID = 0, Offset = offset\<rparr> \<in> set res"
    using assms(2) r upd by (auto simp: GetWindowUpdates_def Let_def split: if_splits)
  show "told f (set res) f'" using T f'(2) by (auto simp: told_def f'(1))
  show "receiveWindow (connFlowController f') = receiveWindow (connFlowController f) \<or>
      \<lparr>StreamID = 0, Offset = receiveWindow (connFlowController f')\<rparr> \<in> set res"
    using T g(1,2) f'(3) by (auto simp: f'(1))
  show "bytesRead (connFlowController f') < receiveWindow (connFlowController f')" using g(3) by (simp add: f'(1))
  show "bytesRead fc' < receiveWindow fc'" if "sid \<in> set ids" "Mapping.lookup (streamFlowController f') sid = Some fc'" for sid fc'
    using T that by (simp add: f'(1))
qed

section \<open>Any peer\<close>

text \<open>
  The manager with any peer at all: whatever offsets arrive, until one of them is refused. The application reads
  only what has arrived, and no stream and no connection carries \<open>2 ^ 62\<close> bytes. Round-trip times and the send
  windows may change between the steps; the configured receive windows do not.
\<close>

definition windows_ok :: "flowEnv \<Rightarrow> bool" where
  "windows_ok env \<longleftrightarrow>
     (let cp = connectionParameters env in
      2 \<le> GetReceiveStreamFlowControlWindow cp \<and> 2 \<le> GetReceiveConnectionFlowControlWindow cp \<and>
      GetReceiveStreamFlowControlWindow cp \<le> GetMaxReceiveStreamFlowControlWindow cp \<and>
      unat (GetMaxReceiveStreamFlowControlWindow cp) < 2 ^ 62 \<and>
      GetReceiveConnectionFlowControlWindow cp \<le> GetMaxReceiveConnectionFlowControlWindow cp \<and>
      unat (GetMaxReceiveConnectionFlowControlWindow cp) < 2 ^ 62)"

definition canRead :: "StreamID \<Rightarrow> ByteCount \<Rightarrow> flowControlManager \<Rightarrow> bool" where
  "canRead sid n f \<longleftrightarrow>
     (case Mapping.lookup (streamFlowController f) sid of
        None \<Rightarrow> False
      | Some fc \<Rightarrow> n \<le> highestReceived fc - bytesRead fc \<and> unat (bytesRead fc) + unat n < 2 ^ 62 \<and>
          unat (bytesRead (connFlowController f)) + unat n < 2 ^ 62)"

inductive manager_run :: "flowControlManager \<Rightarrow> bool" where
  start: "windows_ok env \<Longrightarrow> manager_run (NewFlowControlManager env)"
| new_stream: "manager_run f \<Longrightarrow> windows_ok env \<Longrightarrow> sid \<noteq> 0 \<Longrightarrow> manager_run (NewStream env sid b f)"
| remove: "manager_run f \<Longrightarrow> manager_run (RemoveStream sid f)"
| receive: "manager_run f \<Longrightarrow> UpdateHighestReceived sid off f = (None, f') \<Longrightarrow> manager_run f'"
| reset: "manager_run f \<Longrightarrow> ResetStream sid off f = (None, f') \<Longrightarrow> manager_run f'"
| read_bytes: "manager_run f \<Longrightarrow> canRead sid n f \<Longrightarrow> AddBytesRead now sid n f = (None, f') \<Longrightarrow> manager_run f'"
| updates: "manager_run f \<Longrightarrow> GetWindowUpdates env now ids force f = (res, f') \<Longrightarrow> 0 \<notin> set ids \<Longrightarrow> manager_run f'"
| send_bytes: "manager_run f \<Longrightarrow> AddBytesSent sid n f = (e, f') \<Longrightarrow> manager_run f'"
| retransmit: "manager_run f \<Longrightarrow> AddBytesRetrans sid n f = (e, f') \<Longrightarrow> manager_run f'"
| window: "manager_run f \<Longrightarrow> UpdateWindow sid off f = (r, f') \<Longrightarrow> manager_run f'"

text \<open>What has arrived on a stream that contributes to the connection and has not been read.\<close>

definition unread :: "flowControlManager \<Rightarrow> StreamID \<Rightarrow> nat" where
  "unread f sid =
     (case Mapping.lookup (streamFlowController f) sid of
        None \<Rightarrow> 0
      | Some fc \<Rightarrow> if contributesToConnection fc then unat (highestReceived fc) - unat (bytesRead fc) else 0)"

definition manager_ok :: "flowControlManager \<Rightarrow> bool" where
  "manager_ok f \<longleftrightarrow> all_ok f \<and>
     (\<Sum>sid \<in> UNIV. unread f sid) \<le> unat (highestReceived (connFlowController f)) - unat (bytesRead (connFlowController f))"

text \<open>An operation that keeps what a controller knows of received and read bytes.\<close>

definition kept :: "flowController \<Rightarrow> flowController \<Rightarrow> bool" where
  "kept c c' \<longleftrightarrow> contributesToConnection c' = contributesToConnection c \<and> highestReceived c' = highestReceived c \<and>
     bytesRead c' = bytesRead c \<and> recv_ok c'"

lemma manager_ok_kept:
  assumes "manager_ok f" "kept (connFlowController f) (connFlowController f')"
    and "\<And>sid. rel_option kept (Mapping.lookup (streamFlowController f) sid) (Mapping.lookup (streamFlowController f') sid)"
  shows "manager_ok f'"
proof -
  have "unread f' sid = unread f sid" for sid
    using assms(3) [of sid] by (auto simp: unread_def kept_def rel_option_iff split: option.splits)
  moreover have "recv_ok fc" if "Mapping.lookup (streamFlowController f') sid = Some fc" for sid fc
    using assms(3) [of sid] that by (auto simp: kept_def rel_option_iff split: option.splits)
  ultimately show ?thesis using assms(1,2) by (simp add: manager_ok_def all_ok_def kept_def)
qed

lemma kept_refl: "recv_ok c \<Longrightarrow> kept c c"
  by (simp add: kept_def)

lemma manager_ok_kept_one:
  assumes "manager_ok f" "kept (connFlowController f) (connFlowController f')"
    and "Mapping.lookup (streamFlowController f) sid = Some fc" "kept fc fc'"
    and "streamFlowController f' = Mapping.update sid fc' (streamFlowController f)"
  shows "manager_ok f'"
proof (rule manager_ok_kept [OF assms(1,2)])
  fix s
  have "recv_ok c" if "Mapping.lookup (streamFlowController f) s = Some c" for c
    using that assms(1) by (auto simp: manager_ok_def all_ok_def)
  then show "rel_option kept (Mapping.lookup (streamFlowController f) s) (Mapping.lookup (streamFlowController f') s)"
    using assms(3-5) by (cases "s = sid"; cases "Mapping.lookup (streamFlowController f) s") (auto simp: lookup_update' kept_refl)
qed

lemma grown_kept: "grown c c' \<Longrightarrow> kept c c'"
  by (simp add: grown_def kept_def)

lemma all_grown_kept: "manager_ok f \<Longrightarrow> all_grown f f' \<Longrightarrow> manager_ok f'"
proof (rule manager_ok_kept)
  assume g: "all_grown f f'"
  show "kept (connFlowController f) (connFlowController f')" using g by (simp add: all_grown_def grown_kept)
  show "rel_option kept (Mapping.lookup (streamFlowController f) sid) (Mapping.lookup (streamFlowController f') sid)" for sid
    using g unfolding all_grown_def by (metis grown_kept option.rel_mono_strong)
qed

text \<open>A stream and the connection change; every other stream stays as it is.\<close>

lemma sum_unread_put:
  assumes "Mapping.lookup (streamFlowController f) sid = Some fc" "streamFlowController f' = Mapping.update sid fc' (streamFlowController f)"
  shows "(\<Sum>s \<in> UNIV. unread f' s) + unread f sid = (\<Sum>s \<in> UNIV. unread f s) + unread f' sid"
proof -
  have "unread f' s = unread f s" if "s \<noteq> sid" for s using that assms(2) by (simp add: unread_def lookup_update_neq)
  then have "(\<Sum>s \<in> UNIV - {sid}. unread f' s) = (\<Sum>s \<in> UNIV - {sid}. unread f s)" by (intro sum.cong) auto
  then show ?thesis by (simp add: sum.remove [of UNIV sid])
qed

lemma manager_ok_put:
  assumes "manager_ok f" "Mapping.lookup (streamFlowController f) sid = Some fc"
    and "streamFlowController f' = Mapping.update sid fc' (streamFlowController f)" "recv_ok fc'" "recv_ok (connFlowController f')"
    and "unread f' sid + (unat (highestReceived (connFlowController f)) - unat (bytesRead (connFlowController f))) \<le>
      unread f sid + (unat (highestReceived (connFlowController f')) - unat (bytesRead (connFlowController f')))"
  shows "manager_ok f'"
  using assms sum_unread_put [OF assms(2,3)] by (auto simp: manager_ok_def all_ok_def lookup_update')

lemma recv_ok_bounds:
  assumes "recv_ok c"
  shows "unat (highestReceived c) < 2 ^ 63" "unat (receiveWindow c) < 2 ^ 63"
  using assms by (auto simp: recv_ok_def)

lemma fc_UpdateHighestReceived_cases:
  assumes "fc_UpdateHighestReceived off fc = ((inc, e), fc')" "recv_ok fc" "\<not> CheckFlowControlViolation fc'"
  shows "recv_ok fc'" "unat (highestReceived fc') = unat (highestReceived fc) + unat inc" "unat inc < 2 ^ 63"
    "bytesRead fc' = bytesRead fc" "contributesToConnection fc' = contributesToConnection fc"
    "receiveWindow fc' = receiveWindow fc"
proof -
  consider (up) "highestReceived fc < off" "inc = off - highestReceived fc" "fc' = fc\<lparr>highestReceived := off\<rparr>" | (same) "inc = 0" "fc' = fc"
    using assms(1) by (auto simp: fc_UpdateHighestReceived_def split: if_splits)
  then have "recv_ok fc' \<and> unat (highestReceived fc') = unat (highestReceived fc) + unat inc \<and> unat inc < 2 ^ 63 \<and>
    bytesRead fc' = bytesRead fc \<and> contributesToConnection fc' = contributesToConnection fc \<and> receiveWindow fc' = receiveWindow fc"
  proof cases
    case up
    have "unat off \<le> unat (receiveWindow fc)" using assms(3) up(3) by (simp add: CheckFlowControlViolation_def word_le_nat_alt not_less)
    moreover have "unat inc = unat off - unat (highestReceived fc)" "unat (highestReceived fc) < unat off"
      using up(1,2) by (simp_all add: unat_sub word_le_nat_alt word_less_nat_alt)
    moreover have "unat (receiveWindow fc) < 2 ^ 63" by (rule recv_ok_bounds(2) [OF assms(2)])
    ultimately show ?thesis using up(3) assms(2) by (auto simp: recv_ok_def)
  qed (use assms(2) in simp)
  then show "recv_ok fc'" "unat (highestReceived fc') = unat (highestReceived fc) + unat inc" "unat inc < 2 ^ 63"
    "bytesRead fc' = bytesRead fc" "contributesToConnection fc' = contributesToConnection fc" "receiveWindow fc' = receiveWindow fc"
    by blast+
qed

lemma checkViolations_ok:
  assumes ok: "manager_ok f" and fc: "Mapping.lookup (streamFlowController f) sid = Some fc"
    and upd: "fc_UpdateHighestReceived off fc = ((inc, e), fc')"
    and g: "streamFlowController g = Mapping.update sid fc' (streamFlowController f)" "connFlowController g = connFlowController f"
    and check: "checkViolations sid off inc fc' g = (None, f')"
  shows "manager_ok f'"
proof -
  have r: "recv_ok fc" "recv_ok (connFlowController f)" using ok fc by (auto simp: manager_ok_def all_ok_def)
  have v: "\<not> CheckFlowControlViolation fc'" using check by (auto simp: checkViolations_def split: if_splits)
  note U = fc_UpdateHighestReceived_cases [OF upd r(1) v]
  have un: "unread f sid = (if contributesToConnection fc then unat (highestReceived fc) - unat (bytesRead fc) else 0)"
    "unread f' sid = (if contributesToConnection fc then unat (highestReceived fc') - unat (bytesRead fc) else 0)"
    if "streamFlowController f' = streamFlowController g"
    using fc g(1) U(4,5) that by (simp_all add: unread_def)
  show ?thesis
  proof (cases "contributesToConnection fc'")
    case True
    let ?conn = "IncrementHighestReceived inc (connFlowController f)"
    have f': "f' = g\<lparr>connFlowController := ?conn\<rparr>" "\<not> CheckFlowControlViolation ?conn"
      using check v True by (auto simp: checkViolations_def ContributesToConnection_def Let_def g(2) split: if_splits)
    have h: "unat (highestReceived ?conn) = unat (highestReceived (connFlowController f)) + unat inc"
      using recv_ok_bounds(1) [OF r(2)] U(3) by (simp add: IncrementHighestReceived_def unat_add_noov)
    have "recv_ok ?conn" using r(2) f'(2) h
      by (simp add: recv_ok_def CheckFlowControlViolation_def IncrementHighestReceived_def word_le_nat_alt not_less)
    moreover have "unat (bytesRead fc) \<le> unat (highestReceived fc)" "bytesRead ?conn = bytesRead (connFlowController f)"
      "unat (bytesRead (connFlowController f)) \<le> unat (highestReceived (connFlowController f))"
      using r by (simp_all add: recv_ok_def IncrementHighestReceived_def)
    ultimately show ?thesis
      by (intro manager_ok_put [OF ok fc _ U(1)]) (use U(2,5) h un True in \<open>simp_all add: f'(1) g(1)\<close>)
  next
    case False
    then have "f' = g" using check v by (simp add: checkViolations_def ContributesToConnection_def)
    then show ?thesis using manager_ok_put [OF ok fc, of f' fc'] U(1,5) un r(2) g False by simp
  qed
qed

lemma received_ok:
  assumes "manager_ok f" "UpdateHighestReceived sid off f = (None, f') \<or> ResetStream sid off f = (None, f')"
  shows "manager_ok f'"
proof -
  obtain fc where fc: "Mapping.lookup (streamFlowController f) sid = Some fc"
    using assms(2) by (cases "Mapping.lookup (streamFlowController f) sid") (auto simp: UpdateHighestReceived_def ResetStream_def getFlowController_def)
  obtain inc e fc' where upd: "fc_UpdateHighestReceived off fc = ((inc, e), fc')" by (metis surj_pair)
  let ?g = "putFlowController sid fc' f"
  have "checkViolations sid off inc fc' ?g = (None, f') \<or>
      checkViolations sid off inc fc' (?g\<lparr>numOutofOrder := numOutofOrder ?g + 1\<rparr>) = (None, f')"
    using assms(2) fc upd by (cases e) (auto simp: UpdateHighestReceived_def ResetStream_def getFlowController_def Let_def)
  then show ?thesis
    using checkViolations_ok [OF assms(1) fc upd, of ?g f'] checkViolations_ok [OF assms(1) fc upd, of "?g\<lparr>numOutofOrder := numOutofOrder ?g + 1\<rparr>" f']
    by auto
qed

lemma manager_okD:
  assumes "manager_ok f"
  shows "recv_ok (connFlowController f)" "Mapping.lookup (streamFlowController f) s = Some fc \<Longrightarrow> recv_ok fc"
  using assms by (auto simp: manager_ok_def all_ok_def)

lemma onBoth_kept:
  assumes "manager_ok f" "onBoth g sid f = (e, f')" "\<And>c. recv_ok c \<Longrightarrow> kept c (g c)"
  shows "manager_ok f'"
proof (cases "Mapping.lookup (streamFlowController f) sid")
  case None
  then show ?thesis using assms(1,2) by (auto simp: onBoth_def getFlowController_def)
next
  case (Some fc)
  note r = manager_okD [OF assms(1)]
  have f': "streamFlowController f' = Mapping.update sid (g fc) (streamFlowController f)"
    "connFlowController f' \<in> {connFlowController f, g (connFlowController f)}"
    using assms(2) Some by (auto simp: onBoth_def getFlowController_def Let_def split: if_splits)
  show ?thesis
    by (rule manager_ok_kept_one [OF assms(1) _ Some _ f'(1)]) (use f'(2) assms(3) r Some kept_refl in auto)
qed

lemma fc_AddBytesRead_fields [simp]:
  "bytesRead (fc_AddBytesRead now n c) = bytesRead c + n" "highestReceived (fc_AddBytesRead now n c) = highestReceived c"
  "receiveWindow (fc_AddBytesRead now n c) = receiveWindow c" "bytesSent (fc_AddBytesRead now n c) = bytesSent c"
  "receiveWindowIncrement (fc_AddBytesRead now n c) = receiveWindowIncrement c" "sendWindow (fc_AddBytesRead now n c) = sendWindow c"
  "maxReceiveWindowIncrement (fc_AddBytesRead now n c) = maxReceiveWindowIncrement c" "streamID (fc_AddBytesRead now n c) = streamID c"
  "contributesToConnection (fc_AddBytesRead now n c) = contributesToConnection c"
  by (simp_all add: fc_AddBytesRead_def Let_def)

lemma read_ok:
  assumes ok: "manager_ok f" and can: "canRead sid n f" and "AddBytesRead now sid n f = (None, f')"
  shows "manager_ok f'"
proof -
  obtain fc where fc: "Mapping.lookup (streamFlowController f) sid = Some fc" and n: "n \<le> highestReceived fc - bytesRead fc"
    and small: "unat (bytesRead fc) + unat n < 2 ^ 62" "unat (bytesRead (connFlowController f)) + unat n < 2 ^ 62"
    using can by (auto simp: canRead_def split: option.splits)
  let ?fc = "fc_AddBytesRead now n fc" and ?conn = "fc_AddBytesRead now n (connFlowController f)"
  have r: "recv_ok fc" "recv_ok (connFlowController f)" using ok fc by (auto simp: manager_ok_def all_ok_def)
  have n': "unat n + unat (bytesRead fc) \<le> unat (highestReceived fc)"
    using n r(1) by (simp add: word_le_nat_alt unat_sub recv_ok_def) linarith
  have add: "recv_ok (fc_AddBytesRead now n c)" "unat (bytesRead (fc_AddBytesRead now n c)) = unat (bytesRead c) + unat n"
    if "recv_ok c" "unat (bytesRead c) + unat n < 2 ^ 62" "unat n + unat (bytesRead c) \<le> unat (highestReceived c)" for c
    using that by (simp_all add: recv_ok_def unat_add_noov)
  have f': "streamFlowController f' = Mapping.update sid ?fc (streamFlowController f)"
    "connFlowController f' = (if contributesToConnection fc then ?conn else connFlowController f)"
    using assms(3) fc by (auto simp: AddBytesRead_def onBoth_def getFlowController_def ContributesToConnection_def Let_def)
  have "unat n \<le> unat (highestReceived (connFlowController f)) - unat (bytesRead (connFlowController f))" if "contributesToConnection fc"
  proof -
    have "unat n \<le> unread f sid" using that fc n' by (simp add: unread_def)
    also have "\<dots> \<le> (\<Sum>s \<in> UNIV. unread f s)" by (rule member_le_sum) auto
    finally show ?thesis using ok by (simp add: manager_ok_def)
  qed
  then show ?thesis
    using r small n' add [of fc] add [of "connFlowController f"] fc f'
    by (intro manager_ok_put [OF ok fc f'(1)]) (auto simp: unread_def recv_ok_def)
qed

lemma new_recv_ok: "windows_ok env \<Longrightarrow> recv_ok (newFlowController sid b env)"
  by (auto simp: windows_ok_def newFlowController_def recv_ok_def Let_def word_le_nat_alt)

lemma NewStream_ok:
  assumes "manager_ok f" "windows_ok env"
  shows "manager_ok (NewStream env sid b f)"
proof (cases "Mapping.lookup (streamFlowController f) sid")
  case None
  let ?f = "f\<lparr>streamFlowController := Mapping.update sid (newFlowController sid b env) (streamFlowController f)\<rparr>"
  have "unread ?f s = unread f s" for s
    by (cases "s = sid") (simp_all add: unread_def None newFlowController_def Let_def lookup_update')
  moreover have "all_ok ?f" using assms(1) new_recv_ok [OF assms(2)] by (simp add: manager_ok_def all_ok_def lookup_update')
  ultimately show ?thesis using assms(1) None by (simp add: NewStream_def manager_ok_def)
qed (use assms(1) in \<open>simp add: NewStream_def\<close>)

lemma RemoveStream_ok:
  assumes "manager_ok f"
  shows "manager_ok (RemoveStream sid f)"
proof -
  have "unread (RemoveStream sid f) s \<le> unread f s" for s
    by (cases "s = sid") (simp_all add: RemoveStream_def unread_def)
  then have "(\<Sum>s \<in> UNIV. unread (RemoveStream sid f) s) \<le> (\<Sum>s \<in> UNIV. unread f s)" by (rule sum_mono)
  moreover have "recv_ok fc" if "Mapping.lookup (streamFlowController (RemoveStream sid f)) s = Some fc" for s fc
    using that assms by (cases "s = sid") (auto simp: RemoveStream_def manager_ok_def all_ok_def)
  moreover have "connFlowController (RemoveStream sid f) = connFlowController f" by (simp add: RemoveStream_def)
  ultimately show ?thesis using assms unfolding manager_ok_def all_ok_def by simp
qed

lemma UpdateWindow_ok:
  assumes "manager_ok f" "UpdateWindow sid off f = (r, f')"
  shows "manager_ok f'"
proof -
  have upd: "kept c (snd (UpdateSendWindow off c))" if "recv_ok c" for c
    using that by (simp add: UpdateSendWindow_def kept_def recv_ok_def)
  note r = manager_okD [OF assms(1)]
  consider "f' = f" | "f' = f\<lparr>connFlowController := snd (UpdateSendWindow off (connFlowController f))\<rparr>"
    | fc where "Mapping.lookup (streamFlowController f) sid = Some fc" "f' = putFlowController sid (snd (UpdateSendWindow off fc)) f"
    using assms(2) by (auto simp: UpdateWindow_def getFlowController_def Let_def split: if_splits option.splits prod.splits)
  then show ?thesis
  proof cases
    case 2
    have "unread f' s = unread f s" for s by (simp add: 2 unread_def)
    then show ?thesis using assms(1) upd [OF r(1)] by (simp add: 2 manager_ok_def all_ok_def kept_def)
  next
    case 3
    then show ?thesis using upd r by (intro manager_ok_kept_one [OF assms(1) _ 3(1)]) (simp_all add: kept_refl)
  qed (use assms(1) in simp)
qed

lemma kept_sent: "recv_ok c \<Longrightarrow> kept c (fc_AddBytesSent n c)" "recv_ok c \<Longrightarrow> kept c (fc_AddBytesRetrans n c)"
  by (simp_all add: fc_AddBytesSent_def fc_AddBytesRetrans_def kept_def recv_ok_def)

lemma manager_run_ok: "manager_run f \<Longrightarrow> manager_ok f"
proof (induction rule: manager_run.induct)
  case (start env)
  then show ?case by (simp add: manager_ok_def all_ok_def NewFlowControlManager_def new_recv_ok unread_def)
next
  case (updates f env now ids force res f')
  then have "all_grown f f'" using GetWindowUpdates_grown [of f env now ids force res f'] by (simp add: manager_ok_def)
  with updates.IH show ?case by (rule all_grown_kept)
next
  case (send_bytes f sid n e f')
  then show ?case unfolding AddBytesSent_def using onBoth_kept kept_sent(1) by blast
next
  case (retransmit f sid n e f')
  then show ?case unfolding AddBytesRetrans_def using onBoth_kept kept_sent(2) by blast
qed (blast intro: NewStream_ok RemoveStream_ok received_ok read_ok UpdateWindow_ok)+

text \<open>
  C12. no peer makes the receiver buffer more than it allows. In every run, whatever offsets the peer sends, the bytes
  received and not yet read are at most the maximum receive window, on every stream and, summed over all streams
  that count for the connection, on the connection.
\<close>

theorem receive_buffer_bounded:
  assumes "manager_run f"
  shows "(\<forall>sid fc. Mapping.lookup (streamFlowController f) sid = Some fc \<longrightarrow>
      unat (highestReceived fc) - unat (bytesRead fc) \<le> unat (maxReceiveWindowIncrement fc)) \<and>
    (\<Sum>sid \<in> UNIV. unread f sid) \<le> unat (maxReceiveWindowIncrement (connFlowController f))"
proof -
  note ok = manager_run_ok [OF assms]
  have "unat (highestReceived c) - unat (bytesRead c) \<le> unat (maxReceiveWindowIncrement c)" if "recv_ok c" for c
    using that by (auto simp: recv_ok_def)
  then show ?thesis using ok manager_okD [OF ok] by (fastforce simp: manager_ok_def)
qed

text \<open>An example: a stream on which 100 bytes have arrived.\<close>

definition exampleParameters :: connectionParametersManager where
  "exampleParameters = (NewConnectionParamatersManager PerspectiveServer Version39 1048576 1572864 (30 * Second))\<lparr>
     sendStreamFlowControlWindow := 32768, sendConnectionFlowControlWindow := 49152\<rparr>"

definition exampleEnv :: flowEnv where
  "exampleEnv = \<lparr>connectionParameters = exampleParameters, SmoothedRTT = 1000, remoteRTTs = Mapping.empty\<rparr>"

definition exampleManager :: flowControlManager where
  "exampleManager = NewStream exampleEnv 5 True (NewFlowControlManager exampleEnv)"

lemmas example_defs = exampleEnv_def exampleParameters_def exampleManager_def NewConnectionParamatersManager_def
  GetReceiveStreamFlowControlWindow_def GetReceiveConnectionFlowControlWindow_def GetMaxReceiveStreamFlowControlWindow_def
  GetMaxReceiveConnectionFlowControlWindow_def GetSendStreamFlowControlWindow_def GetSendConnectionFlowControlWindow_def
  ReceiveStreamFlowControlWindow_def ReceiveConnectionFlowControlWindow_def NewStream_def NewFlowControlManager_def
  newFlowController_def

lemma exampleEnv_ok: "windows_ok exampleEnv"
  by (simp add: windows_ok_def example_defs)

lemma exampleManager_run: "manager_run exampleManager"
  unfolding exampleManager_def by (intro manager_run.intros exampleEnv_ok) simp

lemma example_receive: "fst (UpdateHighestReceived 5 100 exampleManager) = None"
  by (simp add: UpdateHighestReceived_def getFlowController_def checkViolations_def fc_UpdateHighestReceived_def
      CheckFlowControlViolation_def ContributesToConnection_def IncrementHighestReceived_def Let_def example_defs)

theorem receive_buffer_bounded_witness:
  "(\<Sum>sid \<in> UNIV. unread (snd (UpdateHighestReceived 5 100 exampleManager)) sid) \<le>
    unat (maxReceiveWindowIncrement (connFlowController (snd (UpdateHighestReceived 5 100 exampleManager))))"
proof -
  have "manager_run (snd (UpdateHighestReceived 5 100 exampleManager))"
    by (rule manager_run.receive [OF exampleManager_run, of 5 100]) (simp add: prod_eq_iff example_receive)
  then show ?thesis using receive_buffer_bounded by blast
qed

section \<open>Maxima below the initial window\<close>

text \<open>What the loop over the streams does to one of them.\<close>

lemma streamUpdates_other:
  assumes "sid \<notin> set ids"
  shows "Mapping.lookup (streamFlowController (snd (streamUpdates env now force ids f))) sid = Mapping.lookup (streamFlowController f) sid"
  using assms
proof (induction ids arbitrary: f)
  case (Cons i ids)
  then show ?case by (auto simp: Let_def lookup_update' split: option.splits prod.splits dest!: arg_cong [where f = snd])
qed simp

lemma streamUpdates_Some:
  assumes "Mapping.lookup (streamFlowController f) i = Some c" "MaybeUpdateWindow env now c = ((necessary, inc, off), c')"
    and "streamUpdates env now force (i # ids) f = (res, f')"
  obtains f1 res1 where "streamFlowController f1 = Mapping.update i c' (streamFlowController f)"
    "streamUpdates env now force ids f1 = (res1, f')" "res = (if force \<or> necessary then [\<lparr>StreamID = i, Offset = off\<rparr>] else []) @ res1"
proof -
  define f1 where "f1 = (if (force \<or> necessary) \<and> ContributesToConnection c' \<and> inc \<noteq> 0
    then (putFlowController i c' f)\<lparr>connFlowController := EnsureMinimumWindowIncrement (connectionIncrement inc) (connFlowController f)\<rparr>
    else putFlowController i c' f)"
  obtain res1 f2 where "streamUpdates env now force ids f1 = (res1, f2)" by (rule prod.exhaust)
  then show ?thesis using assms(3)
    by (intro that [of f1 res1]) (auto simp: assms(1,2) Let_def f1_def split: if_splits)
qed

lemma streamUpdates_own:
  assumes "sid \<in> set ids" "distinct ids" "Mapping.lookup (streamFlowController f) sid = Some fc"
    and "MaybeUpdateWindow env now fc = ((True, inc, off), fc')" "streamUpdates env now force ids f = (res, f')"
  shows "\<lparr>StreamID = sid, Offset = off\<rparr> \<in> set res \<and> Mapping.lookup (streamFlowController f') sid = Some fc'"
  using assms(1-3,5)
proof (induction ids arbitrary: f res)
  case (Cons i ids)
  show ?case
  proof (cases "i = sid")
    case True
    then have "sid \<notin> set ids" using Cons.prems(2) by simp
    note other = streamUpdates_other [OF this, where env = env and now = now and force = force]
    have run: "streamUpdates env now force (sid # ids) f = (res, f')" using Cons.prems(4) True by simp
    obtain f1 res1 where "streamFlowController f1 = Mapping.update sid fc' (streamFlowController f)"
      "streamUpdates env now force ids f1 = (res1, f')" "\<lparr>StreamID = sid, Offset = off\<rparr> \<in> set res"
      by (rule streamUpdates_Some [OF Cons.prems(3) assms(4) run]) simp
    then show ?thesis using other [of f1] by (simp add: lookup_update)
  next
    case False
    show ?thesis
    proof (cases "Mapping.lookup (streamFlowController f) i")
      case None
      then show ?thesis using Cons False by simp
    next
      case (Some c)
      obtain nec inc' off' c' where upd: "MaybeUpdateWindow env now c = ((nec, inc', off'), c')" by (metis prod.exhaust)
      obtain f1 res1 where "streamFlowController f1 = Mapping.update i c' (streamFlowController f)"
        "streamUpdates env now force ids f1 = (res1, f')" "set res1 \<subseteq> set res"
        by (rule streamUpdates_Some [OF Some upd Cons.prems(4)]) simp
      then show ?thesis using Cons.IH [of f1 res1] Cons.prems(1-3) False by (auto simp: lookup_update')
    qed
  qed
qed simp

text \<open>An update that is due within two round-trip times leaves the maximum beyond what has been read.\<close>

lemma MaybeUpdateWindow_maximum:
  assumes "receiveWindow c - bytesRead c < receiveWindowIncrement c div 2" "lastWindowUpdateTime c \<noteq> zeroTime"
    and "SmoothedRTT env \<noteq> 0" "time_Sub now (lastWindowUpdateTime c) < 2 * max (SmoothedRTT env) (maxRemoteRTT env)"
    and "maxReceiveWindowIncrement c \<le> 2 * receiveWindowIncrement c"
  shows "\<exists>inc. MaybeUpdateWindow env now c = ((True, inc, bytesRead c + maxReceiveWindowIncrement c),
    c\<lparr>receiveWindowIncrement := maxReceiveWindowIncrement c, lastWindowUpdateTime := now,
      receiveWindow := bytesRead c + maxReceiveWindowIncrement c\<rparr>)"
  using assms by (simp add: MaybeUpdateWindow_def maybeAdjustWindowIncrement_def Let_def min_def not_le)

text \<open>
  C36. a configured maximum below half the initial window takes back what was granted. A new stream grants its initial
  window \<open>w\<close>, and the configured maximum is \<open>m\<close>. If the peer sends \<open>n\<close> bytes, more than half of the window, with \<open>n + m\<close> still
  below the window, and they are read and the updates collected within two round-trip times, then the offset \<open>n + m\<close> is
  announced, and a peer that goes beyond it within the window it was granted closes the connection with
  \<^verbatim>\<open>FlowControlReceivedTooMuchData\<close>.
\<close>

theorem small_maximum_shrinks_window:
  assumes "w = GetReceiveStreamFlowControlWindow (connectionParameters env)" "unat w < 2 ^ 63"
    and "m = GetMaxReceiveStreamFlowControlWindow (connectionParameters env)"
    and "unat w - unat n < unat w div 2" "unat n + unat m < unat w"
    and "sid \<noteq> 0" "Mapping.lookup (streamFlowController f) sid = None" "f0 = NewStream env sid contributes f"
    and "UpdateHighestReceived sid n f0 = (None, f1)" "AddBytesRead t sid n f1 = (None, f2)"
    and "t \<noteq> zeroTime" "SmoothedRTT env \<noteq> 0" "time_Sub now t < 2 * max (SmoothedRTT env) (maxRemoteRTT env)"
    and "sid \<in> set ids" "distinct ids" "GetWindowUpdates env now ids force f2 = (res, f3)"
  shows "GetReceiveWindow sid f0 = Inr w \<and> \<lparr>StreamID = sid, Offset = n + m\<rparr> \<in> set res \<and> n + m < w \<and>
    (\<forall>off. n + m < off \<and> off \<le> w \<longrightarrow>
       (\<exists>err. fst (UpdateHighestReceived sid off f3) = Some err \<and> errorCodeOf err = FlowControlReceivedTooMuchData))"
proof -
  let ?c0 = "newFlowController sid contributes env"
  let ?c2 = "?c0\<lparr>highestReceived := n, lastWindowUpdateTime := t, bytesRead := n\<rparr>"
  have c0: "Mapping.lookup (streamFlowController f0) sid = Some ?c0" using assms(7,8) by (simp add: NewStream_def lookup_update)
  have w: "receiveWindow ?c0 = w" "receiveWindowIncrement ?c0 = w" "maxReceiveWindowIncrement ?c0 = m" "highestReceived ?c0 = 0" "bytesRead ?c0 = 0"
    using assms(1,3,6) by (simp_all add: newFlowController_def Let_def)
  have "n \<noteq> 0" using assms(4) by (cases "n = 0") auto
  then have "Mapping.lookup (streamFlowController f1) sid = Some (?c0\<lparr>highestReceived := n\<rparr>)"
    using assms(9) c0 w(4) by (auto simp: UpdateHighestReceived_def getFlowController_def fc_UpdateHighestReceived_def checkViolations_def
        Let_def lookup_update word_gt_0 split: if_splits)
  then have c2: "Mapping.lookup (streamFlowController f2) sid = Some ?c2"
    using assms(10) w(5) by (auto simp: AddBytesRead_def onBoth_def getFlowController_def fc_AddBytesRead_def Let_def lookup_update)
  have nm: "unat (n + m) = unat n + unat m" using assms(2,5) by (intro unat_add_noov) simp
  have "unat n \<le> unat w" "unat (w - n) = unat w - unat n" "unat (2 * w) = 2 * unat w"
    using assms(2,5) by (auto simp: unat_sub word_le_nat_alt unat_word_ariths)
  then have due: "w - n < w div 2" "m \<le> 2 * w" using assms(4,5) by (simp_all add: word_less_nat_alt word_le_nat_alt unat_div)
  obtain inc where "MaybeUpdateWindow env now ?c2 = ((True, inc, n + m),
      ?c2\<lparr>receiveWindowIncrement := m, lastWindowUpdateTime := now, receiveWindow := n + m\<rparr>)" (is "_ = (_, ?c3)")
    using MaybeUpdateWindow_maximum [of ?c2 env now] due assms(11-13) w by auto
  then have "\<lparr>StreamID = sid, Offset = n + m\<rparr> \<in> set res" and c3: "Mapping.lookup (streamFlowController f3) sid = Some ?c3"
    using streamUpdates_own [OF assms(14,15) c2, of env now _ _ _ force] assms(16)
    by (auto simp: GetWindowUpdates_def Let_def split: prod.splits if_splits)
  moreover have "\<exists>err. fst (UpdateHighestReceived sid off f3) = Some err \<and> errorCodeOf err = FlowControlReceivedTooMuchData"
    if "n + m < off" for off
  proof -
    have "n < off" using that nm by (simp add: word_less_nat_alt)
    then show ?thesis using c3 that by (auto simp: UpdateHighestReceived_def getFlowController_def fc_UpdateHighestReceived_def
        checkViolations_def CheckFlowControlViolation_def errStreamViolation_def Let_def)
  qed
  ultimately show ?thesis using c0 w(1) nm assms(5,6) by (auto simp: GetReceiveWindow_def getFlowController_def word_less_nat_alt)
qed

text \<open>An example: a maximum of 10000 bytes, below half of the 32768 bytes granted from the start.\<close>

definition smallEnv :: flowEnv where
  "smallEnv = \<lparr>connectionParameters = NewConnectionParamatersManager PerspectiveServer Version39 10000 1572864 (30 * Second),
     SmoothedRTT = 1000, remoteRTTs = Mapping.empty\<rparr>"

lemma smallEnv_run:
  "let f0 = NewStream smallEnv 5 False (NewFlowControlManager smallEnv); f1 = snd (UpdateHighestReceived 5 17000 f0)
   in fst (UpdateHighestReceived 5 17000 f0) = None \<and> fst (AddBytesRead 1 5 17000 f1) = None"
  "GetReceiveStreamFlowControlWindow (connectionParameters smallEnv) = 32768"
  "GetMaxReceiveStreamFlowControlWindow (connectionParameters smallEnv) = 10000"
  "SmoothedRTT smallEnv = 1000" "maxRemoteRTT smallEnv = 0"
  "Mapping.lookup (streamFlowController (NewFlowControlManager smallEnv)) 5 = None"
  by code_simp+

theorem small_maximum_shrinks_window_witness:
  "let f0 = NewStream smallEnv 5 False (NewFlowControlManager smallEnv);
       f2 = snd (AddBytesRead 1 5 17000 (snd (UpdateHighestReceived 5 17000 f0)))
   in \<lparr>StreamID = 5, Offset = 27000\<rparr> \<in> set (fst (GetWindowUpdates smallEnv 2 [5] False f2)) \<and>
      fst (UpdateHighestReceived 5 32768 (snd (GetWindowUpdates smallEnv 2 [5] False f2))) \<noteq> None"
proof -
  let ?f0 = "NewStream smallEnv 5 False (NewFlowControlManager smallEnv)"
  let ?f1 = "snd (UpdateHighestReceived 5 17000 ?f0)"
  have "UpdateHighestReceived 5 17000 ?f0 = (None, ?f1)" "AddBytesRead 1 5 17000 ?f1 = (None, snd (AddBytesRead 1 5 17000 ?f1))"
    using smallEnv_run(1) by (simp_all add: Let_def prod_eq_iff)
  from small_maximum_shrinks_window [OF smallEnv_run(2) [symmetric] _ smallEnv_run(3) [symmetric] _ _ _ smallEnv_run(6) refl this,
    of 2 "[5]" False, OF _ _ _ _ _ _ _ _ _ prod.collapse [symmetric]]
  show ?thesis by (auto simp: Let_def zeroTime_def smallEnv_run(4,5) time_Sub_def dest!: spec [of _ 32768])
qed

end
