(* ===== verification/FlowLink.thy ===== *)
theory FlowLink
  imports FlowControl
begin

text \<open>
  Two endpoints of this implementation and the network between them: the sender's and the receiver's flow control
  agree, so that a sender that keeps to its windows is never accused of a violation, and a blocked sender is
  unblocked by the window update for what has been read.
\<close>

section \<open>Two endpoints\<close>

text \<open>
  A sender \<open>S\<close> and a receiver \<open>R\<close> of the same implementation. \<open>W\<close> has the window updates sent so far: they may
  be lost, repeated and reordered, and so may the stream frames. \<open>ct\<close> tells which streams count for the
  connection. The sender keeps to \<^verbatim>\<open>SendWindowSize\<close>.
\<close>

inductive link_run :: "flowEnv \<Rightarrow> flowEnv \<Rightarrow> (StreamID \<Rightarrow> bool) \<Rightarrow> flowControlManager \<Rightarrow> flowControlManager \<Rightarrow> WindowUpdate set \<Rightarrow> bool"
    for eS eR ct where
  l_start: "link_run eS eR ct (NewFlowControlManager eS) (NewFlowControlManager eR) {}"
| l_open_sender: "link_run eS eR ct S R W \<Longrightarrow> sid \<noteq> 0 \<Longrightarrow> link_run eS eR ct (NewStream eS sid (ct sid) S) R W"
| l_open_receiver: "link_run eS eR ct S R W \<Longrightarrow> sid \<noteq> 0 \<Longrightarrow> link_run eS eR ct S (NewStream eR sid (ct sid) R) W"
| l_send: "link_run eS eR ct S R W \<Longrightarrow> sid \<noteq> 0 \<Longrightarrow> SendWindowSize eS sid S = Inr w \<Longrightarrow> n \<le> w \<Longrightarrow>
    AddBytesSent sid n S = (None, S') \<Longrightarrow> link_run eS eR ct S' R W"
| l_receive: "link_run eS eR ct S R W \<Longrightarrow> sid \<noteq> 0 \<Longrightarrow> GetBytesSent sid S = Inr b \<Longrightarrow> off \<le> b \<Longrightarrow>
    UpdateHighestReceived sid off R = (None, R') \<Longrightarrow> link_run eS eR ct S R' W"
| l_read: "link_run eS eR ct S R W \<Longrightarrow> sid \<noteq> 0 \<Longrightarrow> canRead sid n R \<Longrightarrow> AddBytesRead now sid n R = (None, R') \<Longrightarrow>
    link_run eS eR ct S R' W"
| l_updates: "link_run eS eR ct S R W \<Longrightarrow> GetWindowUpdates env now ids force R = (res, R') \<Longrightarrow> 0 \<notin> set ids \<Longrightarrow>
    link_run eS eR ct S R' (W \<union> set res)"
| l_window: "link_run eS eR ct S R W \<Longrightarrow> u \<in> W \<Longrightarrow> UpdateWindow (StreamID u) (Offset u) S = (r, S') \<Longrightarrow>
    link_run eS eR ct S' R W"

text \<open>The controller of a stream, or of the connection for 0; a stream not opened yet has a new one.\<close>

definition ctl :: "flowEnv \<Rightarrow> (StreamID \<Rightarrow> bool) \<Rightarrow> flowControlManager \<Rightarrow> StreamID \<Rightarrow> flowController" where
  "ctl env ct f sid =
     (if sid = 0 then connFlowController f
      else case Mapping.lookup (streamFlowController f) sid of
             None \<Rightarrow> newFlowController sid (ct sid) env | Some fc \<Rightarrow> fc)"

definition counted :: "(StreamID \<Rightarrow> bool) \<Rightarrow> StreamID set" where
  "counted ct = {sid. sid \<noteq> 0 \<and> ct sid}"

definition initialWindow :: "flowEnv \<Rightarrow> StreamID \<Rightarrow> ByteCount" where
  "initialWindow env sid =
     (if sid = 0 then GetReceiveConnectionFlowControlWindow (connectionParameters env)
      else GetReceiveStreamFlowControlWindow (connectionParameters env))"

definition ctl_ok :: "(StreamID \<Rightarrow> bool) \<Rightarrow> (StreamID \<Rightarrow> flowController) \<Rightarrow> bool" where
  "ctl_ok ct C \<longleftrightarrow> (\<forall>sid. streamID (C sid) = sid \<and> contributesToConnection (C sid) = (sid \<in> counted ct))"

definition link_inv :: "flowEnv \<Rightarrow> flowEnv \<Rightarrow> (StreamID \<Rightarrow> bool) \<Rightarrow> (StreamID \<Rightarrow> flowController) \<Rightarrow> (StreamID \<Rightarrow> flowController) \<Rightarrow>
    WindowUpdate set \<Rightarrow> bool" where
  "link_inv eS eR ct cS cR W \<longleftrightarrow> ctl_ok ct cS \<and> ctl_ok ct cR \<and>
     (\<forall>sid. highestReceived (cR sid) \<le> bytesSent (cS sid) \<and> bytesSent (cS sid) \<le> getSendWindow eS (cS sid) \<and>
       getSendWindow eS (cS sid) \<le> receiveWindow (cR sid) \<and> initialWindow eR sid \<le> receiveWindow (cR sid) \<and>
       (sendWindow (cS sid) = 0 \<or> initialWindow eR sid \<le> sendWindow (cS sid))) \<and>
     unat (bytesSent (cS 0)) = (\<Sum>sid \<in> counted ct. unat (bytesSent (cS sid))) \<and>
     unat (highestReceived (cR 0)) = (\<Sum>sid \<in> counted ct. unat (highestReceived (cR sid))) \<and>
     (\<forall>u \<in> W. initialWindow eR (StreamID u) \<le> Offset u \<and> Offset u \<le> receiveWindow (cR (StreamID u)))"

lemma ctl_NewStream:
  assumes "sid \<noteq> 0"
  shows "ctl env ct (NewStream env sid (ct sid) f) = ctl env ct f"
proof
  fix s
  show "ctl env ct (NewStream env sid (ct sid) f) s = ctl env ct f s"
    using assms by (cases "s = sid"; cases "Mapping.lookup (streamFlowController f) sid") (simp_all add: ctl_def NewStream_def lookup_update')
qed

lemma ctl_start: "ctl env ct (NewFlowControlManager env) sid = newFlowController sid (sid \<in> counted ct) env"
  by (simp add: ctl_def NewFlowControlManager_def counted_def)

lemma ctl_put: "sid \<noteq> 0 \<Longrightarrow> ctl env ct (putFlowController sid fc f) = (ctl env ct f)(sid := fc)"
  by (simp add: ctl_def fun_eq_iff lookup_update')

lemma ctl_conn: "ctl env ct (f\<lparr>connFlowController := c\<rparr>) = (ctl env ct f)(0 := c)"
  by (simp add: ctl_def fun_eq_iff)

lemma ctl_onBoth:
  assumes "onBoth g sid f = (None, f')" "sid \<noteq> 0" "ctl_ok ct (ctl env ct f)" "\<And>c. contributesToConnection (g c) = contributesToConnection c"
  shows "ctl env ct f' = (\<lambda>s. if s = sid \<or> s = 0 \<and> sid \<in> counted ct then g (ctl env ct f s) else ctl env ct f s)"
proof -
  obtain fc where fc: "Mapping.lookup (streamFlowController f) sid = Some fc"
    using assms(1) by (cases "Mapping.lookup (streamFlowController f) sid") (auto simp: onBoth_def getFlowController_def)
  have ctl: "ctl env ct f sid = fc" "ctl env ct f 0 = connFlowController f" using fc assms(2) by (simp_all add: ctl_def)
  have "contributesToConnection fc = (sid \<in> counted ct)" using assms(3) unfolding ctl_ok_def by (metis ctl(1))
  then have "f' = (if sid \<in> counted ct then (putFlowController sid (g fc) f)\<lparr>connFlowController := g (connFlowController f)\<rparr>
      else putFlowController sid (g fc) f)"
    using assms(1,4) fc by (simp add: onBoth_def getFlowController_def ContributesToConnection_def Let_def split: if_splits)
  then show ?thesis using assms(2) by (simp add: ctl_put ctl_conn ctl fun_eq_iff)
qed

lemma sum_add_at:
  fixes f g :: "'a \<Rightarrow> nat"
  assumes "finite A" "\<And>s. s \<noteq> x \<Longrightarrow> s \<in> A \<Longrightarrow> g s = f s" "x \<in> A \<Longrightarrow> g x = f x + d"
  shows "sum g A = sum f A + (if x \<in> A then d else 0)"
proof -
  have "sum g (A - {x}) = sum f (A - {x})" using assms(2) by (intro sum.cong) auto
  then show ?thesis using assms(1,3) by (cases "x \<in> A") (simp_all add: sum.remove)
qed

lemma finite_counted [simp]: "finite (counted ct)" by simp

lemma counted_not_0 [simp]: "0 \<notin> counted ct" by (simp add: counted_def)

text \<open>Sending within the window.\<close>

lemma send_within:
  assumes "n \<le> fc_SendWindowSize env c" "bytesSent c \<le> getSendWindow env c"
  shows "unat (bytesSent c + n) = unat (bytesSent c) + unat n" "bytesSent c + n \<le> getSendWindow env c"
proof -
  let ?w = "getSendWindow env c"
  have "\<not> ?w < bytesSent c" using assms(2) by (simp add: not_less)
  then have "n \<le> ?w - bytesSent c" using assms(1) by (simp add: fc_SendWindowSize_def Let_def)
  then have "unat n \<le> unat ?w - unat (bytesSent c)" using assms(2) by (simp add: word_le_nat_alt unat_sub)
  moreover have "unat (bytesSent c) \<le> unat ?w" using assms(2) by (simp add: word_le_nat_alt)
  moreover have "unat ?w < 2 ^ LENGTH(64)" by (rule unsigned_less)
  ultimately have "unat (bytesSent c) + unat n \<le> unat ?w" "unat (bytesSent c) + unat n < 2 ^ LENGTH(64)" by linarith+
  then show "unat (bytesSent c + n) = unat (bytesSent c) + unat n" "bytesSent c + n \<le> ?w"
    using unat_add_noov [of "bytesSent c" n] by (simp_all add: word_le_nat_alt)
qed

lemma link_inv_sender:
  assumes inv: "link_inv eS eR ct cS cR W" and "ctl_ok ct cS'"
    and step: "\<And>s. bytesSent (cS s) \<le> bytesSent (cS' s) \<and> bytesSent (cS' s) \<le> getSendWindow eS (cS' s) \<and>
      getSendWindow eS (cS' s) \<le> receiveWindow (cR s) \<and> (sendWindow (cS' s) = 0 \<or> initialWindow eR s \<le> sendWindow (cS' s))"
    and "unat (bytesSent (cS' 0)) = (\<Sum>sid \<in> counted ct. unat (bytesSent (cS' sid)))"
  shows "link_inv eS eR ct cS' cR W"
proof -
  have "highestReceived (cR s) \<le> bytesSent (cS' s)" for s
    using inv step [of s] unfolding link_inv_def by (meson order_trans)
  then show ?thesis using assms unfolding link_inv_def by simp
qed

lemma link_inv_send:
  assumes inv: "link_inv eS eR ct cS cR W" and sid: "sid \<noteq> 0" and n: "n \<le> fc_SendWindowSize eS (cS sid)"
    "sid \<in> counted ct \<Longrightarrow> n \<le> fc_SendWindowSize eS (cS 0)"
  shows "link_inv eS eR ct (\<lambda>s. if s = sid \<or> s = 0 \<and> sid \<in> counted ct then fc_AddBytesSent n (cS s) else cS s) cR W"
proof -
  let ?c = "\<lambda>s. if s = sid \<or> s = 0 \<and> sid \<in> counted ct then fc_AddBytesSent n (cS s) else cS s"
  have I: "bytesSent (cS s) \<le> getSendWindow eS (cS s)" "highestReceived (cR s) \<le> bytesSent (cS s)" for s
    using inv by (simp_all add: link_inv_def)
  have win: "getSendWindow eS (?c s) = getSendWindow eS (cS s)" "sendWindow (?c s) = sendWindow (cS s)" for s
    by (simp_all add: getSendWindow_def fc_AddBytesSent_def)
  have changed: "n \<le> fc_SendWindowSize eS (cS s)" if "s = sid \<or> s = 0 \<and> sid \<in> counted ct" for s using that n by auto
  have add: "unat (bytesSent (?c s)) = unat (bytesSent (cS s)) + unat n \<and> bytesSent (?c s) \<le> getSendWindow eS (cS s)"
    if "s = sid \<or> s = 0 \<and> sid \<in> counted ct" for s
    using send_within [OF changed [OF that] I(1)] that by (simp add: fc_AddBytesSent_def)
  have more: "bytesSent (cS s) \<le> bytesSent (?c s) \<and> bytesSent (?c s) \<le> getSendWindow eS (cS s)" for s
    using add [of s] I(1) [of s] by (cases "s = sid \<or> s = 0 \<and> sid \<in> counted ct") (auto simp: word_le_nat_alt)
  have "(\<Sum>s \<in> counted ct. unat (bytesSent (?c s))) = (\<Sum>s \<in> counted ct. unat (bytesSent (cS s))) + (if sid \<in> counted ct then unat n else 0)"
    by (rule sum_add_at) (use add [of sid] in \<open>auto simp: counted_def\<close>)
  moreover have "unat (bytesSent (?c 0)) = unat (bytesSent (cS 0)) + (if sid \<in> counted ct then unat n else 0)"
    using add [of 0] sid by simp
  moreover have "ctl_ok ct ?c" using inv by (auto simp: link_inv_def ctl_ok_def fc_AddBytesSent_def)
  ultimately show ?thesis using inv more
    by (intro link_inv_sender [OF inv]) (simp_all only: win link_inv_def)
qed

text \<open>A receiver that keeps what it has received and does not shrink its windows; a new offset.\<close>

lemma link_inv_grow:
  assumes inv: "link_inv eS eR ct cS cR W"
    and same: "\<And>s. streamID (cR' s) = streamID (cR s) \<and> contributesToConnection (cR' s) = contributesToConnection (cR s) \<and>
      highestReceived (cR' s) = highestReceived (cR s) \<and> receiveWindow (cR s) \<le> receiveWindow (cR' s)"
    and W': "\<And>u. u \<in> W' - W \<Longrightarrow> initialWindow eR (StreamID u) \<le> Offset u \<and> Offset u \<le> receiveWindow (cR' (StreamID u))"
  shows "link_inv eS eR ct cS cR' W'"
proof -
  have "initialWindow eR (StreamID u) \<le> Offset u \<and> Offset u \<le> receiveWindow (cR' (StreamID u))" if "u \<in> W'" for u
    using that W' inv same by (cases "u \<in> W") (auto simp: link_inv_def intro: order_trans)
  then show ?thesis using inv same unfolding link_inv_def ctl_ok_def by (auto intro: order_trans)
qed

lemma link_inv_window:
  assumes inv: "link_inv eS eR ct cS cR W" and u: "u \<in> W"
    and init: "\<And>s. sendWindow (cS s) = 0 \<Longrightarrow> getSendWindow eS (cS s) \<le> initialWindow eR s"
  shows "link_inv eS eR ct (cS(StreamID u := snd (UpdateSendWindow (Offset u) (cS (StreamID u))))) cR W"
proof -
  let ?s = "StreamID u" and ?c = "snd (UpdateSendWindow (Offset u) (cS (StreamID u)))"
  have W: "initialWindow eR ?s \<le> Offset u" "Offset u \<le> receiveWindow (cR ?s)" using inv u by (auto simp: link_inv_def)
  have I: "bytesSent (cS s) \<le> getSendWindow eS (cS s)" "getSendWindow eS (cS s) \<le> receiveWindow (cR s)" for s
    using inv by (simp_all add: link_inv_def)
  have low: "sendWindow ?c = sendWindow (cS ?s) \<or> sendWindow ?c = Offset u" by (simp add: UpdateSendWindow_def)
  have c: "bytesSent ?c = bytesSent (cS ?s)" "streamID ?c = streamID (cS ?s)" "contributesToConnection ?c = contributesToConnection (cS ?s)"
    by (simp_all add: UpdateSendWindow_def)
  have c_win: "getSendWindow eS (cS ?s) \<le> getSendWindow eS ?c \<and> getSendWindow eS ?c \<le> receiveWindow (cR ?s)"
  proof (cases "Offset u > sendWindow (cS ?s)")
    case True
    then have "getSendWindow eS ?c = Offset u" by (auto simp: UpdateSendWindow_def getSendWindow_def)
    moreover have "getSendWindow eS (cS ?s) \<le> Offset u"
      using init [of ?s] W(1) True by (cases "sendWindow (cS ?s) = 0") (auto simp: getSendWindow_def intro: order_trans)
    ultimately show ?thesis using W(2) by simp
  qed (use I in \<open>simp add: UpdateSendWindow_def\<close>)
  define cS' where "cS' = cS(?s := ?c)"
  have win: "getSendWindow eS (cS s) \<le> getSendWindow eS (cS' s) \<and> getSendWindow eS (cS' s) \<le> receiveWindow (cR s)" for s
    using c_win I(2) [of s] by (simp add: cS'_def)
  have sent: "bytesSent (cS' s) = bytesSent (cS s)" for s using c(1) by (simp add: cS'_def)
  have "sendWindow (cS' s) = 0 \<or> initialWindow eR s \<le> sendWindow (cS' s)" for s
    using inv low W(1) by (auto simp: link_inv_def cS'_def)
  moreover have "ctl_ok ct cS'" using inv c by (simp add: link_inv_def ctl_ok_def cS'_def)
  ultimately have "link_inv eS eR ct cS' cR W"
    using inv win I(1) by (intro link_inv_sender [OF inv]) (auto simp: sent link_inv_def intro: order_trans)
  then show ?thesis by (simp add: cS'_def)
qed

lemma link_inv_receive:
  assumes inv: "link_inv eS eR ct cS cR W" and sid: "sid \<noteq> 0" and off: "off \<le> bytesSent (cS sid)"
    and ok: "recv_ok (cR sid)" "recv_ok (cR 0)"
    and upd: "fc_UpdateHighestReceived off (cR sid) = ((inc, e), fc')"
  defines "conn \<equiv> IncrementHighestReceived inc (cR 0)"
  defines "cR' \<equiv> cR(sid := fc', 0 := if sid \<in> counted ct then conn else cR 0)"
  shows "\<not> CheckFlowControlViolation fc' \<and> (sid \<in> counted ct \<longrightarrow> \<not> CheckFlowControlViolation conn) \<and>
    link_inv eS eR ct cS cR' W"
proof -
  have I: "highestReceived (cR s) \<le> bytesSent (cS s)" "bytesSent (cS s) \<le> receiveWindow (cR s)" for s
    using inv unfolding link_inv_def by (auto intro: order_trans)
  have S: "unat (bytesSent (cS 0)) = (\<Sum>sid \<in> counted ct. unat (bytesSent (cS sid)))"
    "unat (highestReceived (cR 0)) = (\<Sum>sid \<in> counted ct. unat (highestReceived (cR sid)))" using inv by (simp_all add: link_inv_def)
  have fc': "highestReceived fc' \<le> bytesSent (cS sid)" "receiveWindow fc' = receiveWindow (cR sid)" "streamID fc' = streamID (cR sid)"
    "contributesToConnection fc' = contributesToConnection (cR sid)"
    using upd off I(1) [of sid] by (auto simp: fc_UpdateHighestReceived_def split: if_splits)
  then have v: "\<not> CheckFlowControlViolation fc'" using I(2) [of sid] by (auto simp: CheckFlowControlViolation_def not_less intro: order_trans)
  note U = fc_UpdateHighestReceived_cases [OF upd ok(1) v]
  have other: "cR' s = (if s = 0 then if sid \<in> counted ct then conn else cR 0 else if s = sid then fc' else cR s)" for s
    by (simp add: cR'_def)
  have sum: "(\<Sum>s \<in> counted ct. unat (highestReceived (cR' s))) = unat (highestReceived (cR 0)) + (if sid \<in> counted ct then unat inc else 0)"
    unfolding S(2) by (rule sum_add_at) (use U(2) sid in \<open>auto simp: other counted_def\<close>)
  have "unat (highestReceived (cR' s)) \<le> unat (bytesSent (cS s))" if "s \<noteq> 0" for s
    using that I(1) [of s] fc'(1) by (simp add: other word_le_nat_alt)
  then have le: "(\<Sum>s \<in> counted ct. unat (highestReceived (cR' s))) \<le> unat (bytesSent (cS 0))"
    unfolding S(1) by (intro sum_mono) (auto simp: counted_def)
  have conn: "unat (highestReceived conn) = unat (highestReceived (cR 0)) + unat inc"
    using U(3) recv_ok_bounds(1) [OF ok(2)] by (simp add: conn_def IncrementHighestReceived_def unat_add_noov)
  have h0: "unat (highestReceived (cR' 0)) = (\<Sum>s \<in> counted ct. unat (highestReceived (cR' s)))"
    using sum conn by (simp add: other)
  have rw: "receiveWindow (cR' s) = receiveWindow (cR s)" for s
    using fc'(2) by (simp add: other conn_def IncrementHighestReceived_def)
  have hr: "highestReceived (cR' s) \<le> bytesSent (cS s)" for s
    using fc'(1) I(1) [of s] le h0 by (cases "s = 0") (auto simp: other word_le_nat_alt)
  have "\<not> CheckFlowControlViolation conn" if "sid \<in> counted ct"
    using hr [of 0] I(2) [of 0] rw [of 0] that by (auto simp: CheckFlowControlViolation_def other not_less intro: order_trans)
  moreover have "ctl_ok ct cR'" using inv fc'(3,4) by (auto simp: link_inv_def ctl_ok_def other conn_def IncrementHighestReceived_def)
  ultimately show ?thesis using v inv hr h0 rw by (simp add: link_inv_def)
qed

definition windows_agree :: "flowEnv \<Rightarrow> flowEnv \<Rightarrow> bool" where
  "windows_agree eS eR \<longleftrightarrow> windows_ok eR \<and>
     GetSendStreamFlowControlWindow (connectionParameters eS) \<le> GetReceiveStreamFlowControlWindow (connectionParameters eR) \<and>
     GetSendConnectionFlowControlWindow (connectionParameters eS) \<le> GetReceiveConnectionFlowControlWindow (connectionParameters eR)"

lemma link_run_manager: "link_run eS eR ct S R W \<Longrightarrow> windows_ok eR \<Longrightarrow> manager_run R"
  by (induction rule: link_run.induct) (auto intro: manager_run.intros)

lemma ctl_recv_ok:
  assumes "manager_ok R" "windows_ok eR"
  shows "recv_ok (ctl eR ct R sid)"
  using manager_okD [OF assms(1)] new_recv_ok [OF assms(2)] by (auto simp: ctl_def split: option.splits)

lemma link_inv_start:
  assumes "windows_agree eS eR"
  shows "link_inv eS eR ct (ctl eS ct (NewFlowControlManager eS)) (ctl eR ct (NewFlowControlManager eR)) {}"
  using assms by (auto simp: link_inv_def ctl_ok_def ctl_start newFlowController_def Let_def getSendWindow_def initialWindow_def
    windows_agree_def)

lemma initial_send_window:
  assumes "windows_agree eS eR" "link_inv eS eR ct cS cR W" "sendWindow (cS s) = 0"
  shows "getSendWindow eS (cS s) \<le> initialWindow eR s"
proof -
  have "streamID (cS s) = s" using assms(2) by (simp add: link_inv_def ctl_ok_def)
  then show ?thesis using assms(1,3) by (simp add: getSendWindow_def initialWindow_def windows_agree_def)
qed

lemma received_ctl:
  assumes sid: "sid \<noteq> 0" "Mapping.lookup (streamFlowController R) sid = Some fc" "contributesToConnection fc = (sid \<in> counted ct)"
    and upd: "fc_UpdateHighestReceived off fc = ((inc, e), fc')" "contributesToConnection fc' = contributesToConnection fc"
    and v: "\<not> CheckFlowControlViolation fc'"
      "sid \<in> counted ct \<longrightarrow> \<not> CheckFlowControlViolation (IncrementHighestReceived inc (connFlowController R))"
  shows "\<exists>R'. UpdateHighestReceived sid off R = (None, R') \<and> ctl eR ct R' = (ctl eR ct R)(sid := fc',
    0 := if sid \<in> counted ct then IncrementHighestReceived inc (ctl eR ct R 0) else ctl eR ct R 0)"
proof -
  define G where "G = (if e \<noteq> None then (putFlowController sid fc' R)\<lparr>numOutofOrder := numOutofOrder (putFlowController sid fc' R) + 1\<rparr>
    else putFlowController sid fc' R)"
  have G: "connFlowController G = connFlowController R" "ctl eR ct G = (ctl eR ct R)(sid := fc')"
    using sid(1) ctl_put [OF sid(1), of eR ct fc' R] by (auto simp: G_def ctl_def fun_eq_iff)
  have "UpdateHighestReceived sid off R = checkViolations sid off inc fc' G"
    using sid(2) upd by (simp add: UpdateHighestReceived_def getFlowController_def Let_def G_def)
  also have "\<dots> = (None, if sid \<in> counted ct then G\<lparr>connFlowController := IncrementHighestReceived inc (connFlowController R)\<rparr> else G)"
    using v upd(2) sid(3) by (simp add: checkViolations_def ContributesToConnection_def G(1) Let_def)
  finally show ?thesis using G(2) sid(1) by (auto simp: ctl_conn fun_eq_iff) (simp_all add: ctl_def)
qed

text \<open>A new offset of a stream frame that the sender has sent is accepted, whatever came before.\<close>

lemma receive_accepted:
  assumes inv: "link_inv eS eR ct (ctl eS ct S) (ctl eR ct R) W" and ok: "manager_ok R" "windows_ok eR"
    and sid: "sid \<noteq> 0" "sid \<in> Mapping.keys (streamFlowController R)" and off: "off \<le> bytesSent (ctl eS ct S sid)"
  shows "\<exists>R'. UpdateHighestReceived sid off R = (None, R') \<and> link_inv eS eR ct (ctl eS ct S) (ctl eR ct R') W"
proof -
  obtain fc where fc: "Mapping.lookup (streamFlowController R) sid = Some fc" using sid(2) by (auto dest: in_keysD)
  then have c: "ctl eR ct R sid = fc" "ctl eR ct R 0 = connFlowController R" using sid(1) by (simp_all add: ctl_def)
  have flag: "contributesToConnection fc = (sid \<in> counted ct)" using inv c(1) unfolding link_inv_def ctl_ok_def by metis
  obtain inc e fc' where upd: "fc_UpdateHighestReceived off fc = ((inc, e), fc')" by (metis surj_pair)
  note r = ctl_recv_ok [OF ok, of ct]
  note L = link_inv_receive [OF inv sid(1) off r r upd [folded c(1)]]
  have "contributesToConnection fc' = contributesToConnection fc"
    using upd by (auto simp: fc_UpdateHighestReceived_def split: if_splits)
  from received_ctl [OF sid(1) fc flag upd this, of eR] L show ?thesis unfolding c(2) by metis
qed

lemma all_grown_ctl:
  assumes "all_grown f f'"
  shows "ctl env ct f' s = ctl env ct f s \<or> grown (ctl env ct f s) (ctl env ct f' s)"
proof (cases "s = 0")
  case False
  have "rel_option grown (Mapping.lookup (streamFlowController f) s) (Mapping.lookup (streamFlowController f') s)"
    using assms by (simp add: all_grown_def)
  then show ?thesis using False
    by (cases "Mapping.lookup (streamFlowController f) s"; cases "Mapping.lookup (streamFlowController f') s") (auto simp: ctl_def)
qed (use assms in \<open>simp add: ctl_def all_grown_def\<close>)

lemma link_run_inv:
  assumes "link_run eS eR ct S R W" "windows_agree eS eR"
  shows "link_inv eS eR ct (ctl eS ct S) (ctl eR ct R) W"
  using assms(1)
proof (induction rule: link_run.induct)
  case l_start
  then show ?case by (rule link_inv_start [OF assms(2)])
next
  case (l_send S R W sid w n S')
  have ok: "ctl_ok ct (ctl eS ct S)" using l_send.IH by (simp add: link_inv_def)
  have "ctl eS ct S' = (\<lambda>s. if s = sid \<or> s = 0 \<and> sid \<in> counted ct then fc_AddBytesSent n (ctl eS ct S s) else ctl eS ct S s)"
    using ctl_onBoth [OF l_send(5) [unfolded AddBytesSent_def] l_send(2) ok] by (simp add: fc_AddBytesSent_def)
  moreover obtain fc where fc: "Mapping.lookup (streamFlowController S) sid = Some fc"
    "w = (if contributesToConnection fc then min (fc_SendWindowSize eS fc) (fc_SendWindowSize eS (connFlowController S)) else fc_SendWindowSize eS fc)"
    using l_send(3) by (auto simp: Let_def SendWindowSize_def getFlowController_def ContributesToConnection_def bind_r_eq_Inr split: option.splits)
  moreover have c: "ctl eS ct S sid = fc" "ctl eS ct S 0 = connFlowController S" using fc(1) l_send(2) by (simp_all add: ctl_def)
  moreover have "contributesToConnection fc = (sid \<in> counted ct)" using ok c(1) unfolding ctl_ok_def by metis
  ultimately show ?case using link_inv_send [OF l_send.IH l_send(2), of n] l_send(4) by (simp split: if_splits)
next
  case (l_receive S R W sid b off R')
  have "manager_ok R" using link_run_manager [OF l_receive(1)] assms(2) manager_run_ok by (simp add: windows_agree_def)
  moreover have "sid \<in> Mapping.keys (streamFlowController R)"
    using l_receive(5) by (auto simp: UpdateHighestReceived_def getFlowController_def keys_dom_lookup split: option.splits)
  moreover have "off \<le> bytesSent (ctl eS ct S sid)"
    using l_receive(2,3,4) by (auto simp: GetBytesSent_def getFlowController_def fc_GetBytesSent_def bind_r_eq_Inr ctl_def split: option.splits)
  ultimately show ?case using receive_accepted [OF l_receive.IH _ _ l_receive(2)] l_receive(5) assms(2)
    by (fastforce simp: windows_agree_def)
next
  case (l_read S R W sid n now R')
  have ok: "ctl_ok ct (ctl eR ct R)" using l_read.IH by (simp add: link_inv_def)
  have "ctl eR ct R' = (\<lambda>s. if s = sid \<or> s = 0 \<and> sid \<in> counted ct then fc_AddBytesRead now n (ctl eR ct R s) else ctl eR ct R s)"
    using ctl_onBoth [OF l_read(4) [unfolded AddBytesRead_def] l_read(2) ok] by simp
  then show ?case by (intro link_inv_grow [OF l_read.IH]) auto
next
  case (l_updates S R W env now ids force res R')
  have "manager_ok R" using link_run_manager [OF l_updates(1)] assms(2) manager_run_ok by (simp add: windows_agree_def)
  then have g: "all_grown R R'" "\<And>u. u \<in> set res \<Longrightarrow> offered R u R'"
    using GetWindowUpdates_grown [OF _ l_updates(2,3)] by (auto simp: manager_ok_def)
  have init: "initialWindow eR s \<le> receiveWindow (ctl eR ct R s)" for s using l_updates.IH by (simp add: link_inv_def)
  show ?case
  proof (rule link_inv_grow [OF l_updates.IH])
    show "streamID (ctl eR ct R' s) = streamID (ctl eR ct R s) \<and>
        contributesToConnection (ctl eR ct R' s) = contributesToConnection (ctl eR ct R s) \<and>
        highestReceived (ctl eR ct R' s) = highestReceived (ctl eR ct R s) \<and> receiveWindow (ctl eR ct R s) \<le> receiveWindow (ctl eR ct R' s)" for s
      using all_grown_ctl [OF g(1), of eR ct s] by (auto simp: grown_def)
    fix u assume "u \<in> W \<union> set res - W"
    then have "offered R u R'" using g(2) by blast
    then have "receiveWindow (ctl eR ct R (StreamID u)) \<le> Offset u" "Offset u \<le> receiveWindow (ctl eR ct R' (StreamID u))"
      by (auto simp: offered_def ctl_def split: if_splits)
    then show "initialWindow eR (StreamID u) \<le> Offset u \<and> Offset u \<le> receiveWindow (ctl eR ct R' (StreamID u))"
      using init order_trans by blast
  qed
next
  case (l_window S R W u r S')
  have L: "link_inv eS eR ct ((ctl eS ct S)(StreamID u := snd (UpdateSendWindow (Offset u) (ctl eS ct S (StreamID u))))) (ctl eR ct R) W"
    by (rule link_inv_window [OF l_window.IH l_window(2) initial_send_window [OF assms(2) l_window.IH]])
  consider "S' = S" | "StreamID u = 0" "S' = S\<lparr>connFlowController := snd (UpdateSendWindow (Offset u) (connFlowController S))\<rparr>"
    | fc where "StreamID u \<noteq> 0" "Mapping.lookup (streamFlowController S) (StreamID u) = Some fc"
      "S' = putFlowController (StreamID u) (snd (UpdateSendWindow (Offset u) fc)) S"
    using l_window(3) by (auto simp: UpdateWindow_def getFlowController_def Let_def split: if_splits option.splits prod.splits)
  then show ?case
  proof cases
    case 2
    moreover have "ctl eS ct S 0 = connFlowController S" by (simp add: ctl_def)
    ultimately show ?thesis using L by (simp only: ctl_conn)
  next
    case (3 fc)
    moreover from 3 have "ctl eS ct S (StreamID u) = fc" by (simp add: ctl_def)
    ultimately show ?thesis using L ctl_put [OF 3(1)] by (simp only:)
  qed (use l_window.IH in simp)
qed (simp_all add: ctl_NewStream)

lemma onBoth_window:
  assumes "onBoth g sid f = (e, f')" "\<And>c. receiveWindow (g c) = receiveWindow c"
  shows "receiveWindow (ctl env ct f' s) = receiveWindow (ctl env ct f s)"
  using assms by (cases "s = sid"; cases "Mapping.lookup (streamFlowController f) sid")
    (auto simp: onBoth_def getFlowController_def Let_def ctl_def lookup_update' split: if_splits option.splits)

lemma received_window:
  assumes "UpdateHighestReceived sid off f = (e, f')"
  shows "receiveWindow (ctl env ct f' s) = receiveWindow (ctl env ct f s)"
proof (cases "Mapping.lookup (streamFlowController f) sid")
  case None
  then show ?thesis using assms by (simp add: UpdateHighestReceived_def getFlowController_def)
next
  case (Some fc)
  obtain inc er fc' where upd: "fc_UpdateHighestReceived off fc = ((inc, er), fc')" by (metis surj_pair)
  then have "receiveWindow fc' = receiveWindow fc" by (auto simp: fc_UpdateHighestReceived_def split: if_splits)
  moreover have "streamFlowController f' = Mapping.update sid fc' (streamFlowController f) \<and>
      receiveWindow (connFlowController f') = receiveWindow (connFlowController f)"
    using assms Some upd
    by (auto simp: UpdateHighestReceived_def getFlowController_def checkViolations_def IncrementHighestReceived_def Let_def split: if_splits)
  ultimately show ?thesis using Some by (cases "s = sid") (auto simp: ctl_def lookup_update')
qed

lemma link_run_known:
  assumes "link_run eS eR ct S R W" "windows_ok eR"
  shows "receiveWindow (ctl eR ct R s) = initialWindow eR s \<or> \<lparr>StreamID = s, Offset = receiveWindow (ctl eR ct R s)\<rparr> \<in> W"
  using assms(1)
proof (induction arbitrary: s rule: link_run.induct)
  case l_start
  then show ?case by (simp add: ctl_start newFlowController_def Let_def initialWindow_def)
next
  case (l_receive S R W sid b off R')
  then show ?case using received_window [OF l_receive(5), of eR ct s] l_receive.IH by simp
next
  case (l_read S R W sid n now R')
  then show ?case using onBoth_window [OF l_read(4) [unfolded AddBytesRead_def], of eR ct s] l_read.IH by simp
next
  case (l_updates S R W env now ids force res R')
  have ok: "all_ok R" using link_run_manager [OF l_updates(1) assms(2)] manager_run_ok by (simp add: manager_ok_def)
  note T = GetWindowUpdates_told [OF ok l_updates(2,3)]
  have "all_grown R R'" using GetWindowUpdates_grown [OF ok l_updates(2,3)] by blast
  then have "rel_option grown (Mapping.lookup (streamFlowController R) s) (Mapping.lookup (streamFlowController R') s)"
    by (simp add: all_grown_def)
  then have "receiveWindow (ctl eR ct R' s) = receiveWindow (ctl eR ct R s) \<or> \<lparr>StreamID = s, Offset = receiveWindow (ctl eR ct R' s)\<rparr> \<in> set res"
    using T(1,2) by (cases "Mapping.lookup (streamFlowController R) s"; cases "Mapping.lookup (streamFlowController R') s")
      (auto simp: ctl_def told_def)
  then show ?case using l_updates.IH [of s] by auto
qed (simp_all add: ctl_NewStream)

text \<open>
  C2. between two endpoints there are no flow control violations. In every run of a sender that keeps to its send
  windows and a receiver whose windows the sender knows from the hello messages, with window updates and stream
  frames lost, repeated and reordered, every offset the sender has reached is accepted by the receiver, on the
  stream and on the connection.
\<close>

theorem no_false_violation:
  assumes "link_run eS eR ct S R W" "windows_agree eS eR"
    and "sid \<noteq> 0" "sid \<in> Mapping.keys (streamFlowController R)" "GetBytesSent sid S = Inr b" "off \<le> b"
  shows "\<exists>R'. UpdateHighestReceived sid off R = (None, R') \<and> link_run eS eR ct S R' W"
proof -
  have ok: "windows_ok eR" using assms(2) by (simp add: windows_agree_def)
  have "manager_ok R" using manager_run_ok [OF link_run_manager [OF assms(1) ok]] .
  moreover have "off \<le> bytesSent (ctl eS ct S sid)"
    using assms(3,5,6) by (auto simp: GetBytesSent_def getFlowController_def fc_GetBytesSent_def bind_r_eq_Inr ctl_def split: option.splits)
  ultimately show ?thesis using receive_accepted [OF link_run_inv [OF assms(1,2)] _ ok assms(3,4)]
    l_receive [OF assms(1,3,5,6)] by blast
qed

text \<open>
  C13. flow control does not deadlock. When the receiver has looked for window updates, all of them have been
  delivered, and the application has read everything sent on a stream and on the connection, then the sender has a
  positive window on that stream.
\<close>

theorem sender_unblocked:
  assumes "link_run eS eR ct S R W" "windows_agree eS eR"
    and "GetWindowUpdates env now ids force R = (res, R')" "0 \<notin> set ids" "sid \<in> set ids"
    and "sid \<in> Mapping.keys (streamFlowController R)"
    and "link_run eS eR ct S' R' (W \<union> set res)" "sid \<in> Mapping.keys (streamFlowController S')"
    and "\<forall>u \<in> W \<union> set res. Offset u \<le> SendWindowOffset eS (ctl eS ct S' (StreamID u))"
    and "GetSendStreamFlowControlWindow (connectionParameters eS) = GetReceiveStreamFlowControlWindow (connectionParameters eR)"
    and "GetSendConnectionFlowControlWindow (connectionParameters eS) = GetReceiveConnectionFlowControlWindow (connectionParameters eR)"
    and "\<forall>s \<in> {0, sid}. bytesRead (ctl eR ct R' s) = bytesSent (ctl eS ct S' s)"
  shows "\<exists>w. SendWindowSize eS sid S' = Inr w \<and> 0 < w"
proof -
  have wok: "windows_ok eR" using assms(2) by (simp add: windows_agree_def)
  have ok: "all_ok R" using manager_run_ok [OF link_run_manager [OF assms(1) wok]] by (simp add: manager_ok_def)
  note T = GetWindowUpdates_told [OF ok assms(3,4)]
  have sid: "sid \<noteq> 0" using assms(4,5) by auto
  have "all_grown R R'" using GetWindowUpdates_grown [OF ok assms(3,4)] by blast
  then obtain fcR where fcR: "Mapping.lookup (streamFlowController R') sid = Some fcR"
    using assms(6) by (metis all_grown_lookup in_keysD)
  have room: "bytesRead (ctl eR ct R' s) < receiveWindow (ctl eR ct R' s)" if "s \<in> {0, sid}" for s
    using that T(3) T(4) [OF assms(5) fcR] fcR sid by (auto simp: ctl_def)
  have inv: "streamID (ctl eS ct S' s) = s" "sendWindow (ctl eS ct S' s) = 0 \<or> initialWindow eR s \<le> sendWindow (ctl eS ct S' s)" for s
    using link_run_inv [OF assms(7,2)] unfolding link_inv_def ctl_ok_def by blast+
  have "initialWindow eR s \<le> getSendWindow eS (ctl eS ct S' s)" for s
    using inv [of s] assms(10,11) by (auto simp: getSendWindow_def initialWindow_def)
  moreover have "Offset u \<le> getSendWindow eS (ctl eS ct S' (StreamID u))" if "u \<in> W \<union> set res" for u
    using that assms(9) by (simp add: SendWindowOffset_def)
  ultimately have known: "receiveWindow (ctl eR ct R' s) \<le> getSendWindow eS (ctl eS ct S' s)" for s
    using link_run_known [OF assms(7) wok, of s] by (metis WindowUpdate.select_convs)
  have pos: "0 < fc_SendWindowSize eS (ctl eS ct S' s)" if "s \<in> {0, sid}" for s
  proof -
    have "bytesSent (ctl eS ct S' s) < getSendWindow eS (ctl eS ct S' s)"
      using room [OF that] known [of s] assms(12) that by auto
    then show ?thesis by (auto simp: fc_SendWindowSize_def Let_def word_neq_0_conv [symmetric])
  qed
  obtain fc where "Mapping.lookup (streamFlowController S') sid = Some fc" using assms(8) by (auto dest: in_keysD)
  then show ?thesis using pos [of 0] pos [of sid] sid
    by (auto simp: SendWindowSize_def getFlowController_def ctl_def Let_def min_def)
qed

text \<open>
  An example: the sender fills the window of stream 5, the receiver takes and reads all of it and announces
  windows for the stream and the connection, and both updates arrive.
\<close>

definition blockedSender :: flowControlManager where
  "blockedSender = snd (AddBytesSent 5 32768 exampleManager)"

definition fullReceiver :: flowControlManager where
  "fullReceiver = snd (UpdateHighestReceived 5 32768 exampleManager)"

definition emptyReceiver :: flowControlManager where
  "emptyReceiver = snd (AddBytesRead 1 5 32768 fullReceiver)"

definition updatedReceiver :: flowControlManager where
  "updatedReceiver = snd (GetWindowUpdates exampleEnv 2000000 [5] False emptyReceiver)"

definition exampleUpdates :: "WindowUpdate list" where
  "exampleUpdates = [\<lparr>StreamID = 5, Offset = 65536\<rparr>, \<lparr>StreamID = 0, Offset = 81920\<rparr>]"

definition updatedSender :: flowControlManager where
  "updatedSender = snd (UpdateWindow 0 81920 (snd (UpdateWindow 5 65536 blockedSender)))"

abbreviation exampleRun :: "flowControlManager \<Rightarrow> flowControlManager \<Rightarrow> WindowUpdate set \<Rightarrow> bool" where
  "exampleRun \<equiv> link_run exampleEnv exampleEnv (\<lambda>_. True)"

lemma exampleRun_open: "exampleRun exampleManager exampleManager {}"
  using l_open_receiver [OF l_open_sender [OF l_start], of 5 5 exampleEnv exampleEnv "\<lambda>_. True"]
  by (simp add: exampleManager_def)

lemma exampleRun_blocked: "exampleRun blockedSender exampleManager {}"
proof (rule l_send [OF exampleRun_open])
  show "SendWindowSize exampleEnv 5 exampleManager = Inr 32768" by code_simp
  have "fst (AddBytesSent 5 32768 exampleManager) = None" by code_simp
  then show "AddBytesSent 5 32768 exampleManager = (None, blockedSender)" by (simp add: prod_eq_iff blockedSender_def)
qed simp_all

lemma blockedSender_sent: "GetBytesSent 5 blockedSender = Inr 32768"
  by code_simp

lemma exampleRun_full: "exampleRun blockedSender fullReceiver {}"
proof (rule l_receive [OF exampleRun_blocked _ blockedSender_sent])
  have "fst (UpdateHighestReceived 5 32768 exampleManager) = None" by code_simp
  then show "UpdateHighestReceived 5 32768 exampleManager = (None, fullReceiver)" by (simp add: prod_eq_iff fullReceiver_def)
qed simp_all

lemma exampleRun_empty: "exampleRun blockedSender emptyReceiver {}"
proof (rule l_read [OF exampleRun_full])
  have "map_option (\<lambda>fc. (highestReceived fc, bytesRead fc)) (Mapping.lookup (streamFlowController fullReceiver) 5) = Some (32768, 0)"
    "bytesRead (connFlowController fullReceiver) = 0" by code_simp+
  then show "canRead 5 32768 fullReceiver" by (auto simp: canRead_def)
  have "fst (AddBytesRead 1 5 32768 fullReceiver) = None" by code_simp
  then show "AddBytesRead 1 5 32768 fullReceiver = (None, emptyReceiver)" by (simp add: prod_eq_iff emptyReceiver_def)
qed simp

lemma example_updates: "GetWindowUpdates exampleEnv 2000000 [5] False emptyReceiver = (exampleUpdates, updatedReceiver)"
proof -
  have "fst (GetWindowUpdates exampleEnv 2000000 [5] False emptyReceiver) = exampleUpdates" by code_simp
  then show ?thesis by (simp add: prod_eq_iff updatedReceiver_def)
qed

lemma exampleRun_updated: "exampleRun updatedSender updatedReceiver ({} \<union> set exampleUpdates)"
proof -
  have "exampleRun blockedSender updatedReceiver ({} \<union> set exampleUpdates)"
    by (rule l_updates [OF exampleRun_empty example_updates]) simp
  then have "exampleRun (snd (UpdateWindow 5 65536 blockedSender)) updatedReceiver ({} \<union> set exampleUpdates)"
    by (rule l_window [where u = "\<lparr>StreamID = 5, Offset = 65536\<rparr>"]) (auto simp: exampleUpdates_def prod_eq_iff)
  then show ?thesis unfolding updatedSender_def
    by (rule l_window [where u = "\<lparr>StreamID = 0, Offset = 81920\<rparr>"]) (auto simp: exampleUpdates_def prod_eq_iff)
qed

lemma exampleEnv_agree: "windows_agree exampleEnv exampleEnv"
  by (simp add: windows_agree_def exampleEnv_ok) (simp add: example_defs)

theorem no_false_violation_witness:
  "\<exists>R'. UpdateHighestReceived 5 32768 exampleManager = (None, R') \<and>
    exampleRun blockedSender R' {}"
proof (rule no_false_violation [OF exampleRun_blocked exampleEnv_agree _ _ blockedSender_sent])
  show "5 \<in> Mapping.keys (streamFlowController exampleManager)" by code_simp
qed simp_all

theorem sender_unblocked_witness:
  "SendWindowSize exampleEnv 5 blockedSender = Inr 0 \<and> (\<exists>w. SendWindowSize exampleEnv 5 updatedSender = Inr w \<and> 0 < w)"
proof
  show "SendWindowSize exampleEnv 5 blockedSender = Inr 0" by code_simp
  show "\<exists>w. SendWindowSize exampleEnv 5 updatedSender = Inr w \<and> 0 < w"
  proof (rule sender_unblocked [OF exampleRun_empty exampleEnv_agree example_updates _ _ _ exampleRun_updated])
    show "5 \<in> Mapping.keys (streamFlowController emptyReceiver)" by code_simp
    show "5 \<in> Mapping.keys (streamFlowController updatedSender)" by code_simp
    have "Offset u \<le> SendWindowOffset exampleEnv (ctl exampleEnv (\<lambda>_. True) updatedSender (StreamID u))"
      if "u = \<lparr>StreamID = 5, Offset = 65536\<rparr> \<or> u = \<lparr>StreamID = 0, Offset = 81920\<rparr>" for u
      using that by (elim disjE; simp only:) code_simp+
    then show "\<forall>u \<in> {} \<union> set exampleUpdates. Offset u \<le> SendWindowOffset exampleEnv (ctl exampleEnv (\<lambda>_. True) updatedSender (StreamID u))"
      by (simp add: exampleUpdates_def)
    have "bytesRead (ctl exampleEnv (\<lambda>_. True) updatedReceiver 5) = bytesSent (ctl exampleEnv (\<lambda>_. True) updatedSender 5)"
      by code_simp
    moreover have "bytesRead (ctl exampleEnv (\<lambda>_. True) updatedReceiver 0) = bytesSent (ctl exampleEnv (\<lambda>_. True) updatedSender 0)"
      by code_simp
    ultimately show "\<forall>s \<in> {0, 5}. bytesRead (ctl exampleEnv (\<lambda>_. True) updatedReceiver s) =
      bytesSent (ctl exampleEnv (\<lambda>_. True) updatedSender s)" by simp
  qed (simp_all add: example_defs)
qed

end
