(* ===== verification/RttStats.thy ===== *)
theory RttStats
  imports GoFloat
begin

text \<open>
  The statistics a path keeps about its round trips: \<^verbatim>\<open>congestion/rtt_stats.go\<close> and the bandwidth estimate of
  \<^verbatim>\<open>congestion/bdw_stats.go\<close>. The smoothing is written in \<^verbatim>\<open>float32\<close>; below two seconds it is shown to be the
  exact integer average, and the estimates to stay within the samples.
\<close>

section \<open>Round-trip times\<close>

definition Microsecond :: Duration where "Microsecond = 1000"
definition InfDuration :: Duration where "InfDuration = 2 ^ 63 - 1"

definition AbsDuration :: "Duration \<Rightarrow> Duration" where
  "AbsDuration d = (if d \<ge> 0 then d else - d)"

definition initialRTTus_const :: int where "initialRTTus_const = 100 * 1000"
definition rttAlpha :: rat where "rttAlpha = 1 / 8"
definition oneMinusAlpha :: rat where "oneMinusAlpha = 1 - rttAlpha"
definition rttBeta :: rat where "rttBeta = 1 / 4"
definition oneMinusBeta :: rat where "oneMinusBeta = 1 - rttBeta"
definition halfWindow :: rat where "halfWindow = 1 / 2"
definition quarterWindow :: rat where "quarterWindow = 1 / 4"

record rttSample =
  rtt :: Duration
  time :: Time

record RTTStats =
  initialRTTus :: int
  recentMinRTTwindow :: Duration
  minRTT :: Duration
  latestRTT :: Duration
  smoothedRTT :: Duration
  meanDeviation :: Duration
  gradientRTT :: Duration
  deltaRTT :: Duration
  deltaMinRTT :: Duration
  recentcwndMinRTT :: Duration
  lastcwndMinRTT :: Duration
  timefornumMinRTTsamplesRemaining :: Time
  timeforrecentcwndMinRTT :: Time
  timeforlastcwndMinRTT :: Time
  numMinRTTsamplesRemaining :: PacketNumber
  newMinRTT :: rttSample
  recentMinRTT :: rttSample
  halfWindowRTT :: rttSample
  quarterWindowRTT :: rttSample

definition zeroSample :: rttSample where "zeroSample = \<lparr>rtt = 0, time = zeroTime\<rparr>"

definition NewRTTStatsWithSmoothedRTT :: "Duration \<Rightarrow> RTTStats" where
  "NewRTTStatsWithSmoothedRTT s = \<lparr>initialRTTus = 0, recentMinRTTwindow = 0, minRTT = 0, latestRTT = 0,
     smoothedRTT = s, meanDeviation = 0, gradientRTT = 0, deltaRTT = 0, deltaMinRTT = 0, recentcwndMinRTT = 0,
     lastcwndMinRTT = 0, timefornumMinRTTsamplesRemaining = zeroTime, timeforrecentcwndMinRTT = zeroTime,
     timeforlastcwndMinRTT = zeroTime, numMinRTTsamplesRemaining = 0, newMinRTT = zeroSample,
     recentMinRTT = zeroSample, halfWindowRTT = zeroSample, quarterWindowRTT = zeroSample\<rparr>"

definition NewRTTStats :: RTTStats where
  "NewRTTStats = (NewRTTStatsWithSmoothedRTT 0)\<lparr>initialRTTus := initialRTTus_const, recentMinRTTwindow := InfDuration\<rparr>"

definition RecentMinRTT :: "RTTStats \<Rightarrow> Duration" where "RecentMinRTT r = rtt (recentMinRTT r)"
definition GetQuarterWindowRTT :: "RTTStats \<Rightarrow> Duration" where "GetQuarterWindowRTT r = rtt (quarterWindowRTT r)"
definition GetHalfWindowRTT :: "RTTStats \<Rightarrow> Duration" where "GetHalfWindowRTT r = rtt (halfWindowRTT r)"

definition SetRecentMinRTTwindow :: "Duration \<Rightarrow> RTTStats \<Rightarrow> RTTStats" where
  "SetRecentMinRTTwindow w r = r\<lparr>recentMinRTTwindow := w\<rparr>"

definition SettimefornumMinRTTsamplesRemaining :: "Time \<Rightarrow> RTTStats \<Rightarrow> RTTStats" where
  "SettimefornumMinRTTsamplesRemaining now r = r\<lparr>timefornumMinRTTsamplesRemaining := now\<rparr>"

definition SetnumMinRTTsamplesRemaining :: "PacketNumber \<Rightarrow> RTTStats \<Rightarrow> RTTStats" where
  "SetnumMinRTTsamplesRemaining numSamples r = r\<lparr>numMinRTTsamplesRemaining := numSamples\<rparr>"

text \<open>The three windows of \<^verbatim>\<open>updateRecentMinRTT\<close>: first the new sample is entered, then old ones expire.\<close>

definition enterSample :: "Duration \<Rightarrow> Time \<Rightarrow> RTTStats \<Rightarrow> RTTStats" where
  "enterSample sample now r =
     (let new = \<lparr>rtt = sample, time = now\<rparr> in
      if rtt (recentMinRTT r) = 0 \<or> sample \<le> rtt (recentMinRTT r)
      then r\<lparr>recentMinRTT := new, halfWindowRTT := new, quarterWindowRTT := new\<rparr>
      else if sample \<le> rtt (halfWindowRTT r) then r\<lparr>halfWindowRTT := new, quarterWindowRTT := new\<rparr>
      else if sample \<le> rtt (quarterWindowRTT r) then r\<lparr>quarterWindowRTT := new\<rparr>
      else r)"

text \<open>A part of the window, \<^verbatim>\<open>time.Duration(float32(window/time.Microsecond)*part) * time.Microsecond\<close>.\<close>

definition windowPart :: "rat \<Rightarrow> RTTStats \<Rightarrow> Duration" where
  "windowPart part r = truncRat (float32 (float32 (of_int (recentMinRTTwindow r sdiv Microsecond)) * part)) * Microsecond"

definition expireSamples :: "Duration \<Rightarrow> Time \<Rightarrow> RTTStats \<Rightarrow> RTTStats" where
  "expireSamples sample now r =
     (let new = \<lparr>rtt = sample, time = now\<rparr> in
      if time (recentMinRTT r) < now - recentMinRTTwindow r
      then r\<lparr>recentMinRTT := halfWindowRTT r, halfWindowRTT := quarterWindowRTT r, quarterWindowRTT := new\<rparr>
      else if time (halfWindowRTT r) < now - windowPart halfWindow r
      then r\<lparr>halfWindowRTT := quarterWindowRTT r, quarterWindowRTT := new\<rparr>
      else if time (quarterWindowRTT r) < now - windowPart quarterWindow r
      then r\<lparr>quarterWindowRTT := new\<rparr>
      else r)"

definition updateRecentMinRTT :: "Duration \<Rightarrow> Time \<Rightarrow> RTTStats \<Rightarrow> RTTStats" where
  "updateRecentMinRTT sample now r = expireSamples sample now (enterSample sample now r)"

text \<open>
  The weighted sums. The first factor of a product is a constant and the second a duration in microseconds;
  every operation rounds to \<^verbatim>\<open>float32\<close>.
\<close>

definition weighted :: "rat \<Rightarrow> Duration \<Rightarrow> rat \<Rightarrow> Duration \<Rightarrow> Duration" where
  "weighted a x b y =
     truncRat (float32 (float32 (a * float32 (of_int (x sdiv Microsecond))) +
       float32 (b * float32 (of_int (y sdiv Microsecond))))) * Microsecond"

definition UpdateRTT :: "Duration \<Rightarrow> Duration \<Rightarrow> Time \<Rightarrow> RTTStats \<Rightarrow> RTTStats" where
  "UpdateRTT sendDelta ackDelay now r =
     (if sendDelta = InfDuration \<or> sendDelta \<le> 0 then r
      else
        let r = (if minRTT r = 0 \<or> minRTT r > sendDelta then r\<lparr>minRTT := sendDelta\<rparr> else r);
            r = r\<lparr>deltaMinRTT := RecentMinRTT r\<rparr>;
            r = updateRecentMinRTT sendDelta now r;
            r = r\<lparr>deltaMinRTT := RecentMinRTT r - deltaMinRTT r\<rparr>;
            sample = (if sendDelta > ackDelay then sendDelta - ackDelay else sendDelta);
            r = r\<lparr>latestRTT := sample\<rparr>
        in if smoothedRTT r = 0 then r\<lparr>smoothedRTT := sample, meanDeviation := sample sdiv 2\<rparr>
           else
             let r = r\<lparr>meanDeviation := weighted oneMinusBeta (meanDeviation r) rttBeta (AbsDuration (smoothedRTT r - sample))\<rparr>;
                 r = r\<lparr>deltaRTT := smoothedRTT r\<rparr>;
                 r = r\<lparr>smoothedRTT := weighted oneMinusAlpha (smoothedRTT r) rttAlpha sample\<rparr>
             in r\<lparr>deltaRTT := smoothedRTT r - deltaRTT r\<rparr>)"

definition SampleNewRecentMinRTT :: "PacketNumber \<Rightarrow> RTTStats \<Rightarrow> RTTStats" where
  "SampleNewRecentMinRTT numSamples r = r\<lparr>numMinRTTsamplesRemaining := numSamples, newMinRTT := zeroSample\<rparr>"

definition OnConnectionMigration :: "Time \<Rightarrow> RTTStats \<Rightarrow> RTTStats" where
  "OnConnectionMigration now r = r\<lparr>latestRTT := 0, minRTT := 0, smoothedRTT := 0, meanDeviation := 0,
     initialRTTus := initialRTTus_const, numMinRTTsamplesRemaining := 0, recentMinRTTwindow := InfDuration,
     recentMinRTT := zeroSample, halfWindowRTT := zeroSample, quarterWindowRTT := zeroSample,
     timefornumMinRTTsamplesRemaining := now\<rparr>"

definition ExpireSmoothedMetrics :: "RTTStats \<Rightarrow> RTTStats" where
  "ExpireSmoothedMetrics r =
     (let r = r\<lparr>meanDeviation := max (meanDeviation r) (AbsDuration (smoothedRTT r - latestRTT r))\<rparr>
      in r\<lparr>smoothedRTT := max (smoothedRTT r) (latestRTT r)\<rparr>)"

definition UpdateSessionRTT :: "Duration \<Rightarrow> RTTStats \<Rightarrow> RTTStats" where
  "UpdateSessionRTT s r = r\<lparr>smoothedRTT := s\<rparr>"

section \<open>Bandwidth\<close>

definition BytesPerSecond :: u64 where "BytesPerSecond = 8"

record BDWStats =
  bandwidth :: u64
  compareWindow :: "u64 list"
  roundRobinIndex :: byte

definition NewBDWStats :: "u64 \<Rightarrow> BDWStats" where
  "NewBDWStats b = \<lparr>bandwidth = b, compareWindow = replicate 10 0, roundRobinIndex = 0\<rparr>"

text \<open>An integer division by zero panics.\<close>

definition UpdateBDW :: "ByteCount \<Rightarrow> Duration \<Rightarrow> BDWStats \<Rightarrow> error + BDWStats" where
  "UpdateBDW sentDelta sentDelay b =
     (if (word_of_int sentDelay :: u64) = 0 then Inl (Panic ''runtime error: integer divide by zero'')
      else
        let bdw = sentDelta * 1000000000 div word_of_int sentDelay * BytesPerSecond;
            size = of_nat (length (compareWindow b)) :: byte;
            window = (compareWindow b)[unat (roundRobinIndex b mod size) := bdw]
        in Inr (b\<lparr>compareWindow := window, roundRobinIndex := (roundRobinIndex b + 1) mod size,
             bandwidth := foldl (\<lambda>m x. if m < x then x else m) bdw window\<rparr>))"

section \<open>The smoothed estimates\<close>

text \<open>
  Durations below \<open>2 ^ 21\<close> microseconds, about 2.1 seconds, leave the 24 bits of a \<^verbatim>\<open>float32\<close> enough room for
  the fractions of the weighted sums, so that no operation rounds.
\<close>

abbreviation exactRTT :: "Duration \<Rightarrow> bool" where "exactRTT d \<equiv> 0 \<le> d \<and> d < 2 ^ 21 * Microsecond"

lemma float32_fraction:
  assumes "0 \<le> n" "n < 2 ^ 24"
  shows "float32 (of_int n / 2 ^ k) = of_int n / 2 ^ k"
  using roundTo_exact [of n 24 "- int k"] assms by (simp add: power_int_minus_divide)

lemma sdiv_nonneg: "0 \<le> x \<Longrightarrow> 0 < k \<Longrightarrow> x sdiv k = x div (k :: int)"
  by (cases "x = 0") (simp_all add: signed_divide_int_def)

lemma weighted_exact:
  assumes "exactRTT x" "exactRTT y" "0 \<le> p" "0 \<le> q" "p + q \<le> 8"
  shows "weighted (of_int p / 2 ^ k) x (of_int q / 2 ^ k) y =
    (p * (x div Microsecond) + q * (y div Microsecond)) div 2 ^ k * Microsecond"
proof -
  define X Y where "X = x div Microsecond" and "Y = y div Microsecond"
  have XY: "0 \<le> X" "X < 2 ^ 21" "0 \<le> Y" "Y < 2 ^ 21" using assms by (auto simp: X_def Y_def Microsecond_def)
  have sdiv: "x sdiv Microsecond = X" "y sdiv Microsecond = Y"
    using assms by (simp_all add: X_def Y_def Microsecond_def sdiv_nonneg)
  have pX: "0 \<le> p * X" "p * X \<le> p * 2 ^ 21" "0 \<le> q * Y" "q * Y \<le> q * 2 ^ 21"
    using XY assms by (simp_all add: mult_left_mono)
  have "p * X + q * Y < 2 ^ 24"
  proof (cases "p + q = 0")
    case False
    then have "p * X + q * Y < (p + q) * 2 ^ 21"
      using XY assms by (smt (verit) distrib_right mult_strict_left_mono pX)
    also have "\<dots> \<le> 8 * 2 ^ 21" using assms by (intro mult_right_mono) auto
    finally show ?thesis by simp
  qed (use assms in \<open>simp add: add_nonneg_eq_0_iff\<close>)
  then have n: "0 \<le> p * X + q * Y" "p * X + q * Y < 2 ^ 24" "p * X < 2 ^ 24" "q * Y < 2 ^ 24" using pX by linarith+
  have f: "float32 (of_int X) = of_int X" "float32 (of_int Y) = of_int Y"
    using float32_fraction [of _ 0] XY by simp_all
  have "float32 (of_int p / 2 ^ k * of_int X) = of_int (p * X) / 2 ^ k" "float32 (of_int q / 2 ^ k * of_int Y) = of_int (q * Y) / 2 ^ k"
    using float32_fraction [OF pX(1) n(3), of k] float32_fraction [OF pX(3) n(4), of k] by simp_all
  then have "float32 (float32 (of_int p / 2 ^ k * of_int X) + float32 (of_int q / 2 ^ k * of_int Y)) =
      of_int (p * X + q * Y) / of_int (2 ^ k)"
    using float32_fraction [OF n(1,2), of k] by (simp add: add_divide_distrib)
  moreover have "truncRat (of_int (p * X + q * Y) / of_int (2 ^ k)) = (p * X + q * Y) div 2 ^ k"
    using n(1) by (simp add: truncRat_def floor_divide_of_int_eq del: of_int_add of_int_mult of_int_power)
  ultimately show ?thesis unfolding weighted_def sdiv f X_def [symmetric] Y_def [symmetric] by simp
qed

text \<open>The reference: averages of whole microseconds, rounded down.\<close>

definition ewma :: "Duration \<Rightarrow> Duration \<Rightarrow> Duration" where
  "ewma x s = (if x = 0 then s else (7 * (x div Microsecond) + s div Microsecond) div 8 * Microsecond)"

definition ewmaDeviation :: "Duration \<Rightarrow> Duration \<Rightarrow> Duration \<Rightarrow> Duration" where
  "ewmaDeviation x d s =
     (if x = 0 then s div 2 else (3 * (d div Microsecond) + \<bar>x - s\<bar> div Microsecond) div 4 * Microsecond)"

text \<open>The sample that is smoothed: the delay the peer reports is taken off when it is smaller.\<close>

definition corrected :: "Duration \<Rightarrow> Duration \<Rightarrow> Duration" where
  "corrected sendDelta ackDelay = (if sendDelta > ackDelay then sendDelta - ackDelay else sendDelta)"

definition sampleRTT :: "Duration \<times> Duration \<times> Time \<Rightarrow> RTTStats \<Rightarrow> RTTStats" where
  "sampleRTT = (\<lambda>(d, a, now). UpdateRTT d a now)"

lemma updateRecentMinRTT_keeps [simp]:
  "minRTT (updateRecentMinRTT s now r) = minRTT r" "latestRTT (updateRecentMinRTT s now r) = latestRTT r"
  "smoothedRTT (updateRecentMinRTT s now r) = smoothedRTT r" "meanDeviation (updateRecentMinRTT s now r) = meanDeviation r"
  by (auto simp: updateRecentMinRTT_def expireSamples_def enterSample_def Let_def)

lemma UpdateRTT_exact:
  assumes "0 < d" "exactRTT d" "0 \<le> a" "exactRTT (smoothedRTT r)" "exactRTT (meanDeviation r)"
  shows "smoothedRTT (UpdateRTT d a now r) = ewma (smoothedRTT r) (corrected d a)"
    and "meanDeviation (UpdateRTT d a now r) = ewmaDeviation (smoothedRTT r) (meanDeviation r) (corrected d a)"
    and "minRTT (UpdateRTT d a now r) = (if minRTT r = 0 then d else min (minRTT r) d)"
    and "latestRTT (UpdateRTT d a now r) = corrected d a"
proof -
  have c: "exactRTT (corrected d a)" "0 < corrected d a" using assms by (auto simp: corrected_def)
  have abs: "AbsDuration z = \<bar>z\<bar>" for z by (simp add: AbsDuration_def)
  have inf: "d \<noteq> InfDuration" using assms by (auto simp: InfDuration_def Microsecond_def)
  have c': "exactRTT \<bar>smoothedRTT r - corrected d a\<bar>" using c assms by (auto simp: abs_le_iff)
  note w = weighted_exact [OF assms(4) c(1), of 7 1 3] weighted_exact [OF assms(5) c', of 3 1 2]
  have fold: "(if d > a then d - a else d) = corrected d a" by (simp add: corrected_def)
  show "smoothedRTT (UpdateRTT d a now r) = ewma (smoothedRTT r) (corrected d a)"
    "meanDeviation (UpdateRTT d a now r) = ewmaDeviation (smoothedRTT r) (meanDeviation r) (corrected d a)"
    "minRTT (UpdateRTT d a now r) = (if minRTT r = 0 then d else min (minRTT r) d)"
    "latestRTT (UpdateRTT d a now r) = corrected d a"
    using assms inf w c unfolding UpdateRTT_def Let_def fold
    by (simp_all add: ewma_def ewmaDeviation_def oneMinusAlpha_def rttAlpha_def oneMinusBeta_def rttBeta_def abs sdiv_nonneg)
qed

text \<open>The three windows hold samples in ascending order.\<close>

definition windows_sorted :: "Duration set \<Rightarrow> RTTStats \<Rightarrow> bool" where
  "windows_sorted S r \<longleftrightarrow> {RecentMinRTT r, GetHalfWindowRTT r, GetQuarterWindowRTT r} \<subseteq> S \<and>
     RecentMinRTT r \<le> GetHalfWindowRTT r \<and> GetHalfWindowRTT r \<le> GetQuarterWindowRTT r"

lemmas window_defs = windows_sorted_def RecentMinRTT_def GetHalfWindowRTT_def GetQuarterWindowRTT_def

lemma updateRecentMinRTT_sorted:
  assumes "RecentMinRTT r = 0 \<or> windows_sorted S r"
  shows "windows_sorted (insert s S) (updateRecentMinRTT s now r) \<and> GetQuarterWindowRTT (updateRecentMinRTT s now r) \<le> s"
proof -
  have "windows_sorted (insert s S) (enterSample s now r) \<and> GetQuarterWindowRTT (enterSample s now r) \<le> s"
    using assms by (auto simp: window_defs enterSample_def Let_def)
  then show ?thesis unfolding updateRecentMinRTT_def expireSamples_def Let_def by (auto simp: window_defs)
qed

lemma UpdateRTT_sorted:
  assumes "0 < d" "exactRTT d" "RecentMinRTT r = 0 \<or> windows_sorted S r"
  shows "windows_sorted (insert d S) (UpdateRTT d a now r) \<and> GetQuarterWindowRTT (UpdateRTT d a now r) \<le> d"
proof -
  have "d \<noteq> InfDuration" using assms by (auto simp: InfDuration_def Microsecond_def)
  then show ?thesis
    using updateRecentMinRTT_sorted [of "r\<lparr>minRTT := m, deltaMinRTT := n\<rparr>" S d now for m n]
      updateRecentMinRTT_sorted [of "r\<lparr>deltaMinRTT := n\<rparr>" S d now for n] assms
    by (auto simp: UpdateRTT_def Let_def window_defs)
qed

lemma ewma_bounds:
  assumes "0 \<le> s" "s \<le> M" "0 \<le> L" "L * Microsecond \<le> s" "x = 0 \<or> (L * Microsecond \<le> x \<and> x \<le> M)"
  shows "L * Microsecond \<le> ewma x s" "ewma x s \<le> M"
proof -
  have "L \<le> s div Microsecond" "L \<le> x div Microsecond" "x div Microsecond \<le> M div Microsecond" "s div Microsecond \<le> M div Microsecond"
    if "x \<noteq> 0" using assms that by (auto simp: Microsecond_def intro: zdiv_mono1)
  then have "L \<le> (7 * (x div Microsecond) + s div Microsecond) div 8"
    "(7 * (x div Microsecond) + s div Microsecond) div 8 \<le> M div Microsecond" if "x \<noteq> 0" using that by linarith+
  moreover have "(M div Microsecond) * Microsecond \<le> M" by (simp add: Microsecond_def)
  ultimately show "L * Microsecond \<le> ewma x s" "ewma x s \<le> M"
    using assms by (auto simp: ewma_def Microsecond_def)
qed

lemma ewmaDeviation_bounds:
  assumes "exactRTT s" "exactRTT x" "exactRTT d"
  shows "exactRTT (ewmaDeviation x d s)"
proof -
  have "0 \<le> \<bar>x - s\<bar> div Microsecond" "\<bar>x - s\<bar> div Microsecond < 2 ^ 21" "0 \<le> d div Microsecond" "d div Microsecond < 2 ^ 21"
    using assms by (auto simp: Microsecond_def pos_imp_zdiv_nonneg_iff)
  then have "0 \<le> (3 * (d div Microsecond) + \<bar>x - s\<bar> div Microsecond) div 4"
    "(3 * (d div Microsecond) + \<bar>x - s\<bar> div Microsecond) div 4 < 2 ^ 21" by linarith+
  then show ?thesis using assms by (auto simp: ewmaDeviation_def Microsecond_def)
qed

definition validSample :: "Duration \<times> Duration \<times> Time \<Rightarrow> bool" where
  "validSample = (\<lambda>(d, a, now). 0 < d \<and> exactRTT d \<and> 0 \<le> a)"

abbreviation correctedSample :: "Duration \<times> Duration \<times> Time \<Rightarrow> Duration" where
  "correctedSample p \<equiv> corrected (fst p) (fst (snd p))"

text \<open>The statistics of a new path are the zero value of the type or the result of \<^verbatim>\<open>NewRTTStats\<close>.\<close>

definition freshStats :: "RTTStats set" where
  "freshStats = {NewRTTStats, NewRTTStatsWithSmoothedRTT 0}"

lemma rtt_run_inv:
  assumes "\<forall>p \<in> set xs. validSample p" "r0 \<in> freshStats"
  shows "let r = fold sampleRTT xs r0 in
    smoothedRTT r = foldl ewma 0 (map correctedSample xs) \<and> exactRTT (smoothedRTT r) \<and> exactRTT (meanDeviation r) \<and>
    minRTT r = (if xs = [] then 0 else Min (fst ` set xs)) \<and>
    (if xs = [] then RecentMinRTT r = 0 else windows_sorted (fst ` set xs) r \<and> GetQuarterWindowRTT r \<le> fst (last xs))"
  using assms
proof (induction xs rule: rev_induct)
  case Nil
  then show ?case by (auto simp: freshStats_def NewRTTStats_def NewRTTStatsWithSmoothedRTT_def RecentMinRTT_def zeroSample_def Microsecond_def)
next
  case (snoc p xs)
  obtain d a now where p: "p = (d, a, now)" by (cases p)
  define r where "r = fold sampleRTT xs r0"
  have v: "0 < d" "exactRTT d" "0 \<le> a" using snoc.prems by (auto simp: p validSample_def)
  have IH: "smoothedRTT r = foldl ewma 0 (map correctedSample xs)" "exactRTT (smoothedRTT r)" "exactRTT (meanDeviation r)"
    "minRTT r = (if xs = [] then 0 else Min (fst ` set xs))"
    "if xs = [] then RecentMinRTT r = 0 else windows_sorted (fst ` set xs) r"
    using snoc by (auto simp: r_def [symmetric] Let_def)
  note U = UpdateRTT_exact [OF v IH(2,3), of now]
  have c: "exactRTT (corrected d a)" using v by (auto simp: corrected_def)
  have "ewma (smoothedRTT r) (corrected d a) \<le> 2 ^ 21 * Microsecond - 1" "0 * Microsecond \<le> ewma (smoothedRTT r) (corrected d a)"
    using ewma_bounds [of "corrected d a" "2 ^ 21 * Microsecond - 1" 0 "smoothedRTT r"] c IH(2) by auto
  moreover have "Min (fst ` set xs) \<noteq> 0" if "xs \<noteq> []"
  proof -
    have "Min (fst ` set xs) \<in> fst ` set xs" using that by simp
    then show ?thesis using snoc.prems by (auto simp: validSample_def)
  qed
  moreover have "windows_sorted (insert d (fst ` set xs)) (UpdateRTT d a now r) \<and> GetQuarterWindowRTT (UpdateRTT d a now r) \<le> d"
    by (rule UpdateRTT_sorted [OF v(1,2)]) (use IH(5) in \<open>auto split: if_splits\<close>)
  moreover have "exactRTT (ewmaDeviation (smoothedRTT r) (meanDeviation r) (corrected d a))"
    by (rule ewmaDeviation_bounds [OF c IH(2,3)])
  moreover have "fold sampleRTT (xs @ [p]) r0 = UpdateRTT d a now r" by (simp add: r_def p sampleRTT_def)
  ultimately show ?case using U IH(1,4) unfolding Let_def by (auto simp: p min.commute)
qed

lemma foldl_ewma_bounds:
  assumes "\<forall>s \<in> set ss. 0 \<le> s \<and> s \<le> M \<and> L * Microsecond \<le> s" "0 \<le> L" "x = 0 \<or> (L * Microsecond \<le> x \<and> x \<le> M)" "ss \<noteq> []"
  shows "L * Microsecond \<le> foldl ewma x ss \<and> foldl ewma x ss \<le> M"
  using assms
proof (induction ss arbitrary: x)
  case (Cons s ss)
  have "L * Microsecond \<le> ewma x s \<and> ewma x s \<le> M" using Cons.prems ewma_bounds [of s M L x] by auto
  then show ?case using Cons by (cases "ss = []") auto
qed simp

text \<open>
  C20. the round-trip estimates of a new path. For round trips below 2.1 seconds the \<^verbatim>\<open>float32\<close> smoothing is exactly the integer
  average with weights 7/8 and 1/8; the smoothed value lies between the smallest sample, rounded down to a
  microsecond, and the largest one; the minimum is the least raw sample; and the recent minimum is a raw sample,
  with the three windows in ascending order up to the last sample.
\<close>

theorem rtt_estimates:
  assumes "\<forall>p \<in> set xs. validSample p" "xs \<noteq> []" "r0 \<in> freshStats"
  shows "let r = fold sampleRTT xs r0 in
    smoothedRTT r = foldl ewma 0 (map correctedSample xs) \<and>
    Min (correctedSample ` set xs) div Microsecond * Microsecond \<le> smoothedRTT r \<and>
    smoothedRTT r \<le> Max (correctedSample ` set xs) \<and>
    minRTT r = Min (fst ` set xs) \<and>
    windows_sorted (fst ` set xs) r \<and> GetQuarterWindowRTT r \<le> fst (last xs)"
proof -
  let ?C = "correctedSample ` set xs"
  have pos: "0 < correctedSample p" if "p \<in> set xs" for p
    using that assms(1) by (auto simp: validSample_def corrected_def)
  have "Min ?C \<in> ?C" using assms(2) by simp
  then have "0 < Min ?C" using pos by fastforce
  then have L: "0 \<le> Min ?C div Microsecond" by (simp add: Microsecond_def)
  have "Min ?C div Microsecond * Microsecond \<le> Min ?C" by (simp add: Microsecond_def)
  then have "\<forall>s \<in> set (map correctedSample xs). 0 \<le> s \<and> s \<le> Max ?C \<and> Min ?C div Microsecond * Microsecond \<le> s"
    using pos by (auto simp: less_imp_le intro: order_trans [OF _ Min_le])
  from foldl_ewma_bounds [OF this L, of 0] rtt_run_inv [OF assms(1,3)] assms(2) show ?thesis by (simp add: Let_def)
qed

theorem rtt_estimates_witness:
  "let r = fold sampleRTT [(100000000, 0, 1), (60000000, 4000000, 2)] NewRTTStats in
    smoothedRTT r = 94500000 \<and> minRTT r = 60000000 \<and> RecentMinRTT r \<in> {100000000, 60000000}"
  using rtt_estimates [of "[(100000000, 0, 1), (60000000, 4000000, 2)]" NewRTTStats]
  by (auto simp: validSample_def Microsecond_def Let_def ewma_def corrected_def windows_sorted_def freshStats_def)

end
