(* ===== verification/Congestion.thy ===== *)
theory Congestion
  imports RttStats Qerr "HOL-Library.AList_Mapping"
begin

text \<open>
  Congestion control of the first path: \<^verbatim>\<open>congestion/hybrid_slow_start.go\<close>, \<^verbatim>\<open>prr_sender.go\<close>, \<^verbatim>\<open>cubic.go\<close> and
  \<^verbatim>\<open>cubic_sender.go\<close>. The statistics that a sender reaches through its pointer \<^verbatim>\<open>rttStats\<close> are
  an argument of its methods, and so is the time its clock shows.
\<close>

section \<open>Hybrid slow start\<close>

definition DefaultTCPMSS :: ByteCount where "DefaultTCPMSS = 1460"
definition hybridStartLowWindow :: ByteCount where "hybridStartLowWindow = 16"
definition hybridStartMinSamples :: u32 where "hybridStartMinSamples = 8"
definition hybridStartDelayFactorExp :: nat where "hybridStartDelayFactorExp = 3"
definition hybridStartDelayMinThresholdUs :: int where "hybridStartDelayMinThresholdUs = 4000"
definition hybridStartDelayMaxThresholdUs :: int where "hybridStartDelayMaxThresholdUs = 16000"

record HybridSlowStart =
  endPacketNumber :: PacketNumber
  lastSentPacketNumber :: PacketNumber
  started :: bool
  currentMinRTT :: Duration
  rttSampleCount :: u32
  hystartFound :: bool

definition zeroHybridSlowStart :: HybridSlowStart where
  "zeroHybridSlowStart = \<lparr>endPacketNumber = 0, lastSentPacketNumber = 0, started = False, currentMinRTT = 0,
     rttSampleCount = 0, hystartFound = False\<rparr>"

definition StartReceiveRound :: "PacketNumber \<Rightarrow> HybridSlowStart \<Rightarrow> HybridSlowStart" where
  "StartReceiveRound lastSent s = s\<lparr>endPacketNumber := lastSent, currentMinRTT := 0, rttSampleCount := 0, started := True\<rparr>"

definition IsEndOfRound :: "PacketNumber \<Rightarrow> HybridSlowStart \<Rightarrow> bool" where
  "IsEndOfRound ack s = (endPacketNumber s < ack)"

definition minRTTincreaseThreshold :: "Duration \<Rightarrow> Duration" where
  "minRTTincreaseThreshold least =
     max (min (drop_bit hybridStartDelayFactorExp (least sdiv Microsecond)) hybridStartDelayMaxThresholdUs)
       hybridStartDelayMinThresholdUs * Microsecond"

definition ShouldExitSlowStart :: "Duration \<Rightarrow> Duration \<Rightarrow> ByteCount \<Rightarrow> HybridSlowStart \<Rightarrow> bool \<times> HybridSlowStart" where
  "ShouldExitSlowStart latest least cwnd s =
     (let s = (if started s then s else StartReceiveRound (lastSentPacketNumber s) s) in
      if hystartFound s then (True, s)
      else
        let s = s\<lparr>rttSampleCount := rttSampleCount s + 1\<rparr>;
            s = (if rttSampleCount s \<le> hybridStartMinSamples \<and> (currentMinRTT s = 0 \<or> currentMinRTT s > latest)
                 then s\<lparr>currentMinRTT := latest\<rparr> else s);
            s = (if rttSampleCount s = hybridStartMinSamples \<and> currentMinRTT s > least + minRTTincreaseThreshold least
                 then s\<lparr>hystartFound := True\<rparr> else s)
        in (cwnd \<ge> hybridStartLowWindow \<and> hystartFound s, s))"

definition hss_OnPacketSent :: "PacketNumber \<Rightarrow> HybridSlowStart \<Rightarrow> HybridSlowStart" where
  "hss_OnPacketSent packetNumber s = s\<lparr>lastSentPacketNumber := packetNumber\<rparr>"

definition hss_OnPacketAcked :: "PacketNumber \<Rightarrow> HybridSlowStart \<Rightarrow> HybridSlowStart" where
  "hss_OnPacketAcked ackedPacketNumber s = (if IsEndOfRound ackedPacketNumber s then s\<lparr>started := False\<rparr> else s)"

definition Restart :: "HybridSlowStart \<Rightarrow> HybridSlowStart" where
  "Restart s = s\<lparr>started := False, hystartFound := False\<rparr>"

section \<open>Proportional rate reduction\<close>

record PrrSender =
  bytesSentSinceLoss :: ByteCount
  bytesDeliveredSinceLoss :: ByteCount
  ackCountSinceLoss :: ByteCount
  bytesInFlightBeforeLoss :: ByteCount

definition zeroPrrSender :: PrrSender where
  "zeroPrrSender = \<lparr>bytesSentSinceLoss = 0, bytesDeliveredSinceLoss = 0, ackCountSinceLoss = 0, bytesInFlightBeforeLoss = 0\<rparr>"

definition prr_OnPacketSent :: "ByteCount \<Rightarrow> PrrSender \<Rightarrow> PrrSender" where
  "prr_OnPacketSent sentBytes p = p\<lparr>bytesSentSinceLoss := bytesSentSinceLoss p + sentBytes\<rparr>"

definition prr_OnPacketLost :: "ByteCount \<Rightarrow> PrrSender \<Rightarrow> PrrSender" where
  "prr_OnPacketLost bytesInFlight p = p\<lparr>bytesSentSinceLoss := 0, bytesInFlightBeforeLoss := bytesInFlight,
     bytesDeliveredSinceLoss := 0, ackCountSinceLoss := 0\<rparr>"

definition prr_OnPacketAcked :: "ByteCount \<Rightarrow> PrrSender \<Rightarrow> PrrSender" where
  "prr_OnPacketAcked ackedBytes p = p\<lparr>bytesDeliveredSinceLoss := bytesDeliveredSinceLoss p + ackedBytes,
     ackCountSinceLoss := ackCountSinceLoss p + 1\<rparr>"

definition prr_TimeUntilSend :: "ByteCount \<Rightarrow> ByteCount \<Rightarrow> ByteCount \<Rightarrow> PrrSender \<Rightarrow> Duration" where
  "prr_TimeUntilSend congestionWindow bytesInFlight slowstartThreshold p =
     (if bytesSentSinceLoss p = 0 \<or> bytesInFlight < DefaultTCPMSS then 0
      else if congestionWindow > bytesInFlight then
        (if bytesDeliveredSinceLoss p + ackCountSinceLoss p * DefaultTCPMSS \<le> bytesSentSinceLoss p then InfDuration else 0)
      else if bytesDeliveredSinceLoss p * slowstartThreshold > bytesSentSinceLoss p * bytesInFlightBeforeLoss p then 0
      else InfDuration)"

section \<open>The CUBIC function\<close>

text \<open>
  64-bit signed arithmetic wraps around. A conversion of a floating-point number to an unsigned type truncates.
  \<open>cbrt\<close> stands for \<^verbatim>\<open>math.Cbrt\<close>.
\<close>

definition int64 :: "int \<Rightarrow> int" where
  "int64 x = sint (word_of_int x :: u64)"

lemma int64_id: "0 \<le> x \<Longrightarrow> x < 2 ^ 63 \<Longrightarrow> int64 x = x"
  by (simp add: int64_def signed_of_int signed_take_bit_int_eq_self)

definition cubeScale :: nat where "cubeScale = 40"
definition cubeCongestionWindowScale :: int where "cubeCongestionWindowScale = 410"
definition cubeFactor :: PacketNumber where "cubeFactor = push_bit cubeScale 1 div 410"
definition defaultNumConnections :: int where "defaultNumConnections = 2"
definition beta_const :: rat where "beta_const = float32 (7 / 10)"
definition betaLastMax :: rat where "betaLastMax = float32 (85 / 100)"
definition maxCubicTimeInterval :: Duration where "maxCubicTimeInterval = 30 * 1000000"

record Cubic =
  numConnections :: int
  epoch :: Time
  appLimitedStartTime :: Time
  lastUpdateTime :: Time
  lastCongestionWindow :: PacketNumber
  lastMaxCongestionWindow :: PacketNumber
  ackedPacketsCount :: PacketNumber
  estimatedTCPcongestionWindow :: PacketNumber
  originPointCongestionWindow :: PacketNumber
  timeToOriginPoint :: u32
  lastTargetCongestionWindow :: PacketNumber

definition cubic_Reset :: "Cubic \<Rightarrow> Cubic" where
  "cubic_Reset c = c\<lparr>epoch := zeroTime, appLimitedStartTime := zeroTime, lastUpdateTime := zeroTime,
     lastCongestionWindow := 0, lastMaxCongestionWindow := 0, ackedPacketsCount := 0,
     estimatedTCPcongestionWindow := 0, originPointCongestionWindow := 0, timeToOriginPoint := 0,
     lastTargetCongestionWindow := 0\<rparr>"

definition NewCubic :: Cubic where
  "NewCubic = \<lparr>numConnections = defaultNumConnections, epoch = zeroTime, appLimitedStartTime = zeroTime,
     lastUpdateTime = zeroTime, lastCongestionWindow = 0, lastMaxCongestionWindow = 0, ackedPacketsCount = 0,
     estimatedTCPcongestionWindow = 0, originPointCongestionWindow = 0, timeToOriginPoint = 0,
     lastTargetCongestionWindow = 0\<rparr>"

definition SetNumConnections :: "int \<Rightarrow> Cubic \<Rightarrow> Cubic" where
  "SetNumConnections n c = c\<lparr>numConnections := n\<rparr>"

definition cubic_beta :: "Cubic \<Rightarrow> rat" where
  "cubic_beta c =
     (let n = float32 (of_int (numConnections c)) in float32 (float32 (float32 (n - 1) + beta_const) / n))"

definition cubic_alpha :: "Cubic \<Rightarrow> rat" where
  "cubic_alpha c =
     (let b = cubic_beta c; n = float32 (of_int (numConnections c))
      in float32 (float32 (float32 (float32 (3 * n) * n) * float32 (1 - b)) / float32 (1 + b)))"

definition OnApplicationLimited :: "Time \<Rightarrow> Cubic \<Rightarrow> Cubic" where
  "OnApplicationLimited now c = (if appLimitedStartTime c = zeroTime then c\<lparr>appLimitedStartTime := now\<rparr> else c)"

definition CongestionWindowAfterPacketLoss :: "PacketNumber \<Rightarrow> Cubic \<Rightarrow> PacketNumber \<times> Cubic" where
  "CongestionWindowAfterPacketLoss cwnd c =
     (let c = (if cwnd < lastMaxCongestionWindow c
               then c\<lparr>lastMaxCongestionWindow := word_of_int (truncRat (float32 (betaLastMax * float32 (of_int (uint cwnd)))))\<rparr>
               else c\<lparr>lastMaxCongestionWindow := cwnd\<rparr>);
          c = c\<lparr>epoch := zeroTime\<rparr>
      in (word_of_int (truncRat (float32 (float32 (of_int (uint cwnd)) * cubic_beta c))), c))"

text \<open>The start of a new epoch, or the shift of the current one by the time without data to send.\<close>

definition startEpoch :: "(rat \<Rightarrow> rat) \<Rightarrow> Time \<Rightarrow> PacketNumber \<Rightarrow> Cubic \<Rightarrow> Cubic" where
  "startEpoch cbrt now cwnd c =
     (if epoch c = zeroTime then
        let c = c\<lparr>epoch := now, ackedPacketsCount := 1, estimatedTCPcongestionWindow := cwnd\<rparr> in
        if lastMaxCongestionWindow c \<le> cwnd then c\<lparr>timeToOriginPoint := 0, originPointCongestionWindow := cwnd\<rparr>
        else c\<lparr>timeToOriginPoint := word_of_int (truncRat (cbrt (float64 (of_int (uint (cubeFactor * (lastMaxCongestionWindow c - cwnd))))))),
               originPointCongestionWindow := lastMaxCongestionWindow c\<rparr>
      else if appLimitedStartTime c \<noteq> zeroTime
      then c\<lparr>epoch := epoch c + time_Sub now (appLimitedStartTime c), appLimitedStartTime := zeroTime\<rparr>
      else c)"

definition elapsedTime :: "Time \<Rightarrow> Duration \<Rightarrow> Cubic \<Rightarrow> int" where
  "elapsedTime now delayMin c = int64 (push_bit 10 (time_Sub (now + delayMin) (epoch c) sdiv Microsecond)) sdiv 1000000"

definition cubicTarget :: "int \<Rightarrow> Cubic \<Rightarrow> PacketNumber" where
  "cubicTarget elapsed c =
     (let offset = int64 (uint (timeToOriginPoint c) - elapsed);
          offset = (if offset < 0 then int64 (- offset) else offset);
          delta = word_of_int (drop_bit cubeScale (int64 (cubeCongestionWindowScale * offset * offset * offset)))
      in if elapsed > uint (timeToOriginPoint c) then originPointCongestionWindow c + delta
         else originPointCongestionWindow c - delta)"

definition requiredAckCount :: "Cubic \<Rightarrow> PacketNumber" where
  "requiredAckCount c =
     word_of_int (truncRat (float32 (float32 (of_int (uint (estimatedTCPcongestionWindow c))) / cubic_alpha c)))"

text \<open>The loop that updates the estimate of a TCP window; \<open>None\<close> is a loop that does not end.\<close>

partial_function (option) estimateTCP :: "Cubic \<Rightarrow> Cubic option" where
  "estimateTCP c =
     (if ackedPacketsCount c < requiredAckCount c then Some c
      else estimateTCP (c\<lparr>ackedPacketsCount := ackedPacketsCount c - requiredAckCount c,
             estimatedTCPcongestionWindow := estimatedTCPcongestionWindow c + 1\<rparr>))"

definition CongestionWindowAfterAck ::
    "(rat \<Rightarrow> rat) \<Rightarrow> Time \<Rightarrow> PacketNumber \<Rightarrow> Duration \<Rightarrow> Cubic \<Rightarrow> (PacketNumber \<times> Cubic) option" where
  "CongestionWindowAfterAck cbrt now cwnd delayMin c =
     (let c = c\<lparr>ackedPacketsCount := ackedPacketsCount c + 1\<rparr> in
      if lastCongestionWindow c = cwnd \<and> time_Sub now (lastUpdateTime c) \<le> maxCubicTimeInterval
      then Some (max (lastTargetCongestionWindow c) (estimatedTCPcongestionWindow c), c)
      else
        let c = c\<lparr>lastCongestionWindow := cwnd, lastUpdateTime := now\<rparr>;
            c = startEpoch cbrt now cwnd c;
            target = cubicTarget (elapsedTime now delayMin c) c
        in case estimateTCP c of None \<Rightarrow> None
           | Some c \<Rightarrow>
               let c = c\<lparr>lastTargetCongestionWindow := target\<rparr>
               in Some (if target < estimatedTCPcongestionWindow c then estimatedTCPcongestionWindow c else target, c))"

section \<open>What the two senders share\<close>

text \<open>
  \<^verbatim>\<open>cubicSender\<close> and \<^verbatim>\<open>OliaSender\<close> have the same fields but for the algorithm, and the same methods but for the
  increase of the window and the reaction to losses.
\<close>

definition maxBurstBytes :: ByteCount where "maxBurstBytes = 3 * DefaultTCPMSS"
definition defaultMinimumCongestionWindow :: PacketNumber where "defaultMinimumCongestionWindow = 2"
definition renoBeta :: rat where "renoBeta = float32 (7 / 10)"

record connectionStats =
  slowstartPacketsLost :: PacketNumber
  slowstartBytesLost :: ByteCount

record sender =
  hybridSlowStart :: HybridSlowStart
  prr :: PrrSender
  stats :: connectionStats
  largestSentPacketNumber :: PacketNumber
  largestAckedPacketNumber :: PacketNumber
  largestSentAtLastCutback :: PacketNumber
  congestionWindow :: PacketNumber
  slowstartThreshold :: PacketNumber
  lastCutbackExitedSlowstart :: bool
  slowStartLargeReduction :: bool
  minCongestionWindow :: PacketNumber
  maxTCPCongestionWindow :: PacketNumber
  sender_numConnections :: int
  congestionWindowCount :: ByteCount
  initialCongestionWindow :: PacketNumber
  initialMaxCongestionWindow :: PacketNumber

record cubicSender = sender +
  cubic :: Cubic
  reno :: bool

definition NewCubicSender :: "bool \<Rightarrow> PacketNumber \<Rightarrow> PacketNumber \<Rightarrow> cubicSender" where
  "NewCubicSender rn initialWindow initialMax = \<lparr>hybridSlowStart = zeroHybridSlowStart, prr = zeroPrrSender,
     stats = \<lparr>slowstartPacketsLost = 0, slowstartBytesLost = 0\<rparr>, largestSentPacketNumber = 0,
     largestAckedPacketNumber = 0, largestSentAtLastCutback = 0, congestionWindow = initialWindow,
     slowstartThreshold = initialMax, lastCutbackExitedSlowstart = False, slowStartLargeReduction = False,
     minCongestionWindow = defaultMinimumCongestionWindow, maxTCPCongestionWindow = initialMax,
     sender_numConnections = defaultNumConnections, congestionWindowCount = 0,
     initialCongestionWindow = initialWindow, initialMaxCongestionWindow = initialMax, cubic = NewCubic, reno = rn\<rparr>"

definition InRecovery :: "'a sender_scheme \<Rightarrow> bool" where
  "InRecovery c \<longleftrightarrow> largestAckedPacketNumber c \<le> largestSentAtLastCutback c \<and> largestAckedPacketNumber c \<noteq> 0"

definition GetCongestionWindow :: "'a sender_scheme \<Rightarrow> ByteCount" where
  "GetCongestionWindow c = congestionWindow c * DefaultTCPMSS"

definition GetSlowStartThreshold :: "'a sender_scheme \<Rightarrow> ByteCount" where
  "GetSlowStartThreshold c = slowstartThreshold c * DefaultTCPMSS"

definition InSlowStart :: "'a sender_scheme \<Rightarrow> bool" where
  "InSlowStart c \<longleftrightarrow> GetCongestionWindow c < GetSlowStartThreshold c"

definition TimeUntilSend :: "ByteCount \<Rightarrow> 'a sender_scheme \<Rightarrow> Duration" where
  "TimeUntilSend bytesInFlight c =
     (if InRecovery c then prr_TimeUntilSend (GetCongestionWindow c) bytesInFlight (GetSlowStartThreshold c) (prr c)
      else if GetCongestionWindow c > bytesInFlight then 0 else InfDuration)"

definition OnPacketSent :: "PacketNumber \<Rightarrow> ByteCount \<Rightarrow> bool \<Rightarrow> 'a sender_scheme \<Rightarrow> 'a sender_scheme" where
  "OnPacketSent packetNumber bytes isRetransmittable c =
     (if \<not> isRetransmittable then c
      else
        let c = (if InRecovery c then c\<lparr>prr := prr_OnPacketSent bytes (prr c)\<rparr> else c);
            c = c\<lparr>largestSentPacketNumber := packetNumber\<rparr>
        in c\<lparr>hybridSlowStart := hss_OnPacketSent packetNumber (hybridSlowStart c)\<rparr>)"

definition ExitSlowstart :: "'a sender_scheme \<Rightarrow> 'a sender_scheme" where
  "ExitSlowstart c = c\<lparr>slowstartThreshold := congestionWindow c\<rparr>"

definition MaybeExitSlowStart :: "RTTStats \<Rightarrow> 'a sender_scheme \<Rightarrow> 'a sender_scheme" where
  "MaybeExitSlowStart rttStats c =
     (if InSlowStart c then
        let (leave, hss) = ShouldExitSlowStart (latestRTT rttStats) (minRTT rttStats) (GetCongestionWindow c div DefaultTCPMSS)
              (hybridSlowStart c);
            c = c\<lparr>hybridSlowStart := hss\<rparr>
        in if leave then ExitSlowstart c else c
      else c)"

definition isCwndLimited :: "ByteCount \<Rightarrow> 'a sender_scheme \<Rightarrow> bool" where
  "isCwndLimited bytesInFlight c =
     (let cwnd = GetCongestionWindow c in
      if bytesInFlight \<ge> cwnd then True
      else
        let availableBytes = cwnd - bytesInFlight;
            slowStartLimited = (InSlowStart c \<and> bytesInFlight > cwnd div 2)
        in slowStartLimited \<or> availableBytes \<le> maxBurstBytes)"

definition RenoBeta :: "'a sender_scheme \<Rightarrow> rat" where
  "RenoBeta c =
     (let n = float32 (of_int (sender_numConnections c)) in float32 (float32 (float32 (n - 1) + renoBeta) / n))"

text \<open>A loss of a packet sent before the last cutback belongs to the same loss event.\<close>

definition lossInSameEvent :: "ByteCount \<Rightarrow> 'a sender_scheme \<Rightarrow> 'a sender_scheme" where
  "lossInSameEvent lostBytes c =
     (if lastCutbackExitedSlowstart c then
        let st = (stats c)\<lparr>slowstartPacketsLost := slowstartPacketsLost (stats c) + 1,
              slowstartBytesLost := slowstartBytesLost (stats c) + lostBytes\<rparr>;
            c = c\<lparr>stats := st\<rparr>
        in if slowStartLargeReduction c then
             let c = (if slowstartPacketsLost st = 1 \<or>
                        slowstartBytesLost st div DefaultTCPMSS > (slowstartBytesLost st - lostBytes) div DefaultTCPMSS
                      then c\<lparr>congestionWindow := max (congestionWindow c - 1) (minCongestionWindow c)\<rparr> else c)
             in c\<lparr>slowstartThreshold := congestionWindow c\<rparr>
           else c
      else c)"

text \<open>The start of a cutback, before the window is reduced, and what follows the reduction.\<close>

definition beginCutback :: "ByteCount \<Rightarrow> 'a sender_scheme \<Rightarrow> 'a sender_scheme" where
  "beginCutback bytesInFlight c =
     (let c = c\<lparr>lastCutbackExitedSlowstart := InSlowStart c\<rparr>;
          c = (if InSlowStart c then c\<lparr>stats := (stats c)\<lparr>slowstartPacketsLost := slowstartPacketsLost (stats c) + 1\<rparr>\<rparr> else c)
      in c\<lparr>prr := prr_OnPacketLost bytesInFlight (prr c)\<rparr>)"

definition finishCutback :: "'a sender_scheme \<Rightarrow> 'a sender_scheme" where
  "finishCutback c =
     (let c = (if congestionWindow c < minCongestionWindow c then c\<lparr>congestionWindow := minCongestionWindow c\<rparr> else c)
      in c\<lparr>slowstartThreshold := congestionWindow c, largestSentAtLastCutback := largestSentPacketNumber c,
           congestionWindowCount := 0\<rparr>)"

definition RetransmissionDelay :: "RTTStats \<Rightarrow> Duration" where
  "RetransmissionDelay rttStats =
     (if smoothedRTT rttStats = 0 then 0 else smoothedRTT rttStats + meanDeviation rttStats * 4)"

section \<open>The CUBIC sender\<close>

definition maybeIncreaseCwnd :: "(rat \<Rightarrow> rat) \<Rightarrow> Time \<Rightarrow> RTTStats \<Rightarrow> ByteCount \<Rightarrow> cubicSender \<Rightarrow> cubicSender option" where
  "maybeIncreaseCwnd cbrt now rttStats bytesInFlight c =
     (if \<not> isCwndLimited bytesInFlight c then Some (c\<lparr>cubic := OnApplicationLimited now (cubic c)\<rparr>)
      else if congestionWindow c \<ge> maxTCPCongestionWindow c then Some c
      else if InSlowStart c then Some (c\<lparr>congestionWindow := congestionWindow c + 1\<rparr>)
      else if reno c then
        let c = c\<lparr>congestionWindowCount := congestionWindowCount c + 1\<rparr>
        in if congestionWindowCount c * word_of_int (sender_numConnections c) \<ge> congestionWindow c
           then Some (c\<lparr>congestionWindow := congestionWindow c + 1, congestionWindowCount := 0\<rparr>) else Some c
      else
        case CongestionWindowAfterAck cbrt now (congestionWindow c) (minRTT rttStats) (cubic c) of
          None \<Rightarrow> None
        | Some (w, cub) \<Rightarrow> Some (c\<lparr>cubic := cub, congestionWindow := min (maxTCPCongestionWindow c) w\<rparr>))"

definition OnPacketAcked ::
    "(rat \<Rightarrow> rat) \<Rightarrow> Time \<Rightarrow> RTTStats \<Rightarrow> PacketNumber \<Rightarrow> ByteCount \<Rightarrow> ByteCount \<Rightarrow> cubicSender \<Rightarrow> cubicSender option" where
  "OnPacketAcked cbrt now rttStats ackedPacketNumber ackedBytes bytesInFlight c =
     (let c = c\<lparr>largestAckedPacketNumber := max ackedPacketNumber (largestAckedPacketNumber c)\<rparr> in
      if InRecovery c then Some (c\<lparr>prr := prr_OnPacketAcked ackedBytes (prr c)\<rparr>)
      else case maybeIncreaseCwnd cbrt now rttStats bytesInFlight c of
             None \<Rightarrow> None
           | Some c \<Rightarrow>
               Some (if InSlowStart c
                     then c\<lparr>hybridSlowStart := hss_OnPacketAcked ackedPacketNumber (hybridSlowStart c)\<rparr> else c))"

definition OnPacketLost :: "PacketNumber \<Rightarrow> ByteCount \<Rightarrow> ByteCount \<Rightarrow> cubicSender \<Rightarrow> cubicSender" where
  "OnPacketLost packetNumber lostBytes bytesInFlight c =
     (if packetNumber \<le> largestSentAtLastCutback c then lossInSameEvent lostBytes c
      else
        let c = beginCutback bytesInFlight c;
            c = (if slowStartLargeReduction c \<and> InSlowStart c then c\<lparr>congestionWindow := congestionWindow c - 1\<rparr>
                 else if reno c
                 then c\<lparr>congestionWindow := word_of_int (truncRat (float32 (float32 (of_int (uint (congestionWindow c))) * RenoBeta c)))\<rparr>
                 else let (w, cub) = CongestionWindowAfterPacketLoss (congestionWindow c) (cubic c)
                      in c\<lparr>cubic := cub, congestionWindow := w\<rparr>)
        in finishCutback c)"

definition SetNumEmulatedConnections :: "int \<Rightarrow> cubicSender \<Rightarrow> cubicSender" where
  "SetNumEmulatedConnections n c =
     (let n = max n 1 in c\<lparr>sender_numConnections := n, cubic := SetNumConnections n (cubic c)\<rparr>)"

definition OnRetransmissionTimeout :: "bool \<Rightarrow> cubicSender \<Rightarrow> cubicSender" where
  "OnRetransmissionTimeout packetsRetransmitted c =
     (let c = c\<lparr>largestSentAtLastCutback := 0\<rparr> in
      if \<not> packetsRetransmitted then c
      else c\<lparr>hybridSlowStart := Restart (hybridSlowStart c), cubic := cubic_Reset (cubic c),
             slowstartThreshold := congestionWindow c div 2, congestionWindow := minCongestionWindow c\<rparr>)"

definition sender_OnConnectionMigration :: "'a sender_scheme \<Rightarrow> 'a sender_scheme" where
  "sender_OnConnectionMigration c = c\<lparr>hybridSlowStart := Restart (hybridSlowStart c), prr := zeroPrrSender,
     largestSentPacketNumber := 0, largestAckedPacketNumber := 0, largestSentAtLastCutback := 0,
     lastCutbackExitedSlowstart := False, congestionWindowCount := 0, congestionWindow := initialCongestionWindow c,
     slowstartThreshold := initialMaxCongestionWindow c, maxTCPCongestionWindow := initialMaxCongestionWindow c\<rparr>"

definition cubic_OnConnectionMigration :: "cubicSender \<Rightarrow> cubicSender" where
  "cubic_OnConnectionMigration c = (sender_OnConnectionMigration c)\<lparr>cubic := cubic_Reset (cubic c)\<rparr>"

definition SetSlowStartLargeReduction :: "bool \<Rightarrow> 'a sender_scheme \<Rightarrow> 'a sender_scheme" where
  "SetSlowStartLargeReduction enabled c = c\<lparr>slowStartLargeReduction := enabled\<rparr>"

section \<open>The CUBIC sender under any events\<close>

definition DefaultMaxWindow :: PacketNumber where "DefaultMaxWindow = 2500"
definition InitialCongestionWindow :: PacketNumber where "InitialCongestionWindow = 32"

lemma RenoBeta_two:
  assumes "sender_numConnections c = 2"
  shows "0 \<le> RenoBeta c" "RenoBeta c \<le> 9 / 10"
proof -
  have "(let n = float32 (of_int 2) in float32 (float32 (float32 (n - 1) + renoBeta) / n)) \<le> 9 / 10"
    "0 \<le> (let n = float32 (of_int 2) in float32 (float32 (float32 (n - 1) + renoBeta) / n))" by code_simp+
  with assms show "0 \<le> RenoBeta c" "RenoBeta c \<le> 9 / 10" by (simp_all add: RenoBeta_def)
qed

text \<open>Scaling a window of at most 2500 packets down does not make it larger.\<close>

lemma scaled_window:
  assumes "w \<le> DefaultMaxWindow" "0 \<le> b" "b \<le> 9 / 10"
  shows "word_of_int (truncRat (float32 (float32 (of_int (uint w)) * b))) \<le> DefaultMaxWindow"
proof -
  define n where "n = uint w"
  define q where "q = (of_int n * b :: rat)"
  have n: "0 \<le> n" "n \<le> 2500" using assms(1) by (simp_all add: n_def word_le_def DefaultMaxWindow_def)
  then have f: "float32 (of_int n) = of_int n" using roundTo_exact [of n 24 0] by simp
  have q: "0 \<le> q" using n assms by (simp add: q_def)
  have "q \<le> of_int 2500 * (9 / 10)" unfolding q_def using n assms by (intro mult_mono) auto
  with float32_near [OF q] q have r: "0 \<le> float32 q" "float32 q < 2500" by simp_all
  then have "0 \<le> truncRat (float32 q)" "truncRat (float32 q) < 2500" by (simp_all add: truncRat_def floor_less_iff)
  then show ?thesis unfolding n_def [symmetric] f q_def [symmetric]
    by (simp add: word_le_def DefaultMaxWindow_def uint_word_of_int_eq take_bit_int_eq_self)
qed

lemma cubic_two:
  assumes "numConnections c = 2"
  shows "0 \<le> cubic_beta c" "cubic_beta c \<le> 9 / 10" "9 / 10 \<le> cubic_alpha c" "cubic_alpha c \<le> 1"
proof -
  let ?c = "NewCubic"
  have "0 \<le> cubic_beta ?c" "cubic_beta ?c \<le> 9 / 10" "9 / 10 \<le> cubic_alpha ?c" "cubic_alpha ?c \<le> 1" by code_simp+
  moreover have "cubic_beta c = cubic_beta ?c" "cubic_alpha c = cubic_alpha ?c"
    using assms by (simp_all add: cubic_beta_def cubic_alpha_def NewCubic_def defaultNumConnections_def)
  ultimately show "0 \<le> cubic_beta c" "cubic_beta c \<le> 9 / 10" "9 / 10 \<le> cubic_alpha c" "cubic_alpha c \<le> 1" by simp_all
qed

text \<open>Between 2 and \<open>2 ^ 63\<close> packets the loop needs at least one acknowledgement for every step.\<close>

lemma requiredAckCount_pos:
  assumes "numConnections c = 2" "2 \<le> unat (estimatedTCPcongestionWindow c)" "unat (estimatedTCPcongestionWindow c) < 2 ^ 63"
  shows "1 \<le> unat (requiredAckCount c)"
proof -
  define n where "n = uint (estimatedTCPcongestionWindow c)"
  define x where "x = float32 (of_int n)"
  define q where "q = x / cubic_alpha c"
  define y where "y = float32 q"
  note a = cubic_two(3,4) [OF assms(1)]
  have n: "(2 :: rat) \<le> of_int n" "of_int n \<le> (2 ^ 63 :: rat)" 
  proof -
    have "int 2 \<le> int (unat (estimatedTCPcongestionWindow c))" "int (unat (estimatedTCPcongestionWindow c)) < int (2 ^ 63)"
      using assms(2,3) by (simp_all only: of_nat_le_iff of_nat_less_iff)
    then have "2 \<le> n" "n \<le> 2 ^ 63" by (simp_all add: n_def)
    then have "(of_int 2 :: rat) \<le> of_int n" "(of_int n :: rat) \<le> of_int (2 ^ 63)" by (simp_all only: of_int_le_iff)
    then show "(2 :: rat) \<le> of_int n" "of_int n \<le> (2 ^ 63 :: rat)" by simp_all
  qed
  have "99 / 100 * of_int n \<le> x" "x \<le> 101 / 100 * of_int n" unfolding x_def using n by (intro float32_near; linarith)+
  then have x: "19 / 10 \<le> x" "x \<le> 2 ^ 63 * (101 / 100)" using n by linarith+
  have "x \<le> q" "q \<le> x * (10 / 9)" using a x by (simp_all add: q_def field_simps mult_left_mono)
  moreover have "99 / 100 * q \<le> y" "y \<le> 101 / 100 * q" unfolding y_def using x \<open>x \<le> q\<close> by (intro float32_near; linarith)+
  moreover have "(2 :: rat) ^ 64 = 2 * 2 ^ 63" by simp
  ultimately have y: "1 \<le> y" "y < 2 ^ 64" using x by linarith+
  then have "1 \<le> truncRat y" "truncRat y < 2 ^ 64" by (simp_all add: truncRat_def floor_less_iff)
  then have "uint (word_of_int (truncRat y) :: u64) = truncRat y" by (simp add: uint_word_of_int_eq take_bit_int_eq_self)
  then show ?thesis using \<open>1 \<le> truncRat y\<close> unfolding requiredAckCount_def n_def [symmetric] x_def [symmetric] q_def [symmetric] y_def [symmetric]
    by (simp add: unat_eq_nat_uint)
qed

text \<open>
  The loop ends: the number of acknowledged packets falls with every step from 2 packets on, and an estimate
  below that, or so large that it is about to wrap around, moves towards it.
\<close>

definition stepsToRange :: "PacketNumber \<Rightarrow> nat" where
  "stepsToRange w = (if unat w < 2 then 2 - unat w else if unat w < 2 ^ 63 then 0 else 2 ^ 64 + 2 - unat w)"

lemma stepsToRange_less:
  assumes "stepsToRange w \<noteq> 0"
  shows "stepsToRange (w + 1) < stepsToRange w"
proof (cases "w = - 1")
  case True
  then show ?thesis by (simp add: stepsToRange_def unat_max)
next
  case False
  have "unat w < 2 ^ LENGTH(64)" by (rule unsigned_less)
  with False assms show ?thesis by (auto simp: stepsToRange_def unat_succ split: if_splits)
qed

lemma estimateTCP_returns:
  assumes "numConnections c = 2"
  shows "\<exists>c'. estimateTCP c = Some c' \<and> numConnections c' = 2"
  using assms
proof (induction "(unat (ackedPacketsCount c), stepsToRange (estimatedTCPcongestionWindow c))" arbitrary: c
    rule: wf_induct_rule [OF wf_lex_prod [OF wf_less wf_less]])
  case (1 c)
  define c1 where "c1 = c\<lparr>ackedPacketsCount := ackedPacketsCount c - requiredAckCount c,
    estimatedTCPcongestionWindow := estimatedTCPcongestionWindow c + 1\<rparr>"
  show ?case
  proof (cases "ackedPacketsCount c < requiredAckCount c")
    case True
    then show ?thesis using 1(2) by (simp add: estimateTCP.simps)
  next
    case False
    then have acked: "unat (ackedPacketsCount c1) = unat (ackedPacketsCount c) - unat (requiredAckCount c)"
      "unat (requiredAckCount c) \<le> unat (ackedPacketsCount c)"
      by (simp_all add: c1_def unat_sub_if' word_less_nat_alt)
    have "unat (ackedPacketsCount c1) < unat (ackedPacketsCount c) \<or>
      unat (ackedPacketsCount c1) = unat (ackedPacketsCount c) \<and>
        stepsToRange (estimatedTCPcongestionWindow c1) < stepsToRange (estimatedTCPcongestionWindow c)"
    proof (cases "stepsToRange (estimatedTCPcongestionWindow c) = 0")
      case True
      have "unat (estimatedTCPcongestionWindow c) < 2 ^ LENGTH(64)" by (rule unsigned_less)
      with True have "2 \<le> unat (estimatedTCPcongestionWindow c)" "unat (estimatedTCPcongestionWindow c) < 2 ^ 63"
        by (auto simp: stepsToRange_def split: if_splits)
      from requiredAckCount_pos [OF 1(2) this] acked show ?thesis by linarith
    next
      case False
      then show ?thesis using stepsToRange_less acked by (auto simp: c1_def)
    qed
    then have "\<exists>c'. estimateTCP c1 = Some c' \<and> numConnections c' = 2"
      by (intro 1(1)) (use 1(2) in \<open>auto simp: c1_def\<close>)
    then show ?thesis using False by (subst estimateTCP.simps) (simp add: c1_def)
  qed
qed

lemma startEpoch_connections [simp]: "numConnections (startEpoch cbrt now w c) = numConnections c"
  by (auto simp: startEpoch_def Let_def)

lemma CongestionWindowAfterAck_returns:
  assumes "numConnections c = 2"
  shows "\<exists>w c'. CongestionWindowAfterAck cbrt now cwnd d c = Some (w, c') \<and> numConnections c' = 2"
proof -
  let ?c = "c\<lparr>ackedPacketsCount := ackedPacketsCount c + 1, lastCongestionWindow := cwnd, lastUpdateTime := now\<rparr>"
  obtain c' where "estimateTCP (startEpoch cbrt now cwnd ?c) = Some c'" "numConnections c' = 2"
    using estimateTCP_returns [of "startEpoch cbrt now cwnd ?c"] assms by auto
  then show ?thesis using assms unfolding CongestionWindowAfterAck_def Let_def by simp
qed

definition cubic_ok :: "cubicSender \<Rightarrow> bool" where
  "cubic_ok c \<longleftrightarrow> numConnections (cubic c) = 2 \<and> sender_numConnections c = 2 \<and> \<not> slowStartLargeReduction c \<and>
     congestionWindow c \<le> DefaultMaxWindow \<and> maxTCPCongestionWindow c = DefaultMaxWindow \<and> minCongestionWindow c = 2 \<and>
     initialCongestionWindow c = InitialCongestionWindow \<and> initialMaxCongestionWindow c = DefaultMaxWindow"

lemma cubic_ok_keeps [simp]:
  "cubic_ok (c\<lparr>hybridSlowStart := x1\<rparr>) = cubic_ok c" "cubic_ok (c\<lparr>prr := x2\<rparr>) = cubic_ok c"
  "cubic_ok (c\<lparr>stats := x3\<rparr>) = cubic_ok c" "cubic_ok (c\<lparr>largestSentPacketNumber := x4\<rparr>) = cubic_ok c"
  "cubic_ok (c\<lparr>largestAckedPacketNumber := x5\<rparr>) = cubic_ok c" "cubic_ok (c\<lparr>largestSentAtLastCutback := x6\<rparr>) = cubic_ok c"
  "cubic_ok (c\<lparr>slowstartThreshold := x7\<rparr>) = cubic_ok c" "cubic_ok (c\<lparr>lastCutbackExitedSlowstart := x8\<rparr>) = cubic_ok c"
  "cubic_ok (c\<lparr>congestionWindowCount := x9\<rparr>) = cubic_ok c"
  by (simp_all add: cubic_ok_def)

lemma word_inc_le:
  assumes "w < DefaultMaxWindow"
  shows "1 \<le> w + 1" "w + 1 \<le> DefaultMaxWindow"
proof -
  have "unat w < 2500" using assms by (simp add: word_less_nat_alt DefaultMaxWindow_def)
  then have "unat (w + 1) = unat w + 1" "unat w < 2500" by (simp_all add: unat_add_noov)
  then show "1 \<le> w + 1" "w + 1 \<le> DefaultMaxWindow" by (simp_all add: word_le_nat_alt DefaultMaxWindow_def)
qed

lemma maybeIncreaseCwnd_returns:
  assumes "cubic_ok c"
  shows "\<exists>c'. maybeIncreaseCwnd cbrt now rs n c = Some c' \<and> cubic_ok c'"
proof -
  obtain w cub where w: "CongestionWindowAfterAck cbrt now (congestionWindow c) (minRTT rs) (cubic c) = Some (w, cub)"
    "numConnections cub = 2"
    using CongestionWindowAfterAck_returns [of "cubic c" cbrt now "congestionWindow c" "minRTT rs"] assms
    by (auto simp: cubic_ok_def)
  then have new: "cubic_ok (c\<lparr>cubic := cub, congestionWindow := min (maxTCPCongestionWindow c) w\<rparr>)"
    using assms by (simp add: cubic_ok_def)
  have inc: "cubic_ok (c\<lparr>congestionWindow := congestionWindow c + 1\<rparr>)" if "congestionWindow c < maxTCPCongestionWindow c"
    using that assms word_inc_le [of "congestionWindow c"] by (simp add: cubic_ok_def)
  then have "cubic_ok (c\<lparr>congestionWindowCount := 0, congestionWindow := congestionWindow c + 1\<rparr>)"
    if "congestionWindow c < maxTCPCongestionWindow c" using that by (simp add: cubic_ok_def)
  then show ?thesis using assms w(1) new inc
    by (auto simp: maybeIncreaseCwnd_def Let_def not_le cubic_ok_def OnApplicationLimited_def)
qed

lemma OnPacketAcked_returns:
  assumes "cubic_ok c"
  shows "\<exists>c'. OnPacketAcked cbrt now rs p a n c = Some c' \<and> cubic_ok c'"
proof -
  let ?c = "c\<lparr>largestAckedPacketNumber := max p (largestAckedPacketNumber c)\<rparr>"
  obtain c' where "maybeIncreaseCwnd cbrt now rs n ?c = Some c'" "cubic_ok c'"
    using maybeIncreaseCwnd_returns [of ?c cbrt now rs n] assms by auto
  then show ?thesis using assms by (simp add: OnPacketAcked_def Let_def)
qed

lemma finishCutback_cubic: "cubic_ok c \<Longrightarrow> cubic_ok (finishCutback c)"
  by (auto simp: finishCutback_def Let_def cubic_ok_def DefaultMaxWindow_def)

lemma OnPacketLost_cubic:
  assumes "cubic_ok c"
  shows "cubic_ok (OnPacketLost p l n c)"
proof (cases "p \<le> largestSentAtLastCutback c")
  case True
  then show ?thesis using assms by (auto simp: OnPacketLost_def lossInSameEvent_def Let_def) (simp_all add: cubic_ok_def)
next
  case False
  define b where "b = beginCutback n c"
  have b: "cubic_ok b" using assms by (simp add: b_def beginCutback_def Let_def)
  obtain w cub where w: "CongestionWindowAfterPacketLoss (congestionWindow b) (cubic b) = (w, cub)" by fastforce
  have "w \<le> DefaultMaxWindow" "numConnections cub = 2"
    using b scaled_window [OF _ cubic_two(1,2), of "congestionWindow b" "cub"] w
    by (auto simp: CongestionWindowAfterPacketLoss_def Let_def cubic_ok_def cubic_beta_def split: if_splits)
  then have "cubic_ok (b\<lparr>cubic := cub, congestionWindow := w\<rparr>)" using b by (simp add: cubic_ok_def)
  moreover have "cubic_ok (b\<lparr>congestionWindow := word_of_int (truncRat (float32 (float32 (of_int (uint (congestionWindow b))) * RenoBeta b)))\<rparr>)"
    using b scaled_window [OF _ RenoBeta_two, of "congestionWindow b" b] by (simp add: cubic_ok_def)
  moreover have "\<not> slowStartLargeReduction b" using b by (simp add: cubic_ok_def)
  ultimately show ?thesis using False by (simp add: OnPacketLost_def b_def [symmetric] Let_def w finishCutback_cubic)
qed

text \<open>Any sequence of the events a sender is told about.\<close>

inductive cubic_run :: "cubicSender \<Rightarrow> bool" where
  c_start: "cubic_run (NewCubicSender r InitialCongestionWindow DefaultMaxWindow)"
| c_sent: "cubic_run c \<Longrightarrow> cubic_run (OnPacketSent p n r c)"
| c_exit: "cubic_run c \<Longrightarrow> cubic_run (MaybeExitSlowStart rs c)"
| c_acked: "cubic_run c \<Longrightarrow> OnPacketAcked cbrt now rs p a n c = Some c' \<Longrightarrow> cubic_run c'"
| c_lost: "cubic_run c \<Longrightarrow> cubic_run (OnPacketLost p l n c)"
| c_timeout: "cubic_run c \<Longrightarrow> cubic_run (OnRetransmissionTimeout r c)"
| c_migrated: "cubic_run c \<Longrightarrow> cubic_run (cubic_OnConnectionMigration c)"

lemma cubic_run_ok: "cubic_run c \<Longrightarrow> cubic_ok c"
proof (induction rule: cubic_run.induct)
  case (c_exit c rs)
  then show ?case by (auto simp: MaybeExitSlowStart_def ExitSlowstart_def Let_def split: prod.splits)
next
  case (c_acked c cbrt now rs p a n c')
  then show ?case using OnPacketAcked_returns [of c cbrt now rs p a n] by auto
next
  case (c_sent c p n r)
  then show ?case by (simp add: OnPacketSent_def Let_def)
qed (auto simp: OnPacketLost_cubic,
  auto simp: cubic_ok_def NewCubicSender_def NewCubic_def InitialCongestionWindow_def DefaultMaxWindow_def
    defaultMinimumCongestionWindow_def defaultNumConnections_def OnRetransmissionTimeout_def Let_def cubic_Reset_def
    cubic_OnConnectionMigration_def sender_OnConnectionMigration_def)

text \<open>
  C18. the CUBIC sender handles every acknowledgement. Whatever has been sent, acknowledged, lost or timed out
  before, and whatever the clock shows, the loop that follows the estimated TCP window ends, for any
  implementation of the cube root; and the window stays within 2500 packets.
\<close>

theorem cubic_ack_terminates:
  assumes "cubic_run c"
  shows "\<exists>c'. OnPacketAcked cbrt now rs p a n c = Some c' \<and> cubic_run c' \<and> unat (congestionWindow c') \<le> 2500"
proof -
  obtain c' where c': "OnPacketAcked cbrt now rs p a n c = Some c'"
    using OnPacketAcked_returns [OF cubic_run_ok [OF assms]] by blast
  have "cubic_run c'" using c_acked [OF assms c'] .
  with cubic_run_ok [OF this] c' show ?thesis by (simp add: cubic_ok_def DefaultMaxWindow_def word_le_nat_alt)
qed

theorem cubic_ack_terminates_witness:
  "\<exists>c'. OnPacketAcked (\<lambda>x. x) 5 NewRTTStats 3 1000 60000 (OnPacketLost 2 1000 60000 (NewCubicSender False InitialCongestionWindow DefaultMaxWindow)) = Some c'"
  using cubic_ack_terminates [OF c_lost [OF c_start]] by blast

end
