(* ===== verification/Olia.thy ===== *)
theory Olia
  imports Congestion
begin

text \<open>
  The coupled congestion control of the paths after the first, \<^verbatim>\<open>congestion/olia.go\<close> and
  \<^verbatim>\<open>congestion/olia_sender.go\<close>. The senders of all paths share one map; a method of the sender of path \<open>pid\<close>
  takes that map and returns it changed. \<open>rttStats\<close> gives the statistics of each path.
\<close>

section \<open>The OLIA algorithm\<close>

definition olia_scale :: nat where "olia_scale = 10"

record Olia =
  loss1 :: ByteCount
  loss2 :: ByteCount
  loss3 :: ByteCount
  epsilonNum :: int
  epsilonDen :: u32
  sndCwndCnt :: int

definition NewOlia :: "ByteCount \<Rightarrow> Olia" where
  "NewOlia ackedBytes = \<lparr>loss1 = ackedBytes, loss2 = ackedBytes, loss3 = ackedBytes, epsilonNum = 0, epsilonDen = 1,
     sndCwndCnt = 0\<rparr>"

definition oliaScale :: "u64 \<Rightarrow> u64" where
  "oliaScale val = push_bit olia_scale val"

definition olia_Reset :: "Olia \<Rightarrow> Olia" where
  "olia_Reset o' = \<lparr>loss1 = 0, loss2 = 0, loss3 = 0, epsilonNum = 0, epsilonDen = 1, sndCwndCnt = 0\<rparr>"

definition SmoothedBytesBetweenLosses :: "Olia \<Rightarrow> ByteCount" where
  "SmoothedBytesBetweenLosses o' = max (loss3 o' - loss2 o') (loss2 o' - loss1 o')"

definition UpdateAckedSinceLastLoss :: "ByteCount \<Rightarrow> Olia \<Rightarrow> Olia" where
  "UpdateAckedSinceLastLoss ackedBytes o' = o'\<lparr>loss3 := loss3 o' + ackedBytes\<rparr>"

definition olia_loss :: "Olia \<Rightarrow> Olia" where
  "olia_loss o' = o'\<lparr>loss1 := loss2 o', loss2 := loss3 o'\<rparr>"

text \<open>The increase, or decrease, in units of \<open>2 ^ 10\<close> per packet; all products are taken modulo \<open>2 ^ 64\<close>.\<close>

definition olia_increment :: "PacketNumber \<Rightarrow> ByteCount \<Rightarrow> u64 \<Rightarrow> Olia \<Rightarrow> int" where
  "olia_increment cwnd rate cwndScaled o' =
     (let den = ucast (epsilonDen o') :: u64;
          incDen = den * cwnd * rate;
          incDen = (if incDen = 0 then 1 else incDen);
          square = den * cwndScaled * cwndScaled
      in if epsilonNum o' = -1 then
           (if square < rate then - sint (oliaScale (rate - square) div incDen)
            else sint (oliaScale (square - rate) div incDen))
         else sint (oliaScale (word_of_int (epsilonNum o') * rate + square) div incDen))"

definition olia_CongestionWindowAfterAck :: "PacketNumber \<Rightarrow> ByteCount \<Rightarrow> u64 \<Rightarrow> Olia \<Rightarrow> PacketNumber \<times> Olia" where
  "olia_CongestionWindowAfterAck cwnd rate cwndScaled o' =
     (let o' = o'\<lparr>sndCwndCnt := int64 (sndCwndCnt o' + olia_increment cwnd rate cwndScaled o')\<rparr> in
      if sndCwndCnt o' \<ge> 2 ^ olia_scale - 1 then (cwnd + 1, o'\<lparr>sndCwndCnt := 0\<rparr>)
      else if sndCwndCnt o' \<le> - (2 ^ olia_scale) + 1 then (max 1 (cwnd - 1), o'\<lparr>sndCwndCnt := 0\<rparr>)
      else (cwnd, o'))"

section \<open>The sender\<close>

record OliaSender = sender +
  olia :: Olia

type_synonym oliaSenders = "(PathID, OliaSender) mapping"

definition NewOliaSender :: "PacketNumber \<Rightarrow> PacketNumber \<Rightarrow> OliaSender" where
  "NewOliaSender initialWindow initialMax = \<lparr>hybridSlowStart = zeroHybridSlowStart, prr = zeroPrrSender,
     stats = \<lparr>slowstartPacketsLost = 0, slowstartBytesLost = 0\<rparr>, largestSentPacketNumber = 0,
     largestAckedPacketNumber = 0, largestSentAtLastCutback = 0, congestionWindow = initialWindow,
     slowstartThreshold = initialMax, lastCutbackExitedSlowstart = False, slowStartLargeReduction = False,
     minCongestionWindow = defaultMinimumCongestionWindow, maxTCPCongestionWindow = initialMax,
     sender_numConnections = defaultNumConnections, congestionWindowCount = 0,
     initialCongestionWindow = initialWindow, initialMaxCongestionWindow = initialMax, olia = NewOlia 0\<rparr>"

text \<open>The methods that are those of \<^verbatim>\<open>cubicSender\<close>.\<close>

definition olia_TimeUntilSend :: "ByteCount \<Rightarrow> OliaSender \<Rightarrow> Duration" where
  "olia_TimeUntilSend = TimeUntilSend"

definition olia_OnPacketSent :: "PacketNumber \<Rightarrow> ByteCount \<Rightarrow> bool \<Rightarrow> OliaSender \<Rightarrow> OliaSender" where
  "olia_OnPacketSent = OnPacketSent"

definition olia_MaybeExitSlowStart :: "RTTStats \<Rightarrow> OliaSender \<Rightarrow> OliaSender" where
  "olia_MaybeExitSlowStart = MaybeExitSlowStart"

definition olia_isCwndLimited :: "ByteCount \<Rightarrow> OliaSender \<Rightarrow> bool" where
  "olia_isCwndLimited = isCwndLimited"

definition olia_InRecovery :: "OliaSender \<Rightarrow> bool" where
  "olia_InRecovery = InRecovery"

definition olia_InSlowStart :: "OliaSender \<Rightarrow> bool" where
  "olia_InSlowStart = InSlowStart"

definition olia_RenoBeta :: "OliaSender \<Rightarrow> rat" where
  "olia_RenoBeta = RenoBeta"

definition olia_RetransmissionDelay :: "RTTStats \<Rightarrow> Duration" where
  "olia_RetransmissionDelay = RetransmissionDelay"

text \<open>The senders in the order of their path identifiers, where the order of the iteration does not matter.\<close>

definition senderList :: "oliaSenders \<Rightarrow> (PathID \<times> OliaSender) list" where
  "senderList m = map (\<lambda>pid. (pid, the (Mapping.lookup m pid))) (Mapping.ordered_keys m)"

definition getMaxCwnd :: "oliaSenders \<Rightarrow> PacketNumber" where
  "getMaxCwnd m = foldl (\<lambda>best (pid, os). max best (congestionWindow os)) 0 (senderList m)"

definition getRate :: "(PathID \<Rightarrow> RTTStats) \<Rightarrow> oliaSenders \<Rightarrow> Duration \<Rightarrow> ByteCount" where
  "getRate rttStats m pathRTT =
     (let rate = foldl (\<lambda>rate (pid, os).
            let scaledNum = oliaScale (congestionWindow os) * word_of_int pathRTT in
            if smoothedRTT (rttStats pid) \<noteq> 0 then rate + scaledNum div word_of_int (smoothedRTT (rttStats pid)) else rate)
          1 (senderList m)
      in rate * rate)"

text \<open>
  The comparison of two paths by bytes between losses over the square of the round-trip time, with the
  wrap-around of the signed 64-bit products.
\<close>

definition squaredRTT :: "RTTStats \<Rightarrow> Duration" where
  "squaredRTT r = int64 (smoothedRTT r * smoothedRTT r)"

definition atLeastAsGood :: "ByteCount \<Rightarrow> Duration \<Rightarrow> ByteCount \<Rightarrow> Duration \<Rightarrow> bool" where
  "atLeastAsGood tmpBytes tmpRTT bestBytes bestRTT \<longleftrightarrow>
     int64 (sint tmpBytes * bestRTT) \<ge> int64 (sint bestBytes * tmpRTT)"

fun bestPath :: "(PathID \<Rightarrow> RTTStats) \<Rightarrow> oliaSenders \<Rightarrow> PathID list \<Rightarrow> ByteCount \<Rightarrow> Duration \<Rightarrow> ByteCount \<times> Duration" where
  "bestPath rttStats m [] bestBytes bestRTT = (bestBytes, bestRTT)"
| "bestPath rttStats m (pid # pids) bestBytes bestRTT =
     (case Mapping.lookup m pid of None \<Rightarrow> bestPath rttStats m pids bestBytes bestRTT
      | Some os \<Rightarrow>
          let tmpRTT = squaredRTT (rttStats pid); tmpBytes = SmoothedBytesBetweenLosses (olia os) in
          if atLeastAsGood tmpBytes tmpRTT bestBytes bestRTT then bestPath rttStats m pids tmpBytes tmpRTT
          else bestPath rttStats m pids bestBytes bestRTT)"

text \<open>\<open>order\<close> is the order in which the loop for the best path meets the senders.\<close>

definition getEpsilon :: "(PathID \<Rightarrow> RTTStats) \<Rightarrow> PathID list \<Rightarrow> oliaSenders \<Rightarrow> oliaSenders" where
  "getEpsilon rttStats order m =
     (let maxCwnd = getMaxCwnd m;
          (bestBytes, bestRTT) = bestPath rttStats m order 0 0;
          best = (\<lambda>pid os. atLeastAsGood (SmoothedBytesBetweenLosses (olia os)) (squaredRTT (rttStats pid)) bestBytes bestRTT);
          M = of_nat (length (filter (\<lambda>(pid, os). congestionWindow os = maxCwnd) (senderList m))) :: byte;
          BNotM = of_nat (length (filter (\<lambda>(pid, os). congestionWindow os \<noteq> maxCwnd \<and> best pid os) (senderList m))) :: byte;
          n = of_nat (Mapping.size m) :: u32
      in Mapping.map_values (\<lambda>pid os.
           os\<lparr>olia :=
             (if BNotM = 0 then (olia os)\<lparr>epsilonNum := 0, epsilonDen := 1\<rparr>
              else if congestionWindow os < maxCwnd \<and> best pid os then (olia os)\<lparr>epsilonNum := 1, epsilonDen := n * ucast BNotM\<rparr>
              else if congestionWindow os = maxCwnd then (olia os)\<lparr>epsilonNum := -1, epsilonDen := n * ucast M\<rparr>
              else (olia os)\<lparr>epsilonNum := 0, epsilonDen := 1\<rparr>)\<rparr>) m)"

text \<open>The growth of the window outside slow start; the sender itself is one of the map.\<close>

definition growWindow :: "ByteCount \<Rightarrow> OliaSender \<Rightarrow> OliaSender" where
  "growWindow rate os =
     (let cwndScaled = oliaScale (congestionWindow os);
          (w, o') = olia_CongestionWindowAfterAck (congestionWindow os) rate cwndScaled (olia os)
      in os\<lparr>olia := o', congestionWindow := min (maxTCPCongestionWindow os) w\<rparr>)"

definition olia_maybeIncreaseCwnd ::
    "(PathID \<Rightarrow> RTTStats) \<Rightarrow> PathID list \<Rightarrow> PathID \<Rightarrow> ByteCount \<Rightarrow> oliaSenders \<Rightarrow> oliaSenders" where
  "olia_maybeIncreaseCwnd rttStats order pid bytesInFlight m =
     (case Mapping.lookup m pid of None \<Rightarrow> m
      | Some os \<Rightarrow>
          if \<not> olia_isCwndLimited bytesInFlight os then m
          else if congestionWindow os \<ge> maxTCPCongestionWindow os then m
          else if olia_InSlowStart os then Mapping.update pid (os\<lparr>congestionWindow := congestionWindow os + 1\<rparr>) m
          else
            let m = getEpsilon rttStats order m;
                rate = getRate rttStats m (smoothedRTT (rttStats pid))
            in Mapping.map_entry pid (growWindow rate) m)"

definition olia_OnPacketAcked ::
    "(PathID \<Rightarrow> RTTStats) \<Rightarrow> PathID list \<Rightarrow> PathID \<Rightarrow> PacketNumber \<Rightarrow> ByteCount \<Rightarrow> ByteCount \<Rightarrow> oliaSenders \<Rightarrow> oliaSenders" where
  "olia_OnPacketAcked rttStats order pid ackedPacketNumber ackedBytes bytesInFlight m =
     (case Mapping.lookup m pid of None \<Rightarrow> m
      | Some os \<Rightarrow>
          let os = os\<lparr>largestAckedPacketNumber := max ackedPacketNumber (largestAckedPacketNumber os)\<rparr> in
          if olia_InRecovery os then Mapping.update pid (os\<lparr>prr := prr_OnPacketAcked ackedBytes (prr os)\<rparr>) m
          else
            let os = os\<lparr>olia := UpdateAckedSinceLastLoss ackedBytes (olia os)\<rparr>;
                m = olia_maybeIncreaseCwnd rttStats order pid bytesInFlight (Mapping.update pid os m)
            in Mapping.map_entry pid (\<lambda>os.
                 if olia_InSlowStart os
                 then os\<lparr>hybridSlowStart := hss_OnPacketAcked ackedPacketNumber (hybridSlowStart os)\<rparr> else os) m)"

definition olia_OnPacketLost :: "PacketNumber \<Rightarrow> ByteCount \<Rightarrow> ByteCount \<Rightarrow> OliaSender \<Rightarrow> OliaSender" where
  "olia_OnPacketLost packetNumber lostBytes bytesInFlight os =
     (if packetNumber \<le> largestSentAtLastCutback os then lossInSameEvent lostBytes os
      else
        let os = beginCutback bytesInFlight os;
            os = os\<lparr>olia := olia_loss (olia os)\<rparr>;
            os = (if slowStartLargeReduction os \<and> olia_InSlowStart os
                  then os\<lparr>congestionWindow := congestionWindow os - 1\<rparr>
                  else os\<lparr>congestionWindow :=
                         word_of_int (truncRat (float32 (float32 (of_int (uint (congestionWindow os))) * olia_RenoBeta os)))\<rparr>)
        in finishCutback os)"

definition olia_SetNumEmulatedConnections :: "int \<Rightarrow> OliaSender \<Rightarrow> OliaSender" where
  "olia_SetNumEmulatedConnections n os = os\<lparr>sender_numConnections := max n 1\<rparr>"

definition olia_OnRetransmissionTimeout :: "bool \<Rightarrow> OliaSender \<Rightarrow> OliaSender" where
  "olia_OnRetransmissionTimeout packetsRetransmitted os =
     (let os = os\<lparr>largestSentAtLastCutback := 0\<rparr> in
      if \<not> packetsRetransmitted then os
      else os\<lparr>hybridSlowStart := Restart (hybridSlowStart os), olia := olia_Reset (olia os),
              slowstartThreshold := congestionWindow os div 2, congestionWindow := minCongestionWindow os\<rparr>)"

definition olia_OnConnectionMigration :: "OliaSender \<Rightarrow> OliaSender" where
  "olia_OnConnectionMigration os = (sender_OnConnectionMigration os)\<lparr>olia := olia_Reset (olia os)\<rparr>"

definition olia_SetSlowStartLargeReduction :: "bool \<Rightarrow> OliaSender \<Rightarrow> OliaSender" where
  "olia_SetSlowStartLargeReduction = SetSlowStartLargeReduction"

section \<open>Bounds of the window\<close>

definition sender_ok :: "'a sender_scheme \<Rightarrow> bool" where
  "sender_ok c \<longleftrightarrow> 1 \<le> congestionWindow c \<and> congestionWindow c \<le> DefaultMaxWindow \<and> minCongestionWindow c = 2 \<and>
     maxTCPCongestionWindow c = DefaultMaxWindow \<and> initialCongestionWindow c = InitialCongestionWindow \<and>
     initialMaxCongestionWindow c = DefaultMaxWindow \<and> sender_numConnections c = 2"

lemma sender_ok_intro: "sender_ok c \<Longrightarrow> 1 \<le> w \<Longrightarrow> w \<le> DefaultMaxWindow \<Longrightarrow> sender_ok (c\<lparr>congestionWindow := w\<rparr>)"
  by (simp add: sender_ok_def)

lemma sender_ok_keeps [simp]:
  "sender_ok (c\<lparr>hybridSlowStart := x1\<rparr>) = sender_ok c" "sender_ok (c\<lparr>prr := x2\<rparr>) = sender_ok c"
  "sender_ok (c\<lparr>stats := x3\<rparr>) = sender_ok c" "sender_ok (c\<lparr>largestSentPacketNumber := x4\<rparr>) = sender_ok c"
  "sender_ok (c\<lparr>largestAckedPacketNumber := x5\<rparr>) = sender_ok c" "sender_ok (c\<lparr>largestSentAtLastCutback := x6\<rparr>) = sender_ok c"
  "sender_ok (c\<lparr>slowstartThreshold := x7\<rparr>) = sender_ok c" "sender_ok (c\<lparr>lastCutbackExitedSlowstart := x8\<rparr>) = sender_ok c"
  "sender_ok (c\<lparr>congestionWindowCount := x9\<rparr>) = sender_ok c" "sender_ok (c\<lparr>slowStartLargeReduction := x10\<rparr>) = sender_ok c"
  by (simp_all add: sender_ok_def)

lemma sender_ok_olia [simp]: "sender_ok (os\<lparr>olia := x\<rparr>) = sender_ok os"
  by (simp add: sender_ok_def)

lemma word_dec_le: "1 \<le> (w :: u64) \<Longrightarrow> w \<le> m \<Longrightarrow> w - 1 \<le> m"
  by (auto simp: word_le_nat_alt unat_sub_if')

lemma lossInSameEvent_ok: "sender_ok c \<Longrightarrow> sender_ok (lossInSameEvent lostBytes c)"
  by (auto simp: lossInSameEvent_def Let_def DefaultMaxWindow_def intro!: sender_ok_intro)
     (auto simp: sender_ok_def DefaultMaxWindow_def le_max_iff_disj intro: word_dec_le)

lemma finishCutback_ok:
  assumes "sender_ok c" "w \<le> DefaultMaxWindow"
  shows "sender_ok (finishCutback (c\<lparr>congestionWindow := w\<rparr>))"
proof -
  have "1 \<le> w" if "\<not> w < 2" using that by (auto simp: word_le_nat_alt word_less_nat_alt)
  then show ?thesis using assms by (auto simp: finishCutback_def Let_def sender_ok_def DefaultMaxWindow_def)
qed

lemma beginCutback_ok: "sender_ok c \<Longrightarrow> sender_ok (beginCutback n c)"
  by (simp add: beginCutback_def Let_def)

lemma olia_OnPacketLost_ok:
  assumes "sender_ok os"
  shows "sender_ok (olia_OnPacketLost p l n os)"
proof (cases "p \<le> largestSentAtLastCutback os")
  case False
  define c where "c = (beginCutback n os)\<lparr>olia := olia_loss (olia (beginCutback n os))\<rparr>"
  have c: "sender_ok c" using assms by (simp add: c_def beginCutback_ok)
  then have w: "congestionWindow c - 1 \<le> DefaultMaxWindow" "congestionWindow c \<le> DefaultMaxWindow" "sender_numConnections c = 2"
    by (auto simp: sender_ok_def intro: word_dec_le)
  then show ?thesis
    using False scaled_window [OF w(2) RenoBeta_two [OF w(3)]] finishCutback_ok [OF c]
    by (auto simp: olia_OnPacketLost_def Let_def c_def [symmetric] olia_RenoBeta_def)
qed (use assms in \<open>simp add: olia_OnPacketLost_def lossInSameEvent_ok\<close>)

definition senders_ok :: "oliaSenders \<Rightarrow> bool" where
  "senders_ok m \<longleftrightarrow> (\<forall>pid os. Mapping.lookup m pid = Some os \<longrightarrow> sender_ok os)"

lemma senders_ok_update: "senders_ok m \<Longrightarrow> sender_ok os \<Longrightarrow> senders_ok (Mapping.update pid os m)"
  by (auto simp: senders_ok_def lookup_update')

lemma senders_ok_entry:
  assumes "senders_ok m" "\<And>os. sender_ok os \<Longrightarrow> sender_ok (f os)"
  shows "senders_ok (Mapping.map_entry pid f m)"
  using assms by (auto simp: senders_ok_def lookup_map_entry' split: if_splits)

lemma lookup_getEpsilon:
  "\<exists>X. \<forall>pid. Mapping.lookup (getEpsilon rtts order m) pid = map_option (\<lambda>os. os\<lparr>olia := X pid os\<rparr>) (Mapping.lookup m pid)"
proof -
  obtain bestBytes bestRTT where b: "bestPath rtts m order 0 0 = (bestBytes, bestRTT)" by fastforce
  show ?thesis unfolding getEpsilon_def b Let_def prod.case lookup_map_values by (rule exI, rule allI, rule refl)
qed

lemma getEpsilon_ok:
  assumes "senders_ok m"
  shows "senders_ok (getEpsilon rtts order m)"
  using lookup_getEpsilon [of rtts order m] assms by (auto simp: senders_ok_def)

lemma olia_window_after_ack:
  assumes "1 \<le> cwnd" "cwnd < DefaultMaxWindow"
  shows "1 \<le> fst (olia_CongestionWindowAfterAck cwnd rate scaled o')"
proof -
  have "fst (olia_CongestionWindowAfterAck cwnd rate scaled o') \<in> {cwnd + 1, max 1 (cwnd - 1), cwnd}"
    unfolding olia_CongestionWindowAfterAck_def Let_def by simp
  then show ?thesis using assms(1) word_inc_le(1) [OF assms(2)] by auto
qed

lemma growWindow_ok:
  assumes "sender_ok os" "congestionWindow os < maxTCPCongestionWindow os"
  shows "sender_ok (growWindow rate os)"
proof -
  obtain w o' where w: "olia_CongestionWindowAfterAck (congestionWindow os) rate (oliaScale (congestionWindow os)) (olia os) = (w, o')"
    by fastforce
  have "1 \<le> congestionWindow os" "congestionWindow os < DefaultMaxWindow" using assms by (auto simp: sender_ok_def)
  from olia_window_after_ack [OF this, of rate "oliaScale (congestionWindow os)" "olia os"] have "1 \<le> w" by (simp add: w)
  then show ?thesis using assms(1) by (simp add: growWindow_def w sender_ok_def DefaultMaxWindow_def)
qed

lemma olia_maybeIncreaseCwnd_ok:
  assumes "senders_ok m"
  shows "senders_ok (olia_maybeIncreaseCwnd rtts order pid n m)"
proof (cases "Mapping.lookup m pid")
  case (Some os)
  define g where "g = getEpsilon rtts order m"
  have gok: "senders_ok g" using getEpsilon_ok [OF assms] by (simp add: g_def)
  have ok: "sender_ok os" using assms Some by (auto simp: senders_ok_def)
  show ?thesis
  proof (cases "congestionWindow os < maxTCPCongestionWindow os")
    case True
    then have "congestionWindow os < DefaultMaxWindow" using ok by (simp add: sender_ok_def)
    then have slow: "senders_ok (Mapping.update pid (os\<lparr>congestionWindow := congestionWindow os + 1\<rparr>) m)"
      by (intro senders_ok_update [OF assms] sender_ok_intro [OF ok] word_inc_le)
    have "sender_ok (growWindow r x)" if "Mapping.lookup g pid = Some x" for x r
    proof (rule growWindow_ok)
      show "sender_ok x" using that gok by (auto simp: senders_ok_def)
      show "congestionWindow x < maxTCPCongestionWindow x"
        using that Some True lookup_getEpsilon [of rtts order m] by (auto simp: g_def)
    qed
    then have "senders_ok (Mapping.map_entry pid (growWindow r) g)" for r
      using gok by (auto simp: senders_ok_def lookup_map_entry' split: if_splits)
    then show ?thesis using Some assms slow by (simp add: olia_maybeIncreaseCwnd_def Let_def g_def [symmetric])
  qed (use Some assms in \<open>simp add: olia_maybeIncreaseCwnd_def not_less\<close>)
qed (use assms in \<open>simp add: olia_maybeIncreaseCwnd_def\<close>)

lemma olia_OnPacketAcked_ok:
  assumes "senders_ok m"
  shows "senders_ok (olia_OnPacketAcked rtts order pid p a n m)"
proof (cases "Mapping.lookup m pid")
  case (Some os)
  then have "sender_ok os" using assms by (auto simp: senders_ok_def)
  then show ?thesis using Some assms
    by (auto simp: olia_OnPacketAcked_def Let_def intro!: senders_ok_entry olia_maybeIncreaseCwnd_ok senders_ok_update)
qed (use assms in \<open>simp add: olia_OnPacketAcked_def\<close>)

text \<open>
  Any sequence of the events a sender is told about, on any number of paths, with any statistics and any order
  of iteration.
\<close>

inductive olia_run :: "oliaSenders \<Rightarrow> bool" where
  o_start: "olia_run Mapping.empty"
| o_path: "olia_run m \<Longrightarrow> olia_run (Mapping.update pid (NewOliaSender InitialCongestionWindow DefaultMaxWindow) m)"
| o_sent: "olia_run m \<Longrightarrow> olia_run (Mapping.map_entry pid (olia_OnPacketSent p n r) m)"
| o_exit: "olia_run m \<Longrightarrow> olia_run (Mapping.map_entry pid (olia_MaybeExitSlowStart rs) m)"
| o_acked: "olia_run m \<Longrightarrow> olia_run (olia_OnPacketAcked rtts order pid p a n m)"
| o_lost: "olia_run m \<Longrightarrow> olia_run (Mapping.map_entry pid (olia_OnPacketLost p l n) m)"
| o_timeout: "olia_run m \<Longrightarrow> olia_run (Mapping.map_entry pid (olia_OnRetransmissionTimeout r) m)"
| o_migrated: "olia_run m \<Longrightarrow> olia_run (Mapping.map_entry pid olia_OnConnectionMigration m)"
| o_reduction: "olia_run m \<Longrightarrow> olia_run (Mapping.map_entry pid (olia_SetSlowStartLargeReduction b) m)"

lemma olia_run_ok: "olia_run m \<Longrightarrow> senders_ok m"
proof (induction rule: olia_run.induct)
  case o_start
  then show ?case by (simp add: senders_ok_def)
next
  case (o_path m pid)
  have "sender_ok (NewOliaSender InitialCongestionWindow DefaultMaxWindow)"
    by (simp add: sender_ok_def NewOliaSender_def InitialCongestionWindow_def DefaultMaxWindow_def
        defaultMinimumCongestionWindow_def defaultNumConnections_def)
  then show ?case using o_path.IH by (rule senders_ok_update [rotated])
next
  case (o_exit m pid rs)
  have "sender_ok (olia_MaybeExitSlowStart rs os)" if "sender_ok os" for os
    using that by (auto simp: olia_MaybeExitSlowStart_def MaybeExitSlowStart_def ExitSlowstart_def Let_def split: prod.splits)
  then show ?case using o_exit.IH by (rule senders_ok_entry [rotated])
qed (auto intro!: senders_ok_entry olia_OnPacketAcked_ok olia_OnPacketLost_ok
  simp: olia_OnPacketSent_def OnPacketSent_def Let_def olia_OnRetransmissionTimeout_def olia_OnConnectionMigration_def
    sender_OnConnectionMigration_def olia_SetSlowStartLargeReduction_def SetSlowStartLargeReduction_def,
  auto simp: sender_ok_def DefaultMaxWindow_def InitialCongestionWindow_def)

text \<open>
  C21. the congestion window of every path stays between one and 2500 packets, whatever is acknowledged, lost or
  timed out on whatever path, so that the window in bytes does not overflow.
\<close>

theorem olia_window_bounds:
  assumes "olia_run m" "Mapping.lookup m pid = Some os"
  shows "1 \<le> unat (congestionWindow os) \<and> unat (congestionWindow os) \<le> 2500 \<and>
    unat (GetCongestionWindow os) = unat (congestionWindow os) * 1460"
proof -
  have "sender_ok os" using olia_run_ok [OF assms(1)] assms(2) by (simp add: senders_ok_def)
  then have "1 \<le> unat (congestionWindow os)" "unat (congestionWindow os) \<le> 2500"
    by (simp_all add: sender_ok_def DefaultMaxWindow_def word_le_nat_alt)
  then show ?thesis by (simp add: GetCongestionWindow_def DefaultTCPMSS_def unat_word_ariths)
qed

text \<open>An example: a path that loses its second packet.\<close>

definition exampleOlia :: oliaSenders where
  "exampleOlia = Mapping.map_entry 1 (olia_OnPacketLost 2 1000 2000) (Mapping.map_entry 1 (olia_OnPacketSent 2 1000 True)
     (Mapping.update 1 (NewOliaSender InitialCongestionWindow DefaultMaxWindow) Mapping.empty))"

theorem olia_window_bounds_witness:
  "\<exists>os. Mapping.lookup exampleOlia 1 = Some os \<and> unat (GetCongestionWindow os) = unat (congestionWindow os) * 1460"
proof -
  have "olia_run exampleOlia" unfolding exampleOlia_def by (intro olia_run.intros)
  then show ?thesis using olia_window_bounds [of exampleOlia 1] by (auto simp: exampleOlia_def lookup_map_entry)
qed

section \<open>The preference for the best paths\<close>

text \<open>
  What OLIA asks for: of the paths in \<open>B\<close>, the best ones, those that do not have one of the largest windows (\<open>M\<close>) are to
  grow, at the expense of the paths in \<open>M\<close>. The two amounts are shared equally within each of the two sets.
\<close>

definition oliaAlpha :: "nat \<Rightarrow> PathID set \<Rightarrow> PathID set \<Rightarrow> PathID \<Rightarrow> rat" where
  "oliaAlpha n B M pid =
     (if B - M = {} then 0 else if pid \<in> B - M then 1 / of_nat (n * card (B - M))
      else if pid \<in> M then - 1 / of_nat (n * card M) else 0)"

abbreviation senderAt :: "oliaSenders \<Rightarrow> PathID \<Rightarrow> OliaSender" where
  "senderAt m pid \<equiv> the (Mapping.lookup m pid)"

abbreviation lossBytes :: "oliaSenders \<Rightarrow> PathID \<Rightarrow> ByteCount" where
  "lossBytes m pid \<equiv> SmoothedBytesBetweenLosses (olia (senderAt m pid))"

definition largestWindows :: "oliaSenders \<Rightarrow> PathID set" where
  "largestWindows m = {pid \<in> Mapping.keys m. \<forall>q \<in> Mapping.keys m. congestionWindow (senderAt m q) \<le> congestionWindow (senderAt m pid)}"

text \<open>A path is as good as its bytes between losses over the square of its round-trip time.\<close>

definition quality :: "(PathID \<Rightarrow> RTTStats) \<Rightarrow> oliaSenders \<Rightarrow> PathID \<Rightarrow> rat" where
  "quality rttStats m pid = of_int (uint (lossBytes m pid)) / of_int (smoothedRTT (rttStats pid) ^ 2)"

definition bestPaths :: "(PathID \<Rightarrow> RTTStats) \<Rightarrow> oliaSenders \<Rightarrow> PathID set" where
  "bestPaths rttStats m = {pid \<in> Mapping.keys m. \<forall>q \<in> Mapping.keys m. quality rttStats m q \<le> quality rttStats m pid}"

text \<open>The value that \<^verbatim>\<open>getEpsilon\<close> leaves in a sender.\<close>

definition epsilon :: "OliaSender \<Rightarrow> rat" where
  "epsilon os = of_int (epsilonNum (olia os)) / of_nat (unat (epsilonDen (olia os)))"

text \<open>The number of paths with a property, as the second loop of \<^verbatim>\<open>getEpsilon\<close> counts them.\<close>

lemma set_senderList: "set (Mapping.ordered_keys m) = Mapping.keys (m :: oliaSenders)"
  by (rule set_ordered_keys) (rule finite)

lemma count_senders:
  "length (filter (\<lambda>(pid, os). P pid os) (senderList m)) = card {pid \<in> Mapping.keys m. P pid (senderAt m pid)}"
proof -
  have "length (filter (\<lambda>(pid, os). P pid os) (senderList m)) =
      length (filter (\<lambda>pid. P pid (senderAt m pid)) (Mapping.ordered_keys m))"
    by (simp add: senderList_def filter_map comp_def)
  also have "\<dots> = card (set (filter (\<lambda>pid. P pid (senderAt m pid)) (Mapping.ordered_keys m)))"
    by (rule distinct_card [symmetric]) simp
  finally show ?thesis by (simp add: set_senderList)
qed

lemma getMaxCwnd_largest:
  assumes "pid \<in> Mapping.keys m"
  shows "congestionWindow (senderAt m pid) \<le> getMaxCwnd m"
    "\<exists>q \<in> Mapping.keys m. getMaxCwnd m = congestionWindow (senderAt m q)"
proof -
  have fold: "foldl (\<lambda>best (pid, os). max best (congestionWindow os)) b xs = fold max (map (\<lambda>(pid, os). congestionWindow os) xs) b"
    for b :: PacketNumber and xs :: "(PathID \<times> OliaSender) list"
    by (induction xs arbitrary: b) (auto simp: max.commute)
  let ?ws = "map (\<lambda>(pid, os). congestionWindow os) (senderList m)" and ?W = "(\<lambda>q. congestionWindow (senderAt m q)) ` Mapping.keys m"
  have "set ?ws = ?W" by (auto simp: senderList_def set_senderList image_image)
  then have max: "getMaxCwnd m = Max (insert 0 ?W)" using Max.set_eq_fold [of 0 ?ws] by (simp add: getMaxCwnd_def fold)
  have "congestionWindow (senderAt m pid) \<in> insert 0 ?W" using assms by blast
  then show "congestionWindow (senderAt m pid) \<le> getMaxCwnd m" unfolding max by (rule Max_ge [rotated]) simp
  have "?W \<noteq> {}" using assms by blast
  then have "Max (insert 0 ?W) = Max ?W" "Max ?W \<in> ?W" by (simp_all add: Max_insert max_def)
  then show "\<exists>q \<in> Mapping.keys m. getMaxCwnd m = congestionWindow (senderAt m q)" unfolding max by auto
qed

lemma largestWindows_max:
  assumes "pid \<in> Mapping.keys m"
  shows "pid \<in> largestWindows m \<longleftrightarrow> congestionWindow (senderAt m pid) = getMaxCwnd m" "largestWindows m \<noteq> {}"
proof -
  obtain q where q: "q \<in> Mapping.keys m" "getMaxCwnd m = congestionWindow (senderAt m q)" using getMaxCwnd_largest(2) [OF assms] by blast
  then show "pid \<in> largestWindows m \<longleftrightarrow> congestionWindow (senderAt m pid) = getMaxCwnd m"
    using assms getMaxCwnd_largest(1) by (fastforce simp: largestWindows_def)
  have "q \<in> largestWindows m" using q getMaxCwnd_largest(1) [of _ m] by (auto simp: largestWindows_def)
  then show "largestWindows m \<noteq> {}" by blast
qed

lemma oliaAlpha_sum:
  assumes "finite K" "B \<subseteq> K" "M \<subseteq> K" "M \<noteq> {}"
  shows "(\<Sum>pid \<in> K. oliaAlpha (card K) B M pid) = 0"
proof (cases "B - M = {}")
  case False
  have fin: "finite (B - M)" "finite M" using assms finite_subset by blast+
  have n: "0 < card K" "0 < card (B - M)" "0 < card M" using assms False fin by (auto simp: card_gt_0_iff)
  have shares: "of_nat a * (1 / of_nat (k * a)) + of_nat b * (- 1 / of_nat (k * b)) = (0 :: rat)" if "0 < k" "0 < a" "0 < b" for k a b :: nat
    using that by simp
  have "(\<Sum>pid \<in> K. oliaAlpha (card K) B M pid) = (\<Sum>pid \<in> (B - M) \<union> M. oliaAlpha (card K) B M pid)"
    using assms by (intro sum.mono_neutral_right) (auto simp: oliaAlpha_def)
  also have "\<dots> = (\<Sum>pid \<in> B - M. 1 / of_nat (card K * card (B - M))) + (\<Sum>pid \<in> M. - 1 / of_nat (card K * card M))"
    using False fin by (subst sum.union_disjoint) (auto simp: oliaAlpha_def intro!: arg_cong2 [where f = "(+)"] sum.cong)
  also have "\<dots> = of_nat (card (B - M)) * (1 / of_nat (card K * card (B - M))) + of_nat (card M) * (- 1 / of_nat (card K * card M))"
    by (simp only: sum_constant)
  also have "\<dots> = 0" by (rule shares [OF n])
  finally show ?thesis .
qed (simp add: oliaAlpha_def)

text \<open>\<^verbatim>\<open>getEpsilon\<close> gives these values for the paths that its comparison takes for the best; its counters do not overflow.\<close>

lemma getEpsilon_alpha:
  assumes "bestPath rttStats m order 0 0 = (bestBytes, bestRTT)"
  defines "B \<equiv> {q \<in> Mapping.keys m. atLeastAsGood (lossBytes m q) (squaredRTT (rttStats q)) bestBytes bestRTT}"
  assumes "pid \<in> Mapping.keys m"
  shows "epsilon (senderAt (getEpsilon rttStats order m) pid) = oliaAlpha (card (Mapping.keys m)) B (largestWindows m) pid"
proof -
  let ?K = "Mapping.keys m" and ?M = "largestWindows m"
  obtain os where os: "Mapping.lookup m pid = Some os" using assms(3) by (auto simp: keys_dom_lookup)
  have sets: "{q \<in> ?K. congestionWindow (senderAt m q) = getMaxCwnd m} = ?M"
    "{q \<in> ?K. congestionWindow (senderAt m q) \<noteq> getMaxCwnd m \<and> atLeastAsGood (lossBytes m q) (squaredRTT (rttStats q)) bestBytes bestRTT} = B - ?M"
    using largestWindows_max(1) by (auto simp: B_def largestWindows_def)
  have "card ?K \<le> card (UNIV :: PathID set)" by (rule card_mono) simp_all
  then have K: "card ?K \<le> 256" by (simp add: card_word)
  have M: "?M \<subseteq> ?K" "?M \<noteq> {}" using largestWindows_max(2) [OF assms(3)] by (auto simp: largestWindows_def)
  have "card (B - ?M \<union> ?M) = card (B - ?M) + card ?M" by (rule card_Un_disjoint) auto
  moreover have "card (B - ?M \<union> ?M) \<le> card ?K" by (rule card_mono) (use M(1) in \<open>auto simp: B_def\<close>)
  moreover have "0 < card ?M" "B - ?M \<noteq> {} \<Longrightarrow> 0 < card (B - ?M)" using M(2) by (simp_all add: card_gt_0_iff)
  ultimately have small: "card (B - ?M) \<le> 255" "B - ?M \<noteq> {} \<Longrightarrow> card ?M \<le> 255" using K by linarith+
  have den: "unat (of_nat (card ?K) * ucast (of_nat k :: byte) :: u32) = card ?K * k" if "k \<le> 255" for k
  proof -
    have "card ?K * k \<le> 256 * 255" using K that by (rule mult_le_mono)
    moreover have "ucast (of_nat k :: byte) = (of_nat k :: u32)" using that by (simp add: word_unat_eq_iff unat_of_nat unat_ucast_up)
    ultimately show ?thesis by (simp add: unat_of_nat flip: of_nat_mult)
  qed
  have zero: "(of_nat (card (B - ?M)) :: byte) = 0 \<longleftrightarrow> B - ?M = {}"
    using small(1) by (auto simp: word_unat_eq_iff unat_of_nat card_eq_0_iff)
  have lt: "congestionWindow os < getMaxCwnd m \<longleftrightarrow> pid \<notin> ?M" "congestionWindow os = getMaxCwnd m \<longleftrightarrow> pid \<in> ?M"
    using largestWindows_max(1) [OF assms(3)] getMaxCwnd_largest(1) [OF assms(3)] os by (auto simp: order_less_le)
  have best: "atLeastAsGood (SmoothedBytesBetweenLosses (olia os)) (squaredRTT (rttStats pid)) bestBytes bestRTT \<longleftrightarrow> pid \<in> B"
    using assms(3) os by (simp add: B_def)
  show ?thesis
    using den [OF small(1)] den [OF small(2)] assms(1) os
    by (simp add: getEpsilon_def Let_def lookup_map_values count_senders sets zero lt best epsilon_def oliaAlpha_def
        Mapping.size_def del: of_nat_unat)
qed

text \<open>
  The comparison is exact as long as the products fit 63 bits. From there on it can be wrong: a path that is better by such a
  product counts as worse.
\<close>

lemma sint_bytes:
  assumes "uint (b :: ByteCount) < 2 ^ 63"
  shows "sint b = uint b"
proof -
  have "int (unat b) < int (2 ^ 63)" using assms by simp
  then have "unat b < 2 ^ 63" by (simp only: of_nat_less_iff)
  then show ?thesis using sint_small [of b] by simp
qed

lemma atLeastAsGood_exact:
  assumes "uint a * s < 2 ^ 63" "uint b * r < 2 ^ 63" "1 \<le> r" "1 \<le> s"
  shows "atLeastAsGood a r b s \<longleftrightarrow> uint b * r \<le> uint a * s"
proof -
  have "uint a * 1 \<le> uint a * s" "uint b * 1 \<le> uint b * r"
    using assms(3,4) by (intro mult_left_mono; simp)+
  then have "uint a < 2 ^ 63" "uint b < 2 ^ 63" using assms(1,2) by linarith+
  then show ?thesis using assms by (simp add: atLeastAsGood_def sint_bytes int64_id)
qed

lemma comparison_overflows:
  assumes "uint a < 2 ^ 63" "2 ^ 63 \<le> uint a * s" "uint a * s < 2 ^ 64" "uint b * r < 2 ^ 63" "1 \<le> r"
  shows "\<not> atLeastAsGood a r b s"
proof -
  have "uint b * 1 \<le> uint b * r" using assms(5) by (intro mult_left_mono) simp_all
  then have b: "uint b < 2 ^ 63" using assms(4) by linarith
  have id: "int64 y = y" if "- (2 ^ 63) \<le> y" "y < 2 ^ 63" for y
    using that by (simp add: int64_def signed_of_int signed_take_bit_int_eq_self)
  have "int64 x = x - 2 ^ 64" if "2 ^ 63 \<le> x" "x < 2 ^ 64" for x
  proof -
    have "(word_of_int x :: u64) = word_of_int (x - 2 ^ 64)" by (simp only: word_of_int_eq_iff) (simp add: take_bit_eq_mod)
    then have "int64 x = int64 (x - 2 ^ 64)" unfolding int64_def by (rule arg_cong)
    also have "\<dots> = x - 2 ^ 64" using that by (intro id) simp_all
    finally show ?thesis .
  qed
  moreover have r: "0 \<le> uint b * r" using assms(5) by simp
  ultimately have "int64 (sint a * s) < 0" "0 \<le> int64 (sint b * r)"
    using assms b by (simp_all add: sint_bytes int64_id)
  then show ?thesis by (simp add: atLeastAsGood_def)
qed

definition exactProducts :: "(PathID \<Rightarrow> RTTStats) \<Rightarrow> oliaSenders \<Rightarrow> bool" where
  "exactProducts rttStats m \<longleftrightarrow> (\<forall>p \<in> Mapping.keys m. let r = smoothedRTT (rttStats p) in
     0 < r \<and> r ^ 2 < 2 ^ 63 \<and> (\<forall>q \<in> Mapping.keys m. uint (lossBytes m q) * r ^ 2 < 2 ^ 63))"

lemma atLeastAsGood_quality:
  assumes "exactProducts rttStats m" "p \<in> Mapping.keys m" "q \<in> Mapping.keys m"
  shows "atLeastAsGood (lossBytes m p) (squaredRTT (rttStats p)) (lossBytes m q) (squaredRTT (rttStats q)) \<longleftrightarrow>
    quality rttStats m q \<le> quality rttStats m p"
proof -
  let ?r = "\<lambda>x. smoothedRTT (rttStats x) ^ 2" and ?b = "\<lambda>x. uint (lossBytes m x)"
  have r: "1 \<le> ?r x" "squaredRTT (rttStats x) = ?r x" if "x \<in> {p, q}" for x
  proof -
    have "0 < smoothedRTT (rttStats x)" "?r x < 2 ^ 63" using assms that by (auto simp: exactProducts_def Let_def)
    moreover from this(1) have pos: "0 < ?r x" by simp
    ultimately show "squaredRTT (rttStats x) = ?r x" using int64_id [of "?r x"] by (simp add: squaredRTT_def power2_eq_square)
    show "1 \<le> ?r x" using pos by linarith
  qed
  have "atLeastAsGood (lossBytes m p) (?r p) (lossBytes m q) (?r q) \<longleftrightarrow> ?b q * ?r p \<le> ?b p * ?r q"
    using assms r(1) by (intro atLeastAsGood_exact) (auto simp: exactProducts_def Let_def)
  also have "\<dots> \<longleftrightarrow> rat_of_int (?b q * ?r p) \<le> rat_of_int (?b p * ?r q)" by (rule of_int_le_iff [symmetric])
  also have "\<dots> \<longleftrightarrow> quality rttStats m q \<le> quality rttStats m p"
  proof -
    have "1 \<le> ?r p" "1 \<le> ?r q" using r(1) by blast+
    then have "0 < rat_of_int (?r p)" "0 < rat_of_int (?r q)" unfolding of_int_0_less_iff by linarith+
    then show ?thesis unfolding quality_def of_int_mult
      by (simp add: pos_divide_le_eq mult.commute pos_le_divide_eq del: of_int_power)
  qed
  finally show ?thesis by (simp add: r(2))
qed

text \<open>So the first loop of \<^verbatim>\<open>getEpsilon\<close> finds a path of the highest quality, in whatever order it meets the paths.\<close>

lemma bestPath_quality:
  assumes "exactProducts rttStats m" "p \<in> Mapping.keys m" "set pids \<subseteq> Mapping.keys m"
  shows "\<exists>b \<in> Mapping.keys m. bestPath rttStats m pids (lossBytes m p) (squaredRTT (rttStats p)) = (lossBytes m b, squaredRTT (rttStats b)) \<and>
    (\<forall>q \<in> insert p (set pids). quality rttStats m q \<le> quality rttStats m b)"
  using assms(2,3)
proof (induction pids arbitrary: p)
  case Nil
  then show ?case by (intro bexI [of _ p]) simp_all
next
  case (Cons x pids)
  have x: "x \<in> Mapping.keys m" "set pids \<subseteq> Mapping.keys m" using Cons.prems(2) by simp_all
  then obtain os where l: "Mapping.lookup m x = Some os" by (auto simp: keys_dom_lookup)
  note g = atLeastAsGood_quality [OF assms(1) x(1) Cons.prems(1)]
  show ?case
  proof (cases "quality rttStats m p \<le> quality rttStats m x")
    case True
    obtain b where "b \<in> Mapping.keys m" "bestPath rttStats m pids (lossBytes m x) (squaredRTT (rttStats x)) = (lossBytes m b, squaredRTT (rttStats b))"
      "\<forall>q \<in> insert x (set pids). quality rttStats m q \<le> quality rttStats m b" using Cons.IH [OF x] by blast
    then show ?thesis using True g by (intro bexI [of _ b]) (auto simp: l Let_def intro: order_trans)
  next
    case False
    obtain b where "b \<in> Mapping.keys m" "bestPath rttStats m pids (lossBytes m p) (squaredRTT (rttStats p)) = (lossBytes m b, squaredRTT (rttStats b))"
      "\<forall>q \<in> insert p (set pids). quality rttStats m q \<le> quality rttStats m b" using Cons.IH [OF Cons.prems(1) x(2)] by blast
    then show ?thesis using False g by (intro bexI [of _ b]) (auto simp: l Let_def)
  qed
qed

lemma bestPath_bestPaths:
  assumes "exactProducts rttStats m" "set order = Mapping.keys m" "bestPath rttStats m order 0 0 = (bestBytes, bestRTT)"
  shows "{q \<in> Mapping.keys m. atLeastAsGood (lossBytes m q) (squaredRTT (rttStats q)) bestBytes bestRTT} = bestPaths rttStats m"
proof (cases order)
  case Nil
  then show ?thesis using assms(2) by (simp add: bestPaths_def)
next
  case (Cons p pids)
  then have p: "p \<in> Mapping.keys m" "set pids \<subseteq> Mapping.keys m" and keys: "insert p (set pids) = Mapping.keys m"
    using assms(2) by auto
  then obtain os where "Mapping.lookup m p = Some os" by (auto simp: keys_dom_lookup)
  then have "bestPath rttStats m pids (lossBytes m p) (squaredRTT (rttStats p)) = (bestBytes, bestRTT)"
    using assms(3) Cons by (simp add: Let_def atLeastAsGood_def)
  then obtain b where b: "b \<in> Mapping.keys m" "bestBytes = lossBytes m b" "bestRTT = squaredRTT (rttStats b)"
    "\<forall>q \<in> Mapping.keys m. quality rttStats m q \<le> quality rttStats m b"
    using bestPath_quality [OF assms(1) p, unfolded keys] by auto
  then have "atLeastAsGood (lossBytes m q) (squaredRTT (rttStats q)) bestBytes bestRTT \<longleftrightarrow>
      quality rttStats m b \<le> quality rttStats m q" if "q \<in> Mapping.keys m" for q
    using atLeastAsGood_quality [OF assms(1) that b(1)] by simp
  then show ?thesis using b(1,4) by (auto simp: bestPaths_def intro: order_trans)
qed

text \<open>
  C40. the preference of OLIA. In whatever state, with whatever round-trip times and in whatever order the paths are met,
  \<^verbatim>\<open>getEpsilon\<close> takes from the paths with the largest window as much as it gives to others, so that the sum over all
  paths is zero, and no counter overflows. As long as the products of the comparison fit 63 bits, the paths that are given
  something are those that OLIA asks for: the ones with the most bytes between losses over the squared round-trip time.
\<close>

theorem olia_epsilon:
  "(\<Sum>pid \<in> Mapping.keys m. epsilon (senderAt (getEpsilon rttStats order m) pid)) = 0 \<and>
   (\<forall>pid \<in> Mapping.keys m. (0 < epsilon (senderAt (getEpsilon rttStats order m) pid) \<longrightarrow> pid \<notin> largestWindows m) \<and>
     (epsilon (senderAt (getEpsilon rttStats order m) pid) < 0 \<longrightarrow> pid \<in> largestWindows m)) \<and>
   (exactProducts rttStats m \<and> set order = Mapping.keys m \<longrightarrow>
     (\<forall>pid \<in> Mapping.keys m. epsilon (senderAt (getEpsilon rttStats order m) pid) =
        oliaAlpha (card (Mapping.keys m)) (bestPaths rttStats m) (largestWindows m) pid))"
proof -
  let ?K = "Mapping.keys m" and ?M = "largestWindows m"
  obtain bytes rtt where best: "bestPath rttStats m order 0 0 = (bytes, rtt)" by (rule prod.exhaust)
  define B where "B = {q \<in> ?K. atLeastAsGood (lossBytes m q) (squaredRTT (rttStats q)) bytes rtt}"
  have eps: "epsilon (senderAt (getEpsilon rttStats order m) pid) = oliaAlpha (card ?K) B ?M pid" if "pid \<in> ?K" for pid
    using getEpsilon_alpha [OF best that] by (simp add: B_def)
  have sign: "(0 < oliaAlpha (card ?K) B ?M pid \<longrightarrow> pid \<notin> ?M) \<and> (oliaAlpha (card ?K) B ?M pid < 0 \<longrightarrow> pid \<in> ?M)" for pid
    by (auto simp: oliaAlpha_def not_less divide_nonpos_nonneg split: if_splits)
  have "(\<Sum>pid \<in> ?K. oliaAlpha (card ?K) B ?M pid) = 0"
  proof (cases "?K = {}")
    case False
    then show ?thesis using largestWindows_max(2) by (intro oliaAlpha_sum) (auto simp: B_def largestWindows_def)
  qed simp
  moreover have "B = bestPaths rttStats m" if "exactProducts rttStats m" "set order = ?K"
    unfolding B_def by (rule bestPath_bestPaths [OF that best])
  ultimately show ?thesis using eps sign by simp
qed

text \<open>An example: two paths with a round-trip time of 50 ms; on the second one a packet of 1000 bytes arrives and the next is lost.\<close>

definition exampleRTT :: "PathID \<Rightarrow> RTTStats" where
  "exampleRTT pid = NewRTTStatsWithSmoothedRTT 50000000"

definition lossyPaths :: oliaSenders where
  "lossyPaths = Mapping.map_entry 2 (olia_OnPacketLost 2 1000 2000)
     (olia_OnPacketAcked exampleRTT [1, 2] 2 1 1000 1000 (Mapping.map_entry 2 (olia_OnPacketSent 2 1000 True)
       (Mapping.update 2 (NewOliaSender InitialCongestionWindow DefaultMaxWindow)
         (Mapping.update 1 (NewOliaSender InitialCongestionWindow DefaultMaxWindow) Mapping.empty))))"

lemma lossyPaths_eval:
  "Mapping.keys lossyPaths = {1, 2}" "lossBytes lossyPaths 1 = 0" "lossBytes lossyPaths 2 = 1000"
  "congestionWindow (senderAt lossyPaths 2) < congestionWindow (senderAt lossyPaths 1)"
  by code_simp+

theorem olia_epsilon_witness:
  "olia_run lossyPaths \<and> epsilon (senderAt (getEpsilon exampleRTT [2, 1] lossyPaths) 1) = - 1 / 2 \<and>
   epsilon (senderAt (getEpsilon exampleRTT [2, 1] lossyPaths) 2) = 1 / 2"
proof -
  note e = lossyPaths_eval
  have "olia_run lossyPaths" unfolding lossyPaths_def by (intro olia_run.intros)
  moreover have "exactProducts exampleRTT lossyPaths"
    using e(2,3) by (auto simp: exactProducts_def e(1) exampleRTT_def NewRTTStatsWithSmoothedRTT_def)
  moreover have "bestPaths exampleRTT lossyPaths = {2}"
    using e(2,3) by (auto simp: bestPaths_def e(1) quality_def exampleRTT_def NewRTTStatsWithSmoothedRTT_def)
  moreover have "largestWindows lossyPaths = {1}" using e(4) by (auto simp: largestWindows_def e(1))
  ultimately show ?thesis using olia_epsilon [where rttStats = exampleRTT and order = "[2, 1]" and m = lossyPaths] by (simp add: e(1) oliaAlpha_def insert_commute)
qed

end
