(* ===== verification/SentPackets.thy ===== *)
theory SentPackets
  imports PacketUnpacker Congestion
begin

text \<open>
  The sender's side of reliability: \<^verbatim>\<open>ackhandler/sent_packet_handler.go\<close>, with \<^verbatim>\<open>packet.go\<close>,
  \<^verbatim>\<open>retransmittable.go\<close> and \<^verbatim>\<open>stop_waiting_manager.go\<close>. The linked list of packets is a list from \<^verbatim>\<open>Front()\<close> to
  \<^verbatim>\<open>Back()\<close>; an element is found again by its packet, since the packet numbers in the list differ. A call takes
  the time at which it runs, and all its readings of the clock agree.
\<close>

section \<open>Packets\<close>

record Packet =
  PacketNumber :: PacketNumber
  Frames :: "Frame list"
  Length :: ByteCount
  EncryptionLevel :: EncryptionLevel
  SendTime :: Time

fun IsFrameRetransmittable :: "Frame \<Rightarrow> bool" where
  "IsFrameRetransmittable (StopWaitingF f) = False"
| "IsFrameRetransmittable (AckF f) = False"
| "IsFrameRetransmittable f = True"

definition stripNonRetransmittableFrames :: "Frame list \<Rightarrow> Frame list" where
  "stripNonRetransmittableFrames fs = filter IsFrameRetransmittable fs"

definition HasRetransmittableFrames :: "Frame list \<Rightarrow> bool" where
  "HasRetransmittableFrames fs = list_ex IsFrameRetransmittable fs"

fun keepForRetransmission :: "Frame \<Rightarrow> bool" where
  "keepForRetransmission (AckF f) = False"
| "keepForRetransmission (StopWaitingF f) = False"
| "keepForRetransmission f = True"

definition GetFramesForRetransmission :: "Packet \<Rightarrow> Frame list" where
  "GetFramesForRetransmission p = filter keepForRetransmission (Frames p)"

fun retransmittableType :: "Frame \<Rightarrow> bool" where
  "retransmittableType (StreamF f) = True"
| "retransmittableType (RstStreamF f) = True"
| "retransmittableType (WindowUpdateF f) = True"
| "retransmittableType (BlockedF f) = True"
| "retransmittableType (PingF f) = True"
| "retransmittableType (GoawayF f) = True"
| "retransmittableType (AddAddressF f) = True"
| "retransmittableType (PathsF f) = True"
| "retransmittableType f = False"

definition IsRetransmittable :: "Packet \<Rightarrow> bool" where
  "IsRetransmittable p = list_ex retransmittableType (Frames p)"

section \<open>STOP_WAITING frames\<close>

record stopWaitingManager =
  largestLeastUnackedSent :: PacketNumber
  nextLeastUnacked :: PacketNumber
  lastStopWaitingFrame :: "StopWaitingFrame option"

text \<open>The fields for the packet number are set when the frame is packed.\<close>

definition newStopWaitingFrame :: "PacketNumber \<Rightarrow> StopWaitingFrame" where
  "newStopWaitingFrame leastUnacked = \<lparr>LeastUnacked = leastUnacked, PacketNumberLen = 0, PacketNumber = 0\<rparr>"

definition swm_GetStopWaitingFrame :: "bool \<Rightarrow> stopWaitingManager \<Rightarrow> StopWaitingFrame option \<times> stopWaitingManager" where
  "swm_GetStopWaitingFrame force s =
     (if nextLeastUnacked s \<le> largestLeastUnackedSent s then
        (if force then
           let s = (if lastStopWaitingFrame s = None \<and> largestLeastUnackedSent s > 0
                    then s\<lparr>lastStopWaitingFrame := Some (newStopWaitingFrame (nextLeastUnacked s))\<rparr> else s)
           in (lastStopWaitingFrame s, s)
         else (None, s))
      else
        let swf = newStopWaitingFrame (nextLeastUnacked s)
        in (Some swf, s\<lparr>largestLeastUnackedSent := nextLeastUnacked s, lastStopWaitingFrame := Some swf\<rparr>))"

definition swm_ReceivedAck :: "AckFrame \<Rightarrow> stopWaitingManager \<Rightarrow> stopWaitingManager" where
  "swm_ReceivedAck ack s =
     (if AckFrame.LargestAcked ack \<ge> nextLeastUnacked s then s\<lparr>nextLeastUnacked := AckFrame.LargestAcked ack + 1\<rparr> else s)"

definition QueuedRetransmissionForPacketNumber :: "PacketNumber \<Rightarrow> stopWaitingManager \<Rightarrow> stopWaitingManager" where
  "QueuedRetransmissionForPacketNumber p s = (if p \<ge> nextLeastUnacked s then s\<lparr>nextLeastUnacked := p + 1\<rparr> else s)"

section \<open>The congestion control interface\<close>

text \<open>
  A value of the interface \<^verbatim>\<open>SendAlgorithm\<close> is a table of its methods together with the state \<open>'c\<close> they work on.
  The methods also see the clock and the round-trip statistics.
\<close>

record 'c SendAlgorithm =
  sa_OnPacketSent :: "Time \<Rightarrow> ByteCount \<Rightarrow> PacketNumber \<Rightarrow> ByteCount \<Rightarrow> bool \<Rightarrow> 'c \<Rightarrow> 'c"
  sa_GetCongestionWindow :: "'c \<Rightarrow> ByteCount"
  sa_MaybeExitSlowStart :: "RTTStats \<Rightarrow> 'c \<Rightarrow> 'c"
  sa_OnPacketAcked :: "Time \<Rightarrow> RTTStats \<Rightarrow> PacketNumber \<Rightarrow> ByteCount \<Rightarrow> ByteCount \<Rightarrow> 'c \<Rightarrow> 'c"
  sa_OnPacketLost :: "PacketNumber \<Rightarrow> ByteCount \<Rightarrow> ByteCount \<Rightarrow> 'c \<Rightarrow> 'c"
  sa_OnRetransmissionTimeout :: "bool \<Rightarrow> 'c \<Rightarrow> 'c"
  sa_RetransmissionDelay :: "RTTStats \<Rightarrow> Duration"
  sa_SmoothedRTT :: "RTTStats \<Rightarrow> Duration"

text \<open>The CUBIC sender as a value of the interface.\<close>

definition cubicAlgorithm :: "(rat \<Rightarrow> rat) \<Rightarrow> cubicSender SendAlgorithm" where
  "cubicAlgorithm cbrt = \<lparr>
     sa_OnPacketSent = (\<lambda>now bytesInFlight. OnPacketSent),
     sa_GetCongestionWindow = GetCongestionWindow,
     sa_MaybeExitSlowStart = MaybeExitSlowStart,
     sa_OnPacketAcked = (\<lambda>now rs p a n c. case OnPacketAcked cbrt now rs p a n c of Some c' \<Rightarrow> c' | None \<Rightarrow> c),
     sa_OnPacketLost = OnPacketLost,
     sa_OnRetransmissionTimeout = OnRetransmissionTimeout,
     sa_RetransmissionDelay = RetransmissionDelay,
     sa_SmoothedRTT = smoothedRTT\<rparr>"

section \<open>The handler\<close>

definition timeReorderingFraction :: rat where "timeReorderingFraction = 1 / 8"
definition defaultRTOTimeout :: Duration where "defaultRTOTimeout = 500 * 1000000"
definition minRTOTimeout :: Duration where "minRTOTimeout = 200 * 1000000"
definition maxRTOTimeout :: Duration where "maxRTOTimeout = 60 * 1000000000"
definition maxTailLossProbes :: u32 where "maxTailLossProbes = 2"
definition minRetransmissionTime :: Duration where "minRetransmissionTime = 200 * 1000000"
definition minTailLossProbeTimeout :: Duration where "minTailLossProbeTimeout = 10 * 1000000"
definition MaxTrackedSentPackets :: PacketNumber where "MaxTrackedSentPackets = 2 * 2500"
definition MaxTrackedSkippedPackets :: nat where "MaxTrackedSkippedPackets = 10"
definition MaxNonRetransmittablePackets :: int where "MaxNonRetransmittablePackets = 19"

definition ErrDuplicateOrOutOfOrderAck :: error where
  "ErrDuplicateOrOutOfOrderAck = ErrNew ''SentPacketHandler: Duplicate or out-of-order ACK''"
definition ErrTooManyTrackedSentPackets :: error where
  "ErrTooManyTrackedSentPackets = ErrNew ''Too many outstanding non-acked and non-retransmitted packets''"
definition ErrAckForSkippedPacket :: error where
  "ErrAckForSkippedPacket = QuicError InvalidAckData ''Received an ACK for a skipped packet number''"
definition errAckForUnsentPacket :: error where
  "errAckForUnsentPacket = QuicError InvalidAckData ''Received ACK for an unsent package''"
definition errPacketNumberNotIncreasing :: error where
  "errPacketNumberNotIncreasing = ErrNew ''Already sent a packet with a higher packet number''"
definition errWrongPacketAcked :: error where
  "errWrongPacketAcked = ErrNew ''BUG: ackhandler would have acked wrong packet''"

record 'c sentPacketHandler =
  lastSentPacketNumber :: PacketNumber
  skippedPackets :: "PacketNumber list"
  pathID :: PathID
  numNonRetransmittablePackets :: int
  LargestAcked :: PacketNumber
  largestReceivedPacketWithAck :: PacketNumber
  packetHistory :: "Packet list"
  stopWaiting :: stopWaitingManager
  retransmissionQueue :: "Packet list"
  bytesInFlight :: ByteCount
  congestion :: 'c
  rttStats :: RTTStats
  bdwStats :: BDWStats
  rtoCount :: u32
  tlpCount :: u32
  lossTime :: Time
  lastSentTime :: Time
  alarm :: Time
  packets :: u64
  retransmissions :: u64
  losses :: u64

definition NewSentPacketHandler :: "PathID \<Rightarrow> RTTStats \<Rightarrow> BDWStats \<Rightarrow> 'c \<Rightarrow> 'c sentPacketHandler" where
  "NewSentPacketHandler pid rs bs cong = \<lparr>lastSentPacketNumber = 0, skippedPackets = [], pathID = pid,
     numNonRetransmittablePackets = 0, LargestAcked = 0, largestReceivedPacketWithAck = 0, packetHistory = [],
     stopWaiting = \<lparr>largestLeastUnackedSent = 0, nextLeastUnacked = 0, lastStopWaitingFrame = None\<rparr>,
     retransmissionQueue = [], bytesInFlight = 0, congestion = cong, rttStats = rs, bdwStats = bs, rtoCount = 0,
     tlpCount = 0, lossTime = zeroTime, lastSentTime = zeroTime, alarm = zeroTime, packets = 0, retransmissions = 0,
     losses = 0\<rparr>"

definition sph_GetStatistics :: "'c sentPacketHandler \<Rightarrow> u64 \<times> u64 \<times> u64" where
  "sph_GetStatistics h = (packets h, retransmissions h, losses h)"

definition largestInOrderAcked :: "'c sentPacketHandler \<Rightarrow> PacketNumber" where
  "largestInOrderAcked h = (case packetHistory h of f # _ \<Rightarrow> PacketNumber f - 1 | [] \<Rightarrow> LargestAcked h)"

definition ShouldSendRetransmittablePacket :: "'c sentPacketHandler \<Rightarrow> bool" where
  "ShouldSendRetransmittablePacket h \<longleftrightarrow> numNonRetransmittablePackets h \<ge> MaxNonRetransmittablePackets"

subsection \<open>Timers\<close>

text \<open>The shift of a 64-bit duration loses the bits above.\<close>

definition computeRTOTimeout :: "'c SendAlgorithm \<Rightarrow> 'c sentPacketHandler \<Rightarrow> Duration" where
  "computeRTOTimeout alg h =
     (let rto = sa_RetransmissionDelay alg (rttStats h);
          rto = (if rto = 0 then defaultRTOTimeout else rto);
          rto = max rto minRTOTimeout;
          rto = sint (push_bit (unat (rtoCount h)) (word_of_int rto :: u64))
      in min rto maxRTOTimeout)"

definition hasMultipleOutstandingRetransmittablePackets :: "'c sentPacketHandler \<Rightarrow> bool" where
  "hasMultipleOutstandingRetransmittablePackets h = (case packetHistory h of _ # _ # _ \<Rightarrow> True | _ \<Rightarrow> False)"

definition computeTLPTimeout :: "'c SendAlgorithm \<Rightarrow> 'c sentPacketHandler \<Rightarrow> Duration" where
  "computeTLPTimeout alg h =
     (let r = sa_SmoothedRTT alg (rttStats h) in
      if hasMultipleOutstandingRetransmittablePackets h then max (2 * r) ((r * 3) sdiv 2 + minRetransmissionTime sdiv 2)
      else max (2 * r) minTailLossProbeTimeout)"

definition updateLossDetectionAlarm :: "'c SendAlgorithm \<Rightarrow> 'c sentPacketHandler \<Rightarrow> 'c sentPacketHandler" where
  "updateLossDetectionAlarm alg h =
     (if length (packetHistory h) = 0 then h\<lparr>alarm := zeroTime\<rparr>
      else if lossTime h \<noteq> zeroTime then h\<lparr>alarm := lossTime h\<rparr>
      else if smoothedRTT (rttStats h) \<noteq> 0 \<and> tlpCount h < maxTailLossProbes
      then h\<lparr>alarm := lastSentTime h + computeTLPTimeout alg h\<rparr>
      else h\<lparr>alarm := lastSentTime h + max (computeRTOTimeout alg h) minRetransmissionTime\<rparr>)"

subsection \<open>Sending\<close>

text \<open>The packet numbers between the last and the new one are skipped ones; the last ten are remembered.\<close>

definition rememberSkipped :: "PacketNumber \<Rightarrow> PacketNumber list \<Rightarrow> PacketNumber list" where
  "rememberSkipped p skipped =
     (let skipped = skipped @ [p] in if length skipped > MaxTrackedSkippedPackets then tl skipped else skipped)"

function skipLoop :: "PacketNumber \<Rightarrow> PacketNumber \<Rightarrow> PacketNumber list \<Rightarrow> PacketNumber list" where
  "skipLoop p stop skipped = (if p < stop then skipLoop (p + 1) stop (rememberSkipped p skipped) else skipped)"
  by auto
termination
proof (relation "measure (\<lambda>(p, stop, skipped). unat stop - unat p)")
  fix p stop :: u64 and skipped :: "u64 list"
  assume "p < stop"
  moreover from this have "p \<noteq> - 1" by auto
  ultimately show "((p + 1, stop, rememberSkipped p skipped), p, stop, skipped) \<in> measure (\<lambda>(p, stop, skipped). unat stop - unat p)"
    by (simp add: unat_succ word_less_nat_alt)
qed simp

declare skipLoop.simps [simp del]

definition SentPacket :: "'c SendAlgorithm \<Rightarrow> Time \<Rightarrow> Packet \<Rightarrow> 'c sentPacketHandler \<Rightarrow> error option \<times> 'c sentPacketHandler" where
  "SentPacket alg now packet h =
     (if PacketNumber packet \<le> lastSentPacketNumber h then (Some errPacketNumberNotIncreasing, h)
      else if of_nat (length (retransmissionQueue h) + length (packetHistory h) + 1) > MaxTrackedSentPackets
      then (Some ErrTooManyTrackedSentPackets, h)
      else
        let h = h\<lparr>skippedPackets := skipLoop (lastSentPacketNumber h + 1) (PacketNumber packet) (skippedPackets h)\<rparr>;
            h = h\<lparr>lastSentPacketNumber := PacketNumber packet, packets := packets h + 1, lastSentTime := now\<rparr>;
            packet = packet\<lparr>Frames := stripNonRetransmittableFrames (Frames packet)\<rparr>;
            isRetransmittable = (length (Frames packet) \<noteq> 0);
            h = (if isRetransmittable
                 then h\<lparr>bytesInFlight := bytesInFlight h + Length packet,
                        packetHistory := packetHistory h @ [packet\<lparr>SendTime := now\<rparr>],
                        numNonRetransmittablePackets := 0\<rparr>
                 else h\<lparr>numNonRetransmittablePackets := numNonRetransmittablePackets h + 1\<rparr>);
            h = h\<lparr>congestion := sa_OnPacketSent alg now (bytesInFlight h) (PacketNumber packet) (Length packet) isRetransmittable (congestion h)\<rparr>
        in (None, updateLossDetectionAlarm alg h))"

subsection \<open>Acknowledgements\<close>

text \<open>
  The loop over the history. \<open>rs\<close> has the ranges from \<^verbatim>\<open>AckRanges[len-1-ackRangeIndex]\<close> on, in ascending order;
  \<open>advance\<close> is the inner loop, which stops at the last range.
\<close>

fun advance :: "PacketNumber \<Rightarrow> AckRange list \<Rightarrow> AckRange list" where
  "advance p (r # s # rs) = (if p > Last r then advance p (s # rs) else r # s # rs)"
| "advance p rs = rs"

fun newlyAcked :: "PacketNumber \<Rightarrow> PacketNumber \<Rightarrow> AckRange list \<Rightarrow> Packet list \<Rightarrow> error + Packet list" where
  "newlyAcked largest lowest rs [] = Inr []"
| "newlyAcked largest lowest rs (el # els) =
     (let p = PacketNumber el in
      if p < lowest then newlyAcked largest lowest rs els
      else if p > largest then Inr []
      else case rs of
             [] \<Rightarrow> bind_r (newlyAcked largest lowest rs els) (\<lambda>acked. Inr (el # acked))
           | _ \<Rightarrow>
               let rs = advance p rs; ackRange = hd rs in
               if p \<ge> First ackRange then
                 if p > Last ackRange then Inl errWrongPacketAcked
                 else bind_r (newlyAcked largest lowest rs els) (\<lambda>acked. Inr (el # acked))
               else newlyAcked largest lowest rs els)"

definition determineNewlyAckedPackets :: "AckFrame \<Rightarrow> 'c sentPacketHandler \<Rightarrow> error + Packet list" where
  "determineNewlyAckedPackets f h =
     newlyAcked (AckFrame.LargestAcked f) (AckFrame.LowestAcked f) (rev (AckFrame.AckRanges f)) (packetHistory h)"

definition determineNewlyAckedPacketsClosePath :: "ClosePathFrame \<Rightarrow> 'c sentPacketHandler \<Rightarrow> error + Packet list" where
  "determineNewlyAckedPacketsClosePath f h =
     newlyAcked (ClosePathFrame.LargestAcked f) (ClosePathFrame.LowestAcked f) (rev (ClosePathFrame.AckRanges f)) (packetHistory h)"

text \<open>The search for the largest acknowledged packet, which gives the sample of the round-trip time.\<close>

fun findPacket :: "PacketNumber \<Rightarrow> Packet list \<Rightarrow> Packet option" where
  "findPacket largest [] = None"
| "findPacket largest (el # els) =
     (if PacketNumber el = largest then Some el
      else if PacketNumber el > largest then None else findPacket largest els)"

definition resetSamples :: "'c SendAlgorithm \<Rightarrow> Time \<Rightarrow> 'c sentPacketHandler \<Rightarrow> 'c sentPacketHandler" where
  "resetSamples alg now h =
     h\<lparr>rttStats := SettimefornumMinRTTsamplesRemaining now
       (SetnumMinRTTsamplesRemaining (sa_GetCongestionWindow alg (congestion h) div DefaultTCPMSS) (rttStats h))\<rparr>"

definition maybeUpdateRTT ::
    "'c SendAlgorithm \<Rightarrow> Time \<Rightarrow> PacketNumber \<Rightarrow> Duration \<Rightarrow> Time \<Rightarrow> 'c sentPacketHandler \<Rightarrow> bool \<times> 'c sentPacketHandler" where
  "maybeUpdateRTT alg now largestAcked ackDelay rcvTime h =
     (let h = (if RecentMinRTT (rttStats h) = 0 \<or> numMinRTTsamplesRemaining (rttStats h) = 0 then resetSamples alg now h else h);
          h = (if time_Sub now (timefornumMinRTTsamplesRemaining (rttStats h)) > 2 * smoothedRTT (rttStats h)
               then resetSamples alg now h else h)
      in case findPacket largestAcked (packetHistory h) of
           None \<Rightarrow> (False, h)
         | Some packet \<Rightarrow>
             let initialpktnum = PacketNumber (hd (packetHistory h));
                 pktnums = PacketNumber packet - initialpktnum + 1;
                 samplesremaining = numMinRTTsamplesRemaining (rttStats h);
                 rs = SetnumMinRTTsamplesRemaining (if samplesremaining > pktnums then samplesremaining - pktnums else 0) (rttStats h)
             in (True, h\<lparr>rttStats := UpdateRTT (time_Sub rcvTime (SendTime packet)) ackDelay now rs\<rparr>))"

definition hasOutstandingRetransmittablePacket :: "'c sentPacketHandler \<Rightarrow> bool" where
  "hasOutstandingRetransmittablePacket h = list_ex IsRetransmittable (packetHistory h)"

definition onPacketAcked :: "Packet \<Rightarrow> 'c sentPacketHandler \<Rightarrow> 'c sentPacketHandler" where
  "onPacketAcked el h =
     h\<lparr>bytesInFlight := bytesInFlight h - Length el, rtoCount := 0, tlpCount := 0, packetHistory := remove1 el (packetHistory h)\<rparr>"

definition queuePacketForRetransmission :: "Packet \<Rightarrow> 'c sentPacketHandler \<Rightarrow> 'c sentPacketHandler" where
  "queuePacketForRetransmission el h =
     h\<lparr>bytesInFlight := bytesInFlight h - Length el, retransmissionQueue := retransmissionQueue h @ [el],
       packetHistory := remove1 el (packetHistory h),
       stopWaiting := QueuedRetransmissionForPacketNumber (PacketNumber el) (stopWaiting h)\<rparr>"

definition ackPacket :: "'c SendAlgorithm \<Rightarrow> Time \<Rightarrow> Packet \<Rightarrow> 'c sentPacketHandler \<Rightarrow> 'c sentPacketHandler" where
  "ackPacket alg now p h =
     (let h = onPacketAcked p h
      in h\<lparr>congestion := sa_OnPacketAcked alg now (rttStats h) (PacketNumber p) (Length p) (bytesInFlight h) (congestion h)\<rparr>)"

definition losePacket :: "'c SendAlgorithm \<Rightarrow> Packet \<Rightarrow> 'c sentPacketHandler \<Rightarrow> 'c sentPacketHandler" where
  "losePacket alg p h =
     (let h = queuePacketForRetransmission p h
      in h\<lparr>congestion := sa_OnPacketLost alg (PacketNumber p) (Length p) (bytesInFlight h) (congestion h)\<rparr>)"

text \<open>The packets up to \<open>largest\<close> that are older than \<open>delayUntilLost\<close>, and the time the first of the others is due.\<close>

fun lossLoop :: "Time \<Rightarrow> Duration \<Rightarrow> PacketNumber \<Rightarrow> Time \<Rightarrow> Packet list \<Rightarrow> Packet list \<times> Time" where
  "lossLoop now delayUntilLost largest lt [] = ([], lt)"
| "lossLoop now delayUntilLost largest lt (el # els) =
     (if PacketNumber el > largest then ([], lt)
      else
        let timeSinceSent = time_Sub now (SendTime el) in
        if timeSinceSent > delayUntilLost then
          let (lost, lt) = lossLoop now delayUntilLost largest lt els in (el # lost, lt)
        else if lt = zeroTime then lossLoop now delayUntilLost largest (now + (delayUntilLost - timeSinceSent)) els
        else lossLoop now delayUntilLost largest lt els)"

definition detectLostPackets :: "'c SendAlgorithm \<Rightarrow> Time \<Rightarrow> 'c sentPacketHandler \<Rightarrow> 'c sentPacketHandler" where
  "detectLostPackets alg now h =
     (let maxRTT = float64 (of_int (max (latestRTT (rttStats h)) (smoothedRTT (rttStats h))));
          delayUntilLost = truncRat (float64 ((1 + timeReorderingFraction) * maxRTT));
          (lost, lt) = lossLoop now delayUntilLost (LargestAcked h) zeroTime (packetHistory h);
          h = h\<lparr>lossTime := lt, losses := losses h + of_nat (length lost)\<rparr>
      in fold (losePacket alg) lost h)"

definition SetInflightAsLost :: "'c SendAlgorithm \<Rightarrow> 'c sentPacketHandler \<Rightarrow> 'c sentPacketHandler" where
  "SetInflightAsLost alg h =
     (let lost = takeWhile (\<lambda>p. \<not> PacketNumber p > LargestAcked h) (packetHistory h);
          h = h\<lparr>losses := losses h + of_nat (length lost)\<rparr>
      in fold (losePacket alg) lost h)"

definition skippedPacketsAcked :: "AckFrame \<Rightarrow> 'c sentPacketHandler \<Rightarrow> bool" where
  "skippedPacketsAcked f h = list_ex (AckFrame_AcksPacket f) (skippedPackets h)"

definition skippedPacketsAckedClosePath :: "ClosePathFrame \<Rightarrow> 'c sentPacketHandler \<Rightarrow> bool" where
  "skippedPacketsAckedClosePath f h = list_ex (ClosePathFrame_AcksPacket f) (skippedPackets h)"

text \<open>The skipped numbers are cut behind the last one that is at most \<open>lioa\<close>.\<close>

fun dropUpTo :: "PacketNumber \<Rightarrow> PacketNumber list \<Rightarrow> PacketNumber list" where
  "dropUpTo lioa [] = []"
| "dropUpTo lioa (p # ps) = (if list_ex (\<lambda>q. q \<le> lioa) (p # ps) then dropUpTo lioa ps else p # ps)"

definition garbageCollectSkippedPackets :: "'c sentPacketHandler \<Rightarrow> 'c sentPacketHandler" where
  "garbageCollectSkippedPackets h = h\<lparr>skippedPackets := dropUpTo (largestInOrderAcked h) (skippedPackets h)\<rparr>"

text \<open>The sample of the bandwidth, taken when the largest acknowledged packet is among the new ones.\<close>

definition bandwidthSample :: "AckFrame \<Rightarrow> Time \<Rightarrow> Packet list \<Rightarrow> Duration option" where
  "bandwidthSample f rcvTime acked =
     (case find (\<lambda>p. PacketNumber p = AckFrame.LargestAcked f) acked of
        None \<Rightarrow> None
      | Some p \<Rightarrow>
          let sentDelay = time_Sub rcvTime (SendTime p)
          in Some (if sentDelay > DelayTime f then sentDelay - DelayTime f else sentDelay))"

definition ackPackets ::
    "'c SendAlgorithm \<Rightarrow> Time \<Rightarrow> AckFrame \<Rightarrow> Time \<Rightarrow> Packet list \<Rightarrow> 'c sentPacketHandler \<Rightarrow> error option \<times> 'c sentPacketHandler" where
  "ackPackets alg now f rcvTime acked h =
     (let preInflight = bytesInFlight h;
          h = fold (ackPacket alg now) acked h;
          changeInflight = preInflight - bytesInFlight h
      in case bandwidthSample f rcvTime acked of
           None \<Rightarrow> (None, h)
         | Some sentDelay \<Rightarrow>
             (case UpdateBDW changeInflight sentDelay (bdwStats h) of
                Inl e \<Rightarrow> (Some e, h)
              | Inr b \<Rightarrow> (None, h\<lparr>bdwStats := b\<rparr>)))"

definition ReceivedAck ::
    "'c SendAlgorithm \<Rightarrow> Time \<Rightarrow> AckFrame \<Rightarrow> PacketNumber \<Rightarrow> Time \<Rightarrow> 'c sentPacketHandler \<Rightarrow> error option \<times> 'c sentPacketHandler" where
  "ReceivedAck alg now f withPacketNumber rcvTime h =
     (if AckFrame.LargestAcked f > lastSentPacketNumber h then (Some errAckForUnsentPacket, h)
      else if withPacketNumber \<le> largestReceivedPacketWithAck h then (Some ErrDuplicateOrOutOfOrderAck, h)
      else
        let h = h\<lparr>largestReceivedPacketWithAck := withPacketNumber\<rparr> in
        if AckFrame.LargestAcked f \<le> largestInOrderAcked h then (None, h)
        else
          let h = h\<lparr>LargestAcked := AckFrame.LargestAcked f\<rparr> in
          if skippedPacketsAcked f h then (Some ErrAckForSkippedPacket, h)
          else
            let (rttUpdated, h) = maybeUpdateRTT alg now (AckFrame.LargestAcked f) (DelayTime f) rcvTime h;
                h = (if rttUpdated then h\<lparr>congestion := sa_MaybeExitSlowStart alg (rttStats h) (congestion h)\<rparr> else h)
            in case determineNewlyAckedPackets f h of
                 Inl e \<Rightarrow> (Some e, h)
               | Inr acked \<Rightarrow>
                   andThen (if acked = [] then (None, h) else ackPackets alg now f rcvTime acked h) (\<lambda>h.
                     let h = updateLossDetectionAlarm alg (detectLostPackets alg now h);
                         h = garbageCollectSkippedPackets h
                     in (None, h\<lparr>stopWaiting := swm_ReceivedAck f (stopWaiting h)\<rparr>)))"

definition ReceivedClosePath ::
    "'c SendAlgorithm \<Rightarrow> Time \<Rightarrow> ClosePathFrame \<Rightarrow> PacketNumber \<Rightarrow> 'c sentPacketHandler \<Rightarrow> error option \<times> 'c sentPacketHandler" where
  "ReceivedClosePath alg now f withPacketNumber h =
     (if ClosePathFrame.LargestAcked f > lastSentPacketNumber h then (Some errAckForUnsentPacket, h)
      else if withPacketNumber \<le> largestReceivedPacketWithAck h then (Some ErrDuplicateOrOutOfOrderAck, h)
      else
        let h = h\<lparr>largestReceivedPacketWithAck := withPacketNumber\<rparr> in
        if skippedPacketsAckedClosePath f h then (Some ErrAckForSkippedPacket, h)
        else case determineNewlyAckedPacketsClosePath f h of
               Inl e \<Rightarrow> (Some e, h)
             | Inr acked \<Rightarrow>
                 let h = fold (ackPacket alg now) acked h;
                     h = SetInflightAsLost alg h
                 in (None, garbageCollectSkippedPackets h))"

subsection \<open>Retransmissions\<close>

definition queueRTO :: "'c SendAlgorithm \<Rightarrow> Packet \<Rightarrow> 'c sentPacketHandler \<Rightarrow> 'c sentPacketHandler" where
  "queueRTO alg el h =
     (let h = queuePacketForRetransmission el h;
          h = h\<lparr>losses := losses h + 1\<rparr>
      in h\<lparr>congestion := sa_OnPacketLost alg (PacketNumber el) (Length el) (bytesInFlight h) (congestion h)\<rparr>)"

definition retransmitTLP :: "'c sentPacketHandler \<Rightarrow> 'c sentPacketHandler" where
  "retransmitTLP h = (if packetHistory h = [] then h else queuePacketForRetransmission (last (packetHistory h)) h)"

definition timedOut :: "'c SendAlgorithm \<Rightarrow> 'c sentPacketHandler \<Rightarrow> 'c sentPacketHandler" where
  "timedOut alg h = h\<lparr>congestion := sa_OnRetransmissionTimeout alg True (congestion h)\<rparr>"

function queueAll :: "'c SendAlgorithm \<Rightarrow> 'c sentPacketHandler \<Rightarrow> 'c sentPacketHandler" where
  "queueAll alg h = (case packetHistory h of [] \<Rightarrow> h | el # _ \<Rightarrow> queueAll alg (queueRTO alg el h))"
  by auto
termination
  by (relation "measure (\<lambda>(alg, h). length (packetHistory h))")
     (auto simp: queueRTO_def queuePacketForRetransmission_def Let_def)

declare queueAll.simps [simp del]

definition retransmitAllPackets :: "'c SendAlgorithm \<Rightarrow> 'c sentPacketHandler \<Rightarrow> 'c sentPacketHandler" where
  "retransmitAllPackets alg h = timedOut alg (queueAll alg h)"

definition retransmitOldestPacket :: "'c SendAlgorithm \<Rightarrow> 'c sentPacketHandler \<Rightarrow> 'c sentPacketHandler" where
  "retransmitOldestPacket alg h = (case packetHistory h of [] \<Rightarrow> h | el # _ \<Rightarrow> queueRTO alg el h)"

definition retransmitOldestTwoPackets :: "'c SendAlgorithm \<Rightarrow> 'c sentPacketHandler \<Rightarrow> 'c sentPacketHandler" where
  "retransmitOldestTwoPackets alg h = timedOut alg (retransmitOldestPacket alg (retransmitOldestPacket alg h))"

text \<open>\<open>callback\<close> is \<^verbatim>\<open>onRTOCallback\<close>, which may be nil.\<close>

definition OnAlarm :: "'c SendAlgorithm \<Rightarrow> Time \<Rightarrow> (Time \<Rightarrow> bool) option \<Rightarrow> 'c sentPacketHandler \<Rightarrow> 'c sentPacketHandler" where
  "OnAlarm alg now callback h =
     (if \<not> hasOutstandingRetransmittablePacket h then h\<lparr>alarm := zeroTime\<rparr>
      else updateLossDetectionAlarm alg
        (if lossTime h \<noteq> zeroTime then detectLostPackets alg now h
         else if tlpCount h < maxTailLossProbes then
           let h = retransmitTLP h in h\<lparr>tlpCount := tlpCount h + 1\<rparr>
         else
           let potentiallyFailed = (case callback of None \<Rightarrow> False | Some f \<Rightarrow> f (lastSentTime h));
               h = (if potentiallyFailed then retransmitAllPackets alg h else retransmitOldestTwoPackets alg h)
           in h\<lparr>rtoCount := rtoCount h + 1\<rparr>))"

definition DequeuePacketForRetransmission :: "'c sentPacketHandler \<Rightarrow> Packet option \<times> 'c sentPacketHandler" where
  "DequeuePacketForRetransmission h =
     (case retransmissionQueue h of [] \<Rightarrow> (None, h)
      | p # ps \<Rightarrow> (Some p, h\<lparr>retransmissionQueue := ps, retransmissions := retransmissions h + 1\<rparr>))"

definition GetLeastUnacked :: "'c sentPacketHandler \<Rightarrow> PacketNumber" where
  "GetLeastUnacked h = largestInOrderAcked h + 1"

definition GetStopWaitingFrame :: "bool \<Rightarrow> 'c sentPacketHandler \<Rightarrow> StopWaitingFrame option \<times> 'c sentPacketHandler" where
  "GetStopWaitingFrame force h =
     (let (f, s) = swm_GetStopWaitingFrame force (stopWaiting h) in (f, h\<lparr>stopWaiting := s\<rparr>))"

definition SendingAllowed :: "'c SendAlgorithm \<Rightarrow> 'c sentPacketHandler \<Rightarrow> bool" where
  "SendingAllowed alg h =
     (let congestionLimited = (bytesInFlight h > sa_GetCongestionWindow alg (congestion h));
          maxTrackedLimited = (of_nat (length (retransmissionQueue h) + length (packetHistory h)) \<ge> MaxTrackedSentPackets);
          haveRetransmissions = (length (retransmissionQueue h) > 0)
      in \<not> maxTrackedLimited \<and> (\<not> congestionLimited \<or> haveRetransmissions))"

definition DuplicatePacket :: "Packet \<Rightarrow> 'c sentPacketHandler \<Rightarrow> 'c sentPacketHandler" where
  "DuplicatePacket p h = h\<lparr>retransmissionQueue := retransmissionQueue h @ [p]\<rparr>"

end
