(* ===== verification/PacketAccounting.thy ===== *)
theory PacketAccounting
  imports SentPackets Olia
begin

text \<open>
  What the sender's bookkeeping of \<^verbatim>\<open>ackhandler/sent_packet_handler.go\<close> guarantees: which packets an ACK covers, that
  each packet that was sent is outstanding, acknowledged or queued for retransmission and never two of these, and
  that the timer gets every packet out again when nothing is acknowledged.
\<close>

section \<open>Which packets an acknowledgement covers\<close>

definition asc_ranges :: "AckRange list \<Rightarrow> bool" where
  "asc_ranges rs \<longleftrightarrow> sorted_wrt (\<lambda>a b. Last a < First b) rs \<and> (\<forall>r \<in> set rs. First r \<le> Last r)"

abbreviation in_range :: "PacketNumber \<Rightarrow> AckRange \<Rightarrow> bool" where
  "in_range p r \<equiv> First r \<le> p \<and> p \<le> Last r"

abbreviation ascending :: "Packet list \<Rightarrow> bool" where
  "ascending ps \<equiv> sorted_wrt (\<lambda>p q. PacketNumber p < PacketNumber q) ps"

lemma advance_suffix:
  assumes "rs \<noteq> []"
  shows "\<exists>ds. rs = ds @ advance p rs \<and> advance p rs \<noteq> [] \<and> (\<forall>d \<in> set ds. Last d < p) \<and>
    (p > Last (hd (advance p rs)) \<longrightarrow> tl (advance p rs) = [])"
  using assms
proof (induction p rs rule: advance.induct)
  case (1 p r s rs)
  show ?case
  proof (cases "p > Last r")
    case True
    then obtain ds where "s # rs = ds @ advance p (s # rs) \<and> advance p (s # rs) \<noteq> [] \<and> (\<forall>d \<in> set ds. Last d < p) \<and>
      (p > Last (hd (advance p (s # rs))) \<longrightarrow> tl (advance p (s # rs)) = [])" using 1 by blast
    with True show ?thesis by (intro exI [of _ "r # ds"]) simp
  qed simp
qed auto

lemma newlyAcked_filter:
  assumes "ascending els" "asc_ranges rs" "rs \<noteq> [] \<Longrightarrow> Last (last rs) = largest"
  shows "newlyAcked largest lowest rs els =
    Inr (filter (\<lambda>el. lowest \<le> PacketNumber el \<and> PacketNumber el \<le> largest \<and>
      (rs = [] \<or> (\<exists>r \<in> set rs. in_range (PacketNumber el) r))) els)"
  using assms
proof (induction els arbitrary: rs)
  case (Cons el els)
  define p where "p = PacketNumber el"
  let ?cov = "\<lambda>rs el. lowest \<le> PacketNumber el \<and> PacketNumber el \<le> largest \<and>
      (rs = [] \<or> (\<exists>r \<in> set rs. in_range (PacketNumber el) r))"
  have later: "p < PacketNumber q" if "q \<in> set els" for q using Cons.prems(1) that by (simp add: p_def)
  note IH = Cons.IH [OF _ Cons.prems(2,3)]
  consider (below) "p < lowest" | (above) "\<not> p < lowest" "p > largest" | (plain) "\<not> p < lowest" "\<not> p > largest" "rs = []"
    | (ranges) "\<not> p < lowest" "\<not> p > largest" "rs \<noteq> []" by blast
  then show ?case
  proof cases
    case above
    then have "\<not> ?cov rs q" if "q \<in> set (el # els)" for q using that later by (fastforce simp: p_def)
    then have "filter (?cov rs) (el # els) = []" unfolding filter_empty_conv by blast
    moreover have "newlyAcked largest lowest rs (el # els) = Inr []" using above by (simp add: p_def)
    ultimately show ?thesis by simp
  next
    case ranges
    define rs' where "rs' = advance p rs"
    obtain ds where ds: "rs = ds @ rs'" "rs' \<noteq> []" "\<forall>d \<in> set ds. Last d < p" "p > Last (hd rs') \<longrightarrow> tl rs' = []"
      using advance_suffix [OF ranges(3), of p] by (auto simp: rs'_def)
    have asc': "asc_ranges rs'" and last': "Last (last rs') = largest"
      using Cons.prems(2,3) ds ranges(3) by (auto simp: asc_ranges_def sorted_wrt_append)
    have inh: "\<not> p > Last (hd rs')" using ds(2,4) last' ranges(2) by (cases rs') auto
    have dropped: "(\<exists>r \<in> set rs. in_range q r) = (\<exists>r \<in> set rs'. in_range q r)" if "p \<le> q" for q
      using ds(1,3) that by auto
    have "Last (hd rs') < First r" if "r \<in> set (tl rs')" for r
      using asc' ds(2) that by (cases rs') (auto simp: asc_ranges_def)
    then have here: "(\<exists>r \<in> set rs. in_range p r) = (First (hd rs') \<le> p)"
      using dropped [of p] ds(2) inh by (cases rs') fastforce+
    have "filter (?cov rs') els = filter (?cov rs) els"
      using dropped later ds(2) ranges(3) by (intro filter_cong) (auto simp: less_imp_le)
    then have IH': "newlyAcked largest lowest rs' els = Inr (filter (?cov rs) els)"
      using Cons.IH [OF _ asc' last'] Cons.prems(1) by simp
    obtain a rs0 where a: "rs = a # rs0" using ranges(3) by (cases rs) auto
    then have "advance p (a # rs0) = rs'" by (simp add: rs'_def)
    then have "newlyAcked largest lowest rs (el # els) =
        (if p \<ge> First (hd rs') then bind_r (newlyAcked largest lowest rs' els) (\<lambda>acked. Inr (el # acked))
         else newlyAcked largest lowest rs' els)"
      using ranges inh by (simp add: a p_def [symmetric] Let_def)
    then show ?thesis using here ranges by (auto simp: IH' p_def)
  qed (use IH Cons.prems(1) in \<open>auto simp: p_def\<close>)
qed simp

lemma rev_wf_ranges: "wf_ranges rs \<Longrightarrow> asc_ranges (rev rs)"
  by (auto simp: wf_ranges_def asc_ranges_def sorted_wrt_rev word_less_nat_alt elim: sorted_wrt_mono_rel [rotated])

text \<open>The walk over the ranges finds what the search of \<^verbatim>\<open>AcksPacket\<close> finds, packet by packet.\<close>

lemma newlyAcked_AcksPacket:
  assumes "ascending els" "wf_ack largest lowest rs"
  shows "newlyAcked largest lowest (rev rs) els = Inr (filter (\<lambda>el. AcksPacket largest lowest rs (PacketNumber el)) els)"
proof -
  have "asc_ranges (rev rs)" "rs \<noteq> [] \<Longrightarrow> Last (last (rev rs)) = largest"
    using assms(2) by (auto simp: wf_ack_def asc_ranges_def rev_wf_ranges [unfolded asc_ranges_def] last_rev split: if_splits)
  note newlyAcked_filter [OF assms(1) this(1), of largest lowest]
  moreover have "AcksPacket largest lowest rs p \<longleftrightarrow> lowest \<le> p \<and> p \<le> largest \<and> (rs = [] \<or> (\<exists>r \<in> set rs. in_range p r))" for p
    by (auto simp: AcksPacket_def list_ex_iff not_less)
  ultimately show ?thesis using \<open>rs \<noteq> [] \<Longrightarrow> Last (last (rev rs)) = largest\<close> by simp
qed

section \<open>What happens to a packet\<close>

text \<open>
  \<open>moved h h' ks qs\<close>: between two states of the handler the packets \<open>ks\<close> have been acknowledged and the packets
  \<open>qs\<close> have been queued for retransmission; everything else is still outstanding.
\<close>

definition moved :: "'c sentPacketHandler \<Rightarrow> 'c sentPacketHandler \<Rightarrow> Packet list \<Rightarrow> Packet list \<Rightarrow> bool" where
  "moved h h' ks qs \<longleftrightarrow> distinct (ks @ qs) \<and> set (ks @ qs) \<subseteq> set (packetHistory h) \<and>
     packetHistory h' = filter (\<lambda>p. p \<notin> set (ks @ qs)) (packetHistory h) \<and>
     retransmissionQueue h' = retransmissionQueue h @ qs \<and>
     bytesInFlight h' = bytesInFlight h - sum_list (map Length (ks @ qs)) \<and>
     lastSentPacketNumber h' = lastSentPacketNumber h"

definition history_ok :: "'c sentPacketHandler \<Rightarrow> bool" where
  "history_ok h \<longleftrightarrow> ascending (packetHistory h) \<and>
     (\<forall>p \<in> set (packetHistory h). 0 < PacketNumber p \<and> PacketNumber p \<le> lastSentPacketNumber h \<and> Frames p \<noteq> [] \<and>
       list_all IsFrameRetransmittable (Frames p)) \<and>
     bytesInFlight h = sum_list (map Length (packetHistory h))"

lemma ascending_distinct_map:
  assumes "ascending ps"
  shows "distinct (map PacketNumber ps)"
proof -
  have "sorted_wrt (<) (map PacketNumber ps)" using assms by (simp add: sorted_wrt_map)
  then show ?thesis by (simp add: strict_sorted_iff)
qed

lemmas ascending_inj = ascending_distinct_map [unfolded distinct_map, THEN conjunct2]
  and ascending_distinct = ascending_distinct_map [unfolded distinct_map, THEN conjunct1]

lemma moved_same:
  assumes "packetHistory h' = packetHistory h" "retransmissionQueue h' = retransmissionQueue h"
    "bytesInFlight h' = bytesInFlight h" "lastSentPacketNumber h' = lastSentPacketNumber h"
  shows "moved h h' [] []"
  using assms by (simp add: moved_def)

lemma moved_trans:
  assumes "moved h h' ks qs" "moved h' h'' ks' qs'"
  shows "moved h h'' (ks @ ks') (qs @ qs')"
proof -
  have hist: "packetHistory h' = filter (\<lambda>p. p \<notin> set (ks @ qs)) (packetHistory h)"
    "packetHistory h'' = filter (\<lambda>p. p \<notin> set (ks' @ qs')) (packetHistory h')" using assms unfolding moved_def by blast+
  have d: "distinct (ks @ qs)" "distinct (ks' @ qs')" "set (ks' @ qs') \<subseteq> set (packetHistory h')"
    "set (ks @ qs) \<subseteq> set (packetHistory h)" using assms unfolding moved_def by blast+
  then have sub: "set (ks' @ qs') \<subseteq> set (packetHistory h) - set (ks @ qs)" unfolding hist(1) by auto
  then have "distinct ((ks @ ks') @ (qs @ qs'))" using d(1,2) by auto
  moreover have "set ((ks @ ks') @ (qs @ qs')) \<subseteq> set (packetHistory h)" using d(4) sub by auto
  moreover have "packetHistory h'' = filter (\<lambda>p. p \<notin> set ((ks @ ks') @ (qs @ qs'))) (packetHistory h)"
    unfolding hist filter_filter by (rule filter_cong) auto
  moreover have "retransmissionQueue h'' = retransmissionQueue h @ qs @ qs'" "lastSentPacketNumber h'' = lastSentPacketNumber h"
    using assms unfolding moved_def by simp_all
  moreover have "bytesInFlight h'' = bytesInFlight h - sum_list (map Length ((ks @ ks') @ (qs @ qs')))"
  proof -
    have "bytesInFlight h'' = bytesInFlight h' - sum_list (map Length (ks' @ qs'))"
      "bytesInFlight h' = bytesInFlight h - sum_list (map Length (ks @ qs))" using assms unfolding moved_def by blast+
    then show ?thesis by (simp add: algebra_simps)
  qed
  ultimately show ?thesis unfolding moved_def by blast
qed

lemma sum_list_without:
  fixes g :: "'b \<Rightarrow> 'a::ab_group_add"
  assumes "distinct xs" "distinct ys" "set ys \<subseteq> set xs"
  shows "sum_list (map g (filter (\<lambda>x. x \<notin> set ys) xs)) = sum_list (map g xs) - sum_list (map g ys)"
proof -
  have "set (filter (\<lambda>x. x \<notin> set ys) xs) = set xs - set ys" by auto
  then have "sum_list (map g (filter (\<lambda>x. x \<notin> set ys) xs)) = sum g (set xs - set ys)"
    using assms(1) by (simp add: sum_list_distinct_conv_sum_set)
  then show ?thesis using assms by (simp add: sum_list_distinct_conv_sum_set sum_diff)
qed

lemma moved_ok:
  assumes "history_ok h" "moved h h' ks qs"
  shows "history_ok h'"
proof -
  have "distinct (packetHistory h)" using assms(1) ascending_distinct by (auto simp: history_ok_def)
  then have "sum_list (map Length (packetHistory h')) = sum_list (map Length (packetHistory h)) - sum_list (map Length (ks @ qs))"
    using assms(2) sum_list_without [of "packetHistory h" "ks @ qs" Length] by (simp add: moved_def)
  then show ?thesis using assms by (auto simp: history_ok_def moved_def sorted_wrt_filter)
qed

lemma moved_one:
  assumes "distinct (packetHistory h)" "p \<in> set (packetHistory h)"
  shows "moved h (onPacketAcked p h) [p] []" "moved h (queuePacketForRetransmission p h) [] [p]"
    "moved h (ackPacket alg now p h) [p] []" "moved h (losePacket alg p h) [] [p]" "moved h (queueRTO alg p h) [] [p]"
  using assms by (auto simp: moved_def onPacketAcked_def queuePacketForRetransmission_def ackPacket_def losePacket_def
      queueRTO_def Let_def distinct_remove1_removeAll removeAll_filter_not_eq intro!: filter_cong)

lemma moved_distinct: "moved h h' ks qs \<Longrightarrow> distinct (packetHistory h) \<Longrightarrow> distinct (packetHistory h')"
  by (simp add: moved_def)

lemma moved_fold_ack:
  assumes "distinct (packetHistory h)" "distinct ps" "set ps \<subseteq> set (packetHistory h)"
  shows "moved h (fold (ackPacket alg now) ps h) ps []"
  using assms
proof (induction ps arbitrary: h)
  case (Cons p ps)
  have m: "moved h (ackPacket alg now p h) [p] []" using moved_one(3) Cons.prems by auto
  then have "set ps \<subseteq> set (packetHistory (ackPacket alg now p h))" using Cons.prems by (auto simp: moved_def)
  from moved_trans [OF m Cons.IH [OF moved_distinct [OF m] _ this]] Cons.prems show ?case by simp
qed (simp add: moved_same)

lemma moved_fold_lose:
  assumes "distinct (packetHistory h)" "distinct ps" "set ps \<subseteq> set (packetHistory h)"
  shows "moved h (fold (losePacket alg) ps h) [] ps"
  using assms
proof (induction ps arbitrary: h)
  case (Cons p ps)
  have m: "moved h (losePacket alg p h) [] [p]" using moved_one(4) Cons.prems by auto
  then have "set ps \<subseteq> set (packetHistory (losePacket alg p h))" using Cons.prems by (auto simp: moved_def)
  from moved_trans [OF m Cons.IH [OF moved_distinct [OF m] _ this]] Cons.prems show ?case by simp
qed (simp add: moved_same)

lemma fst_lossLoop:
  "fst (lossLoop now d l lt els) =
    filter (\<lambda>el. time_Sub now (SendTime el) > d) (takeWhile (\<lambda>el. \<not> PacketNumber el > l) els)"
  by (induction now d l lt els rule: lossLoop.induct) (auto simp: Let_def split: prod.splits)

definition lostPackets :: "Time \<Rightarrow> 'c sentPacketHandler \<Rightarrow> Packet list" where
  "lostPackets now h = fst (lossLoop now (truncRat (float64 ((1 + timeReorderingFraction) *
     float64 (of_int (max (latestRTT (rttStats h)) (smoothedRTT (rttStats h))))))) (LargestAcked h) zeroTime (packetHistory h))"

lemma moved_detectLostPackets:
  assumes "distinct (packetHistory h)"
  shows "moved h (detectLostPackets alg now h) [] (lostPackets now h)"
proof -
  obtain lost lt where l: "lossLoop now (truncRat (float64 ((1 + timeReorderingFraction) *
     float64 (of_int (max (latestRTT (rttStats h)) (smoothedRTT (rttStats h))))))) (LargestAcked h) zeroTime (packetHistory h) = (lost, lt)"
    by fastforce
  let ?h = "h\<lparr>lossTime := lt, losses := losses h + of_nat (length lost)\<rparr>"
  have "lost = lostPackets now h" by (simp add: lostPackets_def l)
  then have "distinct lost" "set lost \<subseteq> set (packetHistory h)"
    using assms by (auto simp: lostPackets_def fst_lossLoop dest: set_takeWhileD)
  then have "moved ?h (fold (losePacket alg) lost ?h) [] lost" using assms by (intro moved_fold_lose) simp_all
  moreover have "moved h ?h [] []" by (rule moved_same) simp_all
  ultimately show ?thesis using moved_trans [of h ?h "[]" "[]"] \<open>lost = _\<close>
    by (fastforce simp: detectLostPackets_def l Let_def)
qed

lemma moved_SetInflightAsLost:
  assumes "distinct (packetHistory h)"
  shows "moved h (SetInflightAsLost alg h) [] (takeWhile (\<lambda>p. \<not> PacketNumber p > LargestAcked h) (packetHistory h))"
proof -
  let ?lost = "takeWhile (\<lambda>p. \<not> PacketNumber p > LargestAcked h) (packetHistory h)"
  let ?h = "h\<lparr>losses := losses h + of_nat (length ?lost)\<rparr>"
  have "moved ?h (fold (losePacket alg) ?lost ?h) [] ?lost"
    using assms by (intro moved_fold_lose) (auto dest: set_takeWhileD)
  moreover have "moved h ?h [] []" by (rule moved_same) simp_all
  ultimately show ?thesis using moved_trans [of h ?h "[]" "[]"] by (fastforce simp: SetInflightAsLost_def Let_def)
qed

lemma updateLossDetectionAlarm_keeps [simp]:
  "packetHistory (updateLossDetectionAlarm alg h) = packetHistory h"
  "retransmissionQueue (updateLossDetectionAlarm alg h) = retransmissionQueue h"
  "bytesInFlight (updateLossDetectionAlarm alg h) = bytesInFlight h"
  "lastSentPacketNumber (updateLossDetectionAlarm alg h) = lastSentPacketNumber h"
  "lossTime (updateLossDetectionAlarm alg h) = lossTime h"
  "tlpCount (updateLossDetectionAlarm alg h) = tlpCount h"
  "lastSentTime (updateLossDetectionAlarm alg h) = lastSentTime h"
  "rttStats (updateLossDetectionAlarm alg h) = rttStats h"
  by (simp_all add: updateLossDetectionAlarm_def)

lemma garbageCollectSkippedPackets_keeps [simp]:
  "packetHistory (garbageCollectSkippedPackets h) = packetHistory h"
  "retransmissionQueue (garbageCollectSkippedPackets h) = retransmissionQueue h"
  "bytesInFlight (garbageCollectSkippedPackets h) = bytesInFlight h"
  "lastSentPacketNumber (garbageCollectSkippedPackets h) = lastSentPacketNumber h"
  "alarm (garbageCollectSkippedPackets h) = alarm h"
  by (simp_all add: garbageCollectSkippedPackets_def)

lemma maybeUpdateRTT_keeps [simp]:
  "packetHistory (snd (maybeUpdateRTT alg now l d r h)) = packetHistory h"
  "retransmissionQueue (snd (maybeUpdateRTT alg now l d r h)) = retransmissionQueue h"
  "bytesInFlight (snd (maybeUpdateRTT alg now l d r h)) = bytesInFlight h"
  "lastSentPacketNumber (snd (maybeUpdateRTT alg now l d r h)) = lastSentPacketNumber h"
  "lastSentTime (snd (maybeUpdateRTT alg now l d r h)) = lastSentTime h"
  by (auto simp: maybeUpdateRTT_def resetSamples_def Let_def split: option.splits)

lemma moved_ackPackets:
  assumes "distinct (packetHistory h)" "distinct acked" "set acked \<subseteq> set (packetHistory h)"
    and "ackPackets alg now f rcv acked h = (e, h')"
  shows "moved h h' acked []"
proof -
  have "moved h (fold (ackPacket alg now) acked h) acked []" by (rule moved_fold_ack [OF assms(1-3)])
  then show ?thesis using assms(4)
    by (auto simp: ackPackets_def Let_def moved_def split: option.splits sum.splits)
qed

abbreviation covered :: "AckFrame \<Rightarrow> 'c sentPacketHandler \<Rightarrow> Packet list" where
  "covered f h \<equiv> filter (\<lambda>p. AckFrame_AcksPacket f (PacketNumber p)) (packetHistory h)"

lemma repeated_ack_covers_nothing:
  assumes "history_ok h" "AckFrame.LargestAcked f \<le> largestInOrderAcked h"
  shows "covered f h = []"
proof (cases "packetHistory h")
  case (Cons p ps)
  have "0 < PacketNumber p" using assms(1) Cons by (simp add: history_ok_def)
  then have "PacketNumber p - 1 < PacketNumber p" by (simp add: word_less_nat_alt unat_sub_if' word_le_nat_alt)
  then have "AckFrame.LargestAcked f < PacketNumber p"
    using assms(2) Cons by (simp add: largestInOrderAcked_def)
  then have "AckFrame.LargestAcked f < PacketNumber q" if "q \<in> set (packetHistory h)" for q
    using that assms(1) Cons by (auto simp: history_ok_def)
  then show ?thesis by (auto simp: filter_empty_conv AckFrame_AcksPacket_def AcksPacket_def)
qed simp

lemma largestInOrderAcked_keeps [simp]:
  "largestInOrderAcked (h\<lparr>largestReceivedPacketWithAck := pn\<rparr>) = largestInOrderAcked h"
  by (cases "packetHistory h") (simp_all add: largestInOrderAcked_def)

lemma moved_ReceivedAck:
  assumes "history_ok h" "wf_AckFrame f" "ReceivedAck alg now f pn rcv h = (None, h')"
  shows "\<exists>lost. moved h h' (covered f h) lost"
proof (cases "AckFrame.LargestAcked f \<le> largestInOrderAcked h")
  case True
  then have "h' = h\<lparr>largestReceivedPacketWithAck := pn\<rparr>"
    using assms(3) by (auto simp: ReceivedAck_def Let_def split: if_splits)
  then have "moved h h' [] []" by (intro moved_same) simp_all
  then show ?thesis using repeated_ack_covers_nothing [OF assms(1) True] by auto
next
  case False
  define h1 where "h1 = h\<lparr>largestReceivedPacketWithAck := pn, LargestAcked := AckFrame.LargestAcked f\<rparr>"
  obtain u h2 where rtt: "maybeUpdateRTT alg now (AckFrame.LargestAcked f) (DelayTime f) rcv h1 = (u, h2)" by fastforce
  define h3 where "h3 = (if u then h2\<lparr>congestion := sa_MaybeExitSlowStart alg (rttStats h2) (congestion h2)\<rparr> else h2)"
  have h3: "packetHistory h3 = packetHistory h" "moved h h3 [] []"
    using maybeUpdateRTT_keeps [of alg now "AckFrame.LargestAcked f" "DelayTime f" rcv h1, unfolded rtt snd_conv]
    by (auto simp: h3_def h1_def intro!: moved_same)
  have dist: "distinct (packetHistory h)" using assms(1) ascending_distinct by (auto simp: history_ok_def)
  have "determineNewlyAckedPackets f h3 = Inr (covered f h)"
    using newlyAcked_AcksPacket [of "packetHistory h"] assms(1,2)
    by (simp add: determineNewlyAckedPackets_def h3 history_ok_def wf_AckFrame_def AckFrame_AcksPacket_def)
  then obtain h4 where h4: "(if covered f h = [] then (None, h3) else ackPackets alg now f rcv (covered f h) h3) = (None, h4)"
    and h': "h' = (garbageCollectSkippedPackets (updateLossDetectionAlarm alg (detectLostPackets alg now h4)))
      \<lparr>stopWaiting := swm_ReceivedAck f (stopWaiting (garbageCollectSkippedPackets (updateLossDetectionAlarm alg (detectLostPackets alg now h4))))\<rparr>"
    using assms(3) False rtt
    by (auto simp: ReceivedAck_def Let_def h1_def [symmetric] h3_def [symmetric] andThen_None split: if_splits)
  have "moved h3 h4 (covered f h) []"
  proof (cases "covered f h = []")
    case False
    then show ?thesis using h4 dist by (intro moved_ackPackets) (auto simp: h3)
  qed (use h4 in \<open>simp add: moved_same\<close>)
  then have m: "moved h h4 (covered f h) []" using moved_trans [OF h3(2)] by simp
  have "moved h4 h' [] (lostPackets now h4)"
    using moved_detectLostPackets [OF moved_distinct [OF m dist]] by (simp add: h' moved_def)
  from moved_trans [OF m this] show ?thesis by auto
qed

lemma moved_ReceivedClosePath:
  assumes "history_ok h" "wf_ClosePathFrame f" "ReceivedClosePath alg now f pn h = (None, h')"
  shows "\<exists>lost. moved h h' (filter (\<lambda>p. ClosePathFrame_AcksPacket f (PacketNumber p)) (packetHistory h)) lost"
proof -
  let ?ks = "filter (\<lambda>p. ClosePathFrame_AcksPacket f (PacketNumber p)) (packetHistory h)"
  define h1 where "h1 = h\<lparr>largestReceivedPacketWithAck := pn\<rparr>"
  have dist: "distinct (packetHistory h)" using assms(1) ascending_distinct by (auto simp: history_ok_def)
  have "determineNewlyAckedPacketsClosePath f h1 = Inr ?ks"
    using newlyAcked_AcksPacket [of "packetHistory h"] assms(1,2)
    by (simp add: determineNewlyAckedPacketsClosePath_def h1_def history_ok_def wf_ClosePathFrame_def ClosePathFrame_AcksPacket_def)
  then have h': "h' = garbageCollectSkippedPackets (SetInflightAsLost alg (fold (ackPacket alg now) ?ks h1))"
    using assms(3) by (auto simp: ReceivedClosePath_def Let_def h1_def [symmetric] split: if_splits)
  have m1: "moved h h1 [] []" by (rule moved_same) (simp_all add: h1_def)
  have "moved h1 (fold (ackPacket alg now) ?ks h1) ?ks []" using dist by (intro moved_fold_ack) (auto simp: h1_def)
  from moved_trans [OF m1 this] have m2: "moved h (fold (ackPacket alg now) ?ks h1) ?ks []" by simp
  from moved_trans [OF m2 moved_SetInflightAsLost [OF moved_distinct [OF m2 dist]]]
  show ?thesis unfolding h' by (auto simp: moved_def)
qed

lemma moved_queueAll:
  assumes "distinct (packetHistory h)"
  shows "moved h (queueAll alg h) [] (packetHistory h)"
  using assms
proof (induction alg h rule: queueAll.induct)
  case (1 alg h)
  show ?case
  proof (cases "packetHistory h")
    case Nil
    then show ?thesis by (subst queueAll.simps) (simp add: moved_def)
  next
    case (Cons p ps)
    have m: "moved h (queueRTO alg p h) [] [p]" using moved_one(5) [OF 1(2)] Cons by simp
    have "packetHistory (queueRTO alg p h) = ps"
      using m 1(2) Cons by (auto simp: moved_def filter_id_conv)
    then show ?thesis using moved_trans [OF m 1(1) [OF Cons moved_distinct [OF m 1(2)]]] Cons
      by (subst queueAll.simps) simp
  qed
qed

lemma moved_retransmitOldest:
  assumes "distinct (packetHistory h)"
  shows "moved h (retransmitOldestPacket alg h) [] (take 1 (packetHistory h))"
  using moved_one(5) [OF assms] by (cases "packetHistory h") (simp_all add: retransmitOldestPacket_def moved_same)

lemma moved_timedOut: "moved h h' ks qs \<Longrightarrow> moved h (timedOut alg h') ks qs"
  by (simp add: moved_def timedOut_def)

lemma moved_retransmitOldestTwo:
  assumes "distinct (packetHistory h)"
  shows "moved h (retransmitOldestTwoPackets alg h) [] (take 2 (packetHistory h))"
proof -
  note m = moved_retransmitOldest [OF assms, of alg]
  have "packetHistory (retransmitOldestPacket alg h) = drop 1 (packetHistory h)"
    using m assms by (cases "packetHistory h") (auto simp: moved_def filter_id_conv)
  then have "take 1 (packetHistory h) @ take 1 (packetHistory (retransmitOldestPacket alg h)) = take 2 (packetHistory h)"
    by (cases "packetHistory h"; cases "tl (packetHistory h)") auto
  then show ?thesis
    using moved_timedOut [OF moved_trans [OF m moved_retransmitOldest [OF moved_distinct [OF m assms], of alg]], of alg]
    by (simp add: retransmitOldestTwoPackets_def)
qed

lemma moved_retransmitTLP:
  assumes "distinct (packetHistory h)"
  shows "moved h (retransmitTLP h) [] (if packetHistory h = [] then [] else [last (packetHistory h)])"
  using moved_one(2) [OF assms, of "last (packetHistory h)"] by (simp add: retransmitTLP_def moved_same)

lemma moved_OnAlarm:
  assumes "distinct (packetHistory h)"
  shows "\<exists>qs. moved h (OnAlarm alg now cb h) [] qs"
proof -
  have upd: "moved h (updateLossDetectionAlarm alg h') [] qs" if "moved h h' [] qs" for h' qs
    using that by (simp add: moved_def)
  have tlp: "moved h (h'\<lparr>tlpCount := n\<rparr>) [] qs" "moved h (h'\<lparr>rtoCount := n\<rparr>) [] qs" if "moved h h' [] qs" for h' n qs
    using that by (simp_all add: moved_def)
  note moves = moved_detectLostPackets [OF assms, of alg now] tlp(1) [OF moved_retransmitTLP [OF assms]]
    tlp(2) [OF moved_timedOut [OF moved_queueAll [OF assms]]] tlp(2) [OF moved_retransmitOldestTwo [OF assms]]
  show ?thesis
  proof (cases "hasOutstandingRetransmittablePacket h")
    case False
    then have "moved h (OnAlarm alg now cb h) [] []" by (intro moved_same) (simp_all add: OnAlarm_def)
    then show ?thesis by blast
  next
    case True
    then show ?thesis unfolding OnAlarm_def Let_def retransmitAllPackets_def using moves by (auto intro!: upd exI)
  qed
qed

section \<open>Every run of the handler\<close>

definition numbers :: "Packet list \<Rightarrow> PacketNumber set" where
  "numbers ps = PacketNumber ` set ps"

abbreviation outstanding :: "'c sentPacketHandler \<Rightarrow> PacketNumber set" where
  "outstanding h \<equiv> numbers (packetHistory h)"

text \<open>The packets queued between two states, in the calls that only add to the queue.\<close>

definition queuedNow :: "'c sentPacketHandler \<Rightarrow> 'c sentPacketHandler \<Rightarrow> PacketNumber set" where
  "queuedNow h h' = numbers (drop (length (retransmissionQueue h)) (retransmissionQueue h'))"

text \<open>
  A run of the handler of a path: \<open>S\<close> has the numbers of the packets sent that ask for retransmission, \<open>A\<close> those
  of them that a frame of the peer acknowledged while they were outstanding, and \<open>Q\<close> those that were given up for
  retransmission. A call that returns an error ends the connection, or changes nothing.
\<close>

inductive sender_run :: "'c SendAlgorithm \<Rightarrow> 'c sentPacketHandler \<Rightarrow> PacketNumber set \<Rightarrow> PacketNumber set \<Rightarrow> PacketNumber set \<Rightarrow> bool"
    for alg where
  s_start: "0 \<le> smoothedRTT rs \<Longrightarrow> sender_run alg (NewSentPacketHandler pid rs bs c) {} {} {}"
| s_sent: "sender_run alg h S A Q \<Longrightarrow> 0 < now \<Longrightarrow> SentPacket alg now p h = (None, h') \<Longrightarrow>
    sender_run alg h' (if HasRetransmittableFrames (Frames p) then insert (PacketNumber p) S else S) A Q"
| s_ack: "sender_run alg h S A Q \<Longrightarrow> wf_AckFrame f \<Longrightarrow> ReceivedAck alg now f pn rcv h = (None, h') \<Longrightarrow>
    sender_run alg h' S (A \<union> {n \<in> outstanding h. AckFrame_AcksPacket f n}) (Q \<union> queuedNow h h')"
| s_close_path: "sender_run alg h S A Q \<Longrightarrow> wf_ClosePathFrame g \<Longrightarrow> ReceivedClosePath alg now g pn h = (None, h') \<Longrightarrow>
    sender_run alg h' S (A \<union> {n \<in> outstanding h. ClosePathFrame_AcksPacket g n}) (Q \<union> queuedNow h h')"
| s_inflight: "sender_run alg h S A Q \<Longrightarrow> SetInflightAsLost alg h = h' \<Longrightarrow> sender_run alg h' S A (Q \<union> queuedNow h h')"
| s_alarm: "sender_run alg h S A Q \<Longrightarrow> OnAlarm alg now cb h = h' \<Longrightarrow> sender_run alg h' S A (Q \<union> queuedNow h h')"
| s_dequeue: "sender_run alg h S A Q \<Longrightarrow> DequeuePacketForRetransmission h = (r, h') \<Longrightarrow> sender_run alg h' S A Q"
| s_duplicate: "sender_run alg h S A Q \<Longrightarrow> sender_run alg (DuplicatePacket p h) S A Q"
| s_stop_waiting: "sender_run alg h S A Q \<Longrightarrow> GetStopWaitingFrame force h = (w, h') \<Longrightarrow> sender_run alg h' S A Q"

definition accounted :: "'c sentPacketHandler \<Rightarrow> PacketNumber set \<Rightarrow> PacketNumber set \<Rightarrow> PacketNumber set \<Rightarrow> bool" where
  "accounted h S A Q \<longleftrightarrow> S = outstanding h \<union> A \<union> Q \<and> outstanding h \<inter> A = {} \<and> outstanding h \<inter> Q = {} \<and> A \<inter> Q = {} \<and>
     (\<forall>n \<in> S. n \<le> lastSentPacketNumber h)"

lemma accounted_moved:
  assumes "accounted h S A Q" "history_ok h" "moved h h' ks qs"
  shows "accounted h' S (A \<union> numbers ks) (Q \<union> queuedNow h h')"
proof -
  have q: "queuedNow h h' = numbers qs" using assms(3) by (simp add: queuedNow_def moved_def)
  have inj: "inj_on PacketNumber (set (packetHistory h))" by (rule ascending_inj) (use assms(2) in \<open>simp add: history_ok_def\<close>)
  have d: "distinct (ks @ qs)" "set (ks @ qs) \<subseteq> set (packetHistory h)"
    "packetHistory h' = filter (\<lambda>p. p \<notin> set (ks @ qs)) (packetHistory h)" "lastSentPacketNumber h' = lastSentPacketNumber h"
    using assms(3) unfolding moved_def by blast+
  have sub: "set ks \<subseteq> set (packetHistory h)" "set qs \<subseteq> set (packetHistory h)" "set ks \<inter> set qs = {}" using d(1,2) by auto
  have hist: "set (packetHistory h') = set (packetHistory h) - (set ks \<union> set qs)" unfolding d(3) by auto
  have out: "outstanding h' = outstanding h - (numbers ks \<union> numbers qs)"
    using inj_on_image_set_diff [OF inj, of "set (packetHistory h)" "set ks \<union> set qs"] sub
    unfolding numbers_def hist by (simp add: image_Un)
  have dis: "numbers ks \<inter> numbers qs = {}"
    using inj_on_image_Int [OF inj sub(1,2)] sub(3) unfolding numbers_def by simp
  have ksqs: "numbers ks \<subseteq> outstanding h" "numbers qs \<subseteq> outstanding h"
    unfolding numbers_def using sub by (intro image_mono; simp)+
  show ?thesis using assms(1) dis ksqs unfolding accounted_def q out d(4) by blast
qed

lemma strip_nonempty: "(stripNonRetransmittableFrames fs \<noteq> []) = HasRetransmittableFrames fs"
  by (auto simp: stripNonRetransmittableFrames_def HasRetransmittableFrames_def filter_empty_conv list_ex_iff)

text \<open>What a packet leaves in the handler when it is sent, before the timer is set.\<close>

definition sentHandler :: "Time \<Rightarrow> Packet \<Rightarrow> 'c sentPacketHandler \<Rightarrow> 'c sentPacketHandler \<Rightarrow> bool" where
  "sentHandler now p h h' \<longleftrightarrow> lastSentPacketNumber h < PacketNumber p \<and> lastSentPacketNumber h' = PacketNumber p \<and>
     lastSentTime h' = now \<and> retransmissionQueue h' = retransmissionQueue h \<and> rttStats h' = rttStats h \<and>
     packetHistory h' = packetHistory h @ (if HasRetransmittableFrames (Frames p)
       then [p\<lparr>Frames := stripNonRetransmittableFrames (Frames p), SendTime := now\<rparr>] else []) \<and>
     bytesInFlight h' = bytesInFlight h + (if HasRetransmittableFrames (Frames p) then Length p else 0)"

lemma updateLossDetectionAlarm_sent [simp]:
  "lastSentTime (updateLossDetectionAlarm alg h) = lastSentTime h" "rttStats (updateLossDetectionAlarm alg h) = rttStats h"
  by (simp_all add: updateLossDetectionAlarm_def)

lemma SentPacket_None:
  assumes "SentPacket alg now p h = (None, h')"
  shows "\<exists>h0. h' = updateLossDetectionAlarm alg h0 \<and> sentHandler now p h h0"
proof -
  have lt: "lastSentPacketNumber h < PacketNumber p" using assms unfolding SentPacket_def by (simp split: if_split_asm)
  have "\<exists>h0. h' = updateLossDetectionAlarm alg h0 \<and> sentHandler now p h h0" if "HasRetransmittableFrames (Frames p)"
    using assms that strip_nonempty [of "Frames p"] lt unfolding SentPacket_def Let_def
    by (auto simp: sentHandler_def split: if_split_asm)
  moreover have "\<exists>h0. h' = updateLossDetectionAlarm alg h0 \<and> sentHandler now p h h0" if "\<not> HasRetransmittableFrames (Frames p)"
    using assms that strip_nonempty [of "Frames p"] lt unfolding SentPacket_def Let_def
    by (auto simp: sentHandler_def split: if_split_asm)
  ultimately show ?thesis by blast
qed

lemma SentPacket_ok:
  assumes "history_ok h" "accounted h S A Q" "SentPacket alg now p h = (None, h')"
  shows "history_ok h' \<and> accounted h' (if HasRetransmittableFrames (Frames p) then insert (PacketNumber p) S else S) A Q"
proof -
  obtain h0 where h': "h' = updateLossDetectionAlarm alg h0" and s: "sentHandler now p h h0" using SentPacket_None [OF assms(3)] by blast
  have lt: "lastSentPacketNumber h < PacketNumber p" using s unfolding sentHandler_def by blast
  have old: "n < PacketNumber p" if "n \<le> lastSentPacketNumber h" for n using that lt by (rule le_less_trans)
  then have "n \<le> PacketNumber p" if "n \<le> lastSentPacketNumber h" for n using that by (simp add: less_imp_le)
  moreover have "0 < PacketNumber p" using le_less_trans [OF _ lt, of 0] by simp
  ultimately have "history_ok h'"
    using assms(1) old s strip_nonempty [of "Frames p"] unfolding h' history_ok_def sentHandler_def
    by (auto simp: sorted_wrt_append stripNonRetransmittableFrames_def list_all_iff)
  moreover have "accounted h' (if HasRetransmittableFrames (Frames p) then insert (PacketNumber p) S else S) A Q"
    using assms(2) old s unfolding h' accounted_def sentHandler_def numbers_def
    by (auto simp: less_imp_le dest: old)
  ultimately show ?thesis by blast
qed

lemma sender_run_ok:
  assumes "sender_run alg h S A Q"
  shows "history_ok h \<and> accounted h S A Q"
  using assms
proof (induction rule: sender_run.induct)
  case (s_start rs pid bs c)
  then show ?case by (simp add: history_ok_def accounted_def NewSentPacketHandler_def numbers_def)
next
  case (s_sent h S A Q now p h')
  then show ?case using SentPacket_ok by blast
next
  case (s_ack h S A Q f now pn rcv h')
  then obtain lost where m: "moved h h' (covered f h) lost" using moved_ReceivedAck by blast
  have "numbers (covered f h) = {n \<in> outstanding h. AckFrame_AcksPacket f n}" by (auto simp: numbers_def)
  then show ?case using s_ack.IH moved_ok [OF _ m] accounted_moved [OF _ _ m] by metis
next
  case (s_close_path h S A Q g now pn h')
  let ?ks = "filter (\<lambda>p. ClosePathFrame_AcksPacket g (PacketNumber p)) (packetHistory h)"
  obtain lost where m: "moved h h' ?ks lost" using s_close_path moved_ReceivedClosePath by blast
  have "numbers ?ks = {n \<in> outstanding h. ClosePathFrame_AcksPacket g n}" by (auto simp: numbers_def)
  then show ?case using s_close_path.IH moved_ok [OF _ m] accounted_moved [OF _ _ m] by metis
next
  case (s_inflight h S A Q h')
  have "distinct (packetHistory h)" using s_inflight.IH ascending_distinct by (auto simp: history_ok_def)
  from moved_SetInflightAsLost [OF this, of alg] obtain qs where m: "moved h h' [] qs" using s_inflight.hyps(2) by blast
  then show ?case using s_inflight.IH moved_ok [OF _ m] accounted_moved [OF _ _ m] by (simp add: numbers_def)
next
  case (s_alarm h S A Q now cb h')
  have "distinct (packetHistory h)" using s_alarm.IH ascending_distinct by (auto simp: history_ok_def)
  from moved_OnAlarm [OF this, of alg now cb] obtain qs where m: "moved h h' [] qs" using s_alarm.hyps(2) by blast
  then show ?case using s_alarm.IH moved_ok [OF _ m] accounted_moved [OF _ _ m] by (simp add: numbers_def)
next
  case (s_dequeue h S A Q r h')
  then have "packetHistory h' = packetHistory h" "bytesInFlight h' = bytesInFlight h" "lastSentPacketNumber h' = lastSentPacketNumber h"
    by (auto simp: DequeuePacketForRetransmission_def split: list.splits)
  then show ?case using s_dequeue.IH by (simp add: history_ok_def accounted_def)
next
  case (s_duplicate h S A Q p)
  then show ?case by (simp add: history_ok_def accounted_def DuplicatePacket_def)
next
  case (s_stop_waiting h S A Q force w h')
  then show ?case by (auto simp: history_ok_def accounted_def GetStopWaitingFrame_def split: prod.splits)
qed

text \<open>An ACK in order, for packets that were sent and not skipped, is accepted.\<close>

lemma UpdateBDW_succeeds: "0 < d \<Longrightarrow> d < 2 ^ 64 \<Longrightarrow> \<exists>b'. UpdateBDW n d b = Inr b'"
  by (auto simp: UpdateBDW_def Let_def word_of_int_eq_0_iff zdvd_not_zless)

lemma ackPackets_succeeds:
  assumes "\<forall>p \<in> set acked. SendTime p < rcv" "- (2 ^ 63) \<le> DelayTime f"
  shows "\<exists>h'. ackPackets alg now f rcv acked h = (None, h')"
proof (cases "find (\<lambda>p. PacketNumber p = AckFrame.LargestAcked f) acked")
  case None
  then show ?thesis by (simp add: ackPackets_def bandwidthSample_def)
next
  case (Some p)
  then have "p \<in> set acked" by (auto simp: find_Some_iff)
  then have t: "0 < time_Sub rcv (SendTime p)" "time_Sub rcv (SendTime p) < 2 ^ 63" using assms(1) by (auto simp: time_Sub_def)
  define d where "d = (if time_Sub rcv (SendTime p) > DelayTime f then time_Sub rcv (SendTime p) - DelayTime f else time_Sub rcv (SendTime p))"
  have "0 < d" "d < 2 ^ 64" using t assms(2) by (auto simp: d_def)
  moreover have "bandwidthSample f rcv acked = Some d" by (simp add: bandwidthSample_def Some d_def Let_def)
  ultimately obtain b' where "UpdateBDW n d (bdwStats k) = Inr b'" "bandwidthSample f rcv acked = Some d"
    if "n = bytesInFlight h - bytesInFlight k" "k = fold (ackPacket alg now) acked h" for n k
    using UpdateBDW_succeeds by blast
  then show ?thesis by (simp add: ackPackets_def Let_def)
qed

lemma ReceivedAck_accepts:
  assumes "history_ok h" "wf_AckFrame f" "AckFrame.LargestAcked f \<le> lastSentPacketNumber h"
    and "largestReceivedPacketWithAck h < pn" "\<not> skippedPacketsAcked f h"
    and "\<forall>p \<in> set (packetHistory h). SendTime p < rcv" "- (2 ^ 63) \<le> DelayTime f"
  shows "\<exists>h'. ReceivedAck alg now f pn rcv h = (None, h')"
proof (cases "AckFrame.LargestAcked f \<le> largestInOrderAcked h")
  case False
  define h1 where "h1 = h\<lparr>largestReceivedPacketWithAck := pn, LargestAcked := AckFrame.LargestAcked f\<rparr>"
  obtain u h2 where r: "maybeUpdateRTT alg now (AckFrame.LargestAcked f) (DelayTime f) rcv h1 = (u, h2)" by fastforce
  define h3 where "h3 = (if u then h2\<lparr>congestion := sa_MaybeExitSlowStart alg (rttStats h2) (congestion h2)\<rparr> else h2)"
  have hist: "packetHistory h3 = packetHistory h"
    using maybeUpdateRTT_keeps(1) [of alg now "AckFrame.LargestAcked f" "DelayTime f" rcv h1, unfolded r snd_conv] by (simp add: h3_def h1_def)
  have d: "determineNewlyAckedPackets f h3 = Inr (covered f h)"
    using newlyAcked_AcksPacket [of "packetHistory h"] assms(1,2)
    by (simp add: determineNewlyAckedPackets_def hist history_ok_def wf_AckFrame_def AckFrame_AcksPacket_def)
  obtain h4 where "(if covered f h = [] then (None, h3) else ackPackets alg now f rcv (covered f h) h3) = (None, h4)"
    using ackPackets_succeeds [of "covered f h" rcv f alg now h3] assms(6,7) by (cases "covered f h = []") auto
  moreover have "\<not> skippedPacketsAcked f h1" using assms(5) by (simp add: skippedPacketsAcked_def h1_def)
  ultimately show ?thesis using assms(3,4) False r d
    by (cases "covered f h = []")
       (simp_all add: ReceivedAck_def Let_def not_less not_le h1_def [symmetric] h3_def [symmetric] andThen_def)
qed (use assms(3,4) in \<open>simp add: ReceivedAck_def Let_def not_less not_le\<close>)

section \<open>An example\<close>

text \<open>A path sends two packets, and then the timer fires.\<close>

definition examplePacket :: "PacketNumber \<Rightarrow> Packet" where
  "examplePacket n = \<lparr>PacketNumber = n, Frames = [PingF PingFrame], Length = 100 * n,
     EncryptionLevel = EncryptionForwardSecure, SendTime = zeroTime\<rparr>"

definition exampleStart :: "cubicSender sentPacketHandler" where
  "exampleStart = NewSentPacketHandler 0 (NewRTTStatsWithSmoothedRTT 0) (NewBDWStats 0)
     (NewCubicSender False InitialCongestionWindow DefaultMaxWindow)"

definition exampleSend :: "PacketNumber \<Rightarrow> cubicSender sentPacketHandler \<Rightarrow> error option \<times> cubicSender sentPacketHandler" where
  "exampleSend n = SentPacket (cubicAlgorithm id) (1000000 * sint n) (examplePacket n)"

definition exampleSent :: "cubicSender sentPacketHandler" where
  "exampleSent = snd (exampleSend 2 (snd (exampleSend 1 exampleStart)))"

definition exampleTimedOut :: "cubicSender sentPacketHandler" where
  "exampleTimedOut = OnAlarm (cubicAlgorithm id) 502000000 None exampleSent"

lemma exampleSent_eval:
  "fst (exampleSend 1 exampleStart) = None" "fst (exampleSend 2 (snd (exampleSend 1 exampleStart))) = None"
  "map PacketNumber (packetHistory exampleSent) = [1, 2]" "retransmissionQueue exampleSent = []"
  by code_simp+

lemma exampleTimedOut_eval:
  "map PacketNumber (packetHistory exampleTimedOut) = [1]" "map PacketNumber (retransmissionQueue exampleTimedOut) = [2]"
  "bytesInFlight exampleTimedOut = 100"
  by code_simp+

lemma exampleSend_run:
  assumes "sender_run (cubicAlgorithm id) h S A Q" "fst (exampleSend n h) = None" "0 < sint n"
  shows "sender_run (cubicAlgorithm id) (snd (exampleSend n h)) (insert n S) A Q"
  using s_sent [OF assms(1), of "1000000 * sint n" "examplePacket n" "snd (exampleSend n h)"] assms(2,3)
  by (simp add: prod_eq_iff exampleSend_def HasRetransmittableFrames_def examplePacket_def)

lemma exampleSent_run: "sender_run (cubicAlgorithm id) exampleSent {1, 2} {} {}"
proof -
  have "sender_run (cubicAlgorithm id) exampleStart {} {} {}"
    unfolding exampleStart_def by (rule s_start) (simp add: NewRTTStatsWithSmoothedRTT_def)
  from exampleSend_run [OF exampleSend_run [OF this exampleSent_eval(1)] exampleSent_eval(2)]
  show ?thesis by (simp add: exampleSent_def insert_commute)
qed

lemma exampleTimedOut_run: "sender_run (cubicAlgorithm id) exampleTimedOut {1, 2} {} {2}"
proof -
  have "queuedNow exampleSent exampleTimedOut = set (map PacketNumber (retransmissionQueue exampleTimedOut))"
    by (simp add: queuedNow_def numbers_def exampleSent_eval)
  then show ?thesis using s_alarm [OF exampleSent_run exampleTimedOut_def [symmetric]] by (simp add: exampleTimedOut_eval)
qed

section \<open>The guarantees\<close>

text \<open>
  C15. the walk of \<^verbatim>\<open>determineNewlyAckedPackets\<close> over the history and the ranges in parallel never reports its own
  bug error, and finds in every reachable state exactly the outstanding packets that \<^verbatim>\<open>AcksPacket\<close>, a search per
  packet, says the frame covers; the same for the ranges of a CLOSE_PATH frame.
\<close>

theorem newly_acked_equivalence:
  assumes "sender_run alg h S A Q" "wf_AckFrame f" "wf_ClosePathFrame g"
  shows "determineNewlyAckedPackets f h = Inr (filter (\<lambda>p. AckFrame_AcksPacket f (PacketNumber p)) (packetHistory h)) \<and>
    determineNewlyAckedPacketsClosePath g h = Inr (filter (\<lambda>p. ClosePathFrame_AcksPacket g (PacketNumber p)) (packetHistory h))"
proof -
  have "ascending (packetHistory h)" using sender_run_ok [OF assms(1)] by (simp add: history_ok_def)
  then show ?thesis using newlyAcked_AcksPacket [of "packetHistory h"] assms(2,3)
    by (simp add: determineNewlyAckedPackets_def determineNewlyAckedPacketsClosePath_def wf_AckFrame_def wf_ClosePathFrame_def
        AckFrame_AcksPacket_def ClosePathFrame_AcksPacket_def)
qed

theorem newly_acked_equivalence_witness:
  "determineNewlyAckedPackets \<lparr>PathID = 0, LargestAcked = 1, LowestAcked = 1, AckRanges = [], PacketReceivedTime = 0, DelayTime = 0\<rparr>
     exampleTimedOut = Inr (packetHistory exampleTimedOut)"
  using newly_acked_equivalence [OF exampleTimedOut_run,
      of "\<lparr>PathID = 0, LargestAcked = 1, LowestAcked = 1, AckRanges = [], PacketReceivedTime = 0, DelayTime = 0\<rparr>"
         "\<lparr>ClosePathFrame.PathID = 0, LargestAcked = 1, LowestAcked = 1, AckRanges = []\<rparr>"] exampleTimedOut_eval(1)
  by (auto simp: wf_AckFrame_def wf_ClosePathFrame_def wf_ack_def AckFrame_AcksPacket_def AcksPacket_def filter_id_conv)

text \<open>
  C3. nothing that was sent is lost track of. In every run, under any congestion control, the packets that ask for
  retransmission are the outstanding ones, the ones acknowledged while outstanding and the ones queued for
  retransmission, and no packet is two of these; the history is in the order of the packet numbers; and the
  bytes in flight are the lengths of the outstanding packets.
\<close>

theorem packet_accounting:
  assumes "sender_run alg h S A Q"
  shows "S = outstanding h \<union> A \<union> Q \<and> outstanding h \<inter> A = {} \<and> outstanding h \<inter> Q = {} \<and> A \<inter> Q = {} \<and>
    bytesInFlight h = sum_list (map Length (packetHistory h)) \<and> sorted_wrt (<) (map PacketNumber (packetHistory h)) \<and>
    (\<forall>n \<in> S. n \<le> lastSentPacketNumber h)"
  using sender_run_ok [OF assms] by (simp add: history_ok_def accounted_def sorted_wrt_map)

theorem packet_accounting_witness:
  "{1, 2} = outstanding exampleTimedOut \<union> {} \<union> {2} \<and> outstanding exampleTimedOut \<inter> {2} = {} \<and> bytesInFlight exampleTimedOut = 100"
  using packet_accounting [OF exampleTimedOut_run] exampleTimedOut_eval(3) by simp

end
