(* ===== verification/LossTimer.thy ===== *)
theory LossTimer
  imports PacketAccounting
begin

text \<open>
  The loss detection timer of \<^verbatim>\<open>ackhandler/sent_packet_handler.go\<close>: it is set while a packet waits for its
  acknowledgement, its backoff stays in bounds, and when it keeps firing every packet is queued again. What the
  handler needs of the congestion control for this is the locale \<open>send_algorithm\<close>, which the CUBIC sender of the
  initial path and the OLIA senders of the other paths satisfy.
\<close>

section \<open>What the handler needs of the congestion control\<close>

text \<open>
  The OLIA sender of path \<open>pid\<close> as a value of the interface. Its state is the map of all senders, \<open>others\<close> has the
  statistics of the other paths and \<open>order\<close> the order of the iteration over the map.
\<close>

definition oliaAlgorithm :: "(PathID \<Rightarrow> RTTStats) \<Rightarrow> PathID list \<Rightarrow> PathID \<Rightarrow> oliaSenders SendAlgorithm" where
  "oliaAlgorithm others order pid = \<lparr>
     sa_OnPacketSent = (\<lambda>now bytesInFlight p n r. Mapping.map_entry pid (olia_OnPacketSent p n r)),
     sa_GetCongestionWindow = (\<lambda>m. case Mapping.lookup m pid of Some os \<Rightarrow> GetCongestionWindow os | None \<Rightarrow> 0),
     sa_MaybeExitSlowStart = (\<lambda>rs. Mapping.map_entry pid (olia_MaybeExitSlowStart rs)),
     sa_OnPacketAcked = (\<lambda>now rs. olia_OnPacketAcked (others(pid := rs)) order pid),
     sa_OnPacketLost = (\<lambda>p a n. Mapping.map_entry pid (olia_OnPacketLost p a n)),
     sa_OnRetransmissionTimeout = (\<lambda>r. Mapping.map_entry pid (olia_OnRetransmissionTimeout r)),
     sa_RetransmissionDelay = olia_RetransmissionDelay,
     sa_SmoothedRTT = smoothedRTT\<rparr>"

section \<open>What the calls keep\<close>

lemma packet_keeps [simp]:
  "rttStats (ackPacket alg now p h) = rttStats h" "lastSentTime (ackPacket alg now p h) = lastSentTime h"
  "alarm (ackPacket alg now p h) = alarm h"
  "rttStats (losePacket alg p h) = rttStats h" "lastSentTime (losePacket alg p h) = lastSentTime h"
  "alarm (losePacket alg p h) = alarm h" "lossTime (losePacket alg p h) = lossTime h" "LargestAcked (losePacket alg p h) = LargestAcked h"
  "rttStats (queueRTO alg p h) = rttStats h" "lastSentTime (queueRTO alg p h) = lastSentTime h"
  "lossTime (queueRTO alg p h) = lossTime h" "LargestAcked (queueRTO alg p h) = LargestAcked h"
  by (simp_all add: ackPacket_def onPacketAcked_def losePacket_def queueRTO_def queuePacketForRetransmission_def Let_def)

lemma fold_keeps:
  assumes "\<And>x h. g (f x h) = g h"
  shows "g (fold f xs h) = g h"
  using assms by (induction xs arbitrary: h) simp_all

lemmas fold_ack_keeps [simp] = fold_keeps [where f = "ackPacket alg now" and g = rttStats for alg now, OF packet_keeps(1)]
  fold_keeps [where f = "ackPacket alg now" and g = lastSentTime for alg now, OF packet_keeps(2)]
  fold_keeps [where f = "ackPacket alg now" and g = alarm for alg now, OF packet_keeps(3)]
  fold_keeps [where f = "losePacket alg" and g = rttStats for alg, OF packet_keeps(4)]
  fold_keeps [where f = "losePacket alg" and g = lastSentTime for alg, OF packet_keeps(5)]
  fold_keeps [where f = "losePacket alg" and g = alarm for alg, OF packet_keeps(6)]
  fold_keeps [where f = "losePacket alg" and g = lossTime for alg, OF packet_keeps(7)]
  fold_keeps [where f = "losePacket alg" and g = LargestAcked for alg, OF packet_keeps(8)]

lemma detectLostPackets_keeps [simp]:
  "rttStats (detectLostPackets alg now h) = rttStats h" "lastSentTime (detectLostPackets alg now h) = lastSentTime h"
  "LargestAcked (detectLostPackets alg now h) = LargestAcked h"
  by (simp_all add: detectLostPackets_def Let_def split: prod.splits)

lemma SetInflightAsLost_keeps [simp]:
  "rttStats (SetInflightAsLost alg h) = rttStats h" "lastSentTime (SetInflightAsLost alg h) = lastSentTime h"
  "alarm (SetInflightAsLost alg h) = alarm h"
  by (simp_all add: SetInflightAsLost_def Let_def)

lemma queueAll_keeps [simp]:
  "rttStats (queueAll alg h) = rttStats h" "lastSentTime (queueAll alg h) = lastSentTime h"
  by (induction alg h rule: queueAll.induct; subst queueAll.simps; simp split: list.splits)+

lemma OnAlarm_keeps [simp]:
  "rttStats (OnAlarm alg now cb h) = rttStats h" "lastSentTime (OnAlarm alg now cb h) = lastSentTime h"
  by (auto simp: OnAlarm_def Let_def retransmitTLP_def queuePacketForRetransmission_def retransmitAllPackets_def
      retransmitOldestTwoPackets_def retransmitOldestPacket_def timedOut_def split: list.splits)

lemma ackPackets_keeps:
  assumes "ackPackets alg now f rcv acked h = (e, h')"
  shows "rttStats h' = rttStats h" "lastSentTime h' = lastSentTime h"
  using assms by (auto simp: ackPackets_def Let_def split: option.splits sum.splits)

text \<open>The smoothed round-trip time stays nonnegative, whatever the peer reports.\<close>

lemma weighted_nonneg:
  assumes "0 \<le> x" "0 \<le> y" "0 \<le> a" "0 \<le> b"
  shows "0 \<le> weighted a x b y"
proof -
  have f: "0 \<le> float32 q" if "0 \<le> q" for q using float32_near(1) [OF that] that by linarith
  have "0 \<le> x sdiv Microsecond" "0 \<le> y sdiv Microsecond" using assms by (simp_all add: sdiv_nonneg Microsecond_def)
  then have "0 \<le> float32 (float32 (a * float32 (of_int (x sdiv Microsecond))) + float32 (b * float32 (of_int (y sdiv Microsecond))))"
    using assms by (intro f add_nonneg_nonneg mult_nonneg_nonneg) auto
  then show ?thesis by (simp add: weighted_def truncRat_def Microsecond_def)
qed

lemma UpdateRTT_nonneg:
  assumes "0 \<le> smoothedRTT r"
  shows "0 \<le> smoothedRTT (UpdateRTT d a now r)"
proof (cases "d = InfDuration \<or> d \<le> 0")
  case False
  then have "0 < (if d > a then d - a else d)" by simp
  then show ?thesis using assms False unfolding UpdateRTT_def Let_def
    by (auto intro!: weighted_nonneg simp: oneMinusAlpha_def rttAlpha_def)
qed (use assms in \<open>auto simp: UpdateRTT_def\<close>)

lemma resetSamples_keeps [simp]:
  "smoothedRTT (rttStats (resetSamples alg now h)) = smoothedRTT (rttStats h)"
  "packetHistory (resetSamples alg now h) = packetHistory h"
  by (simp_all add: resetSamples_def SettimefornumMinRTTsamplesRemaining_def SetnumMinRTTsamplesRemaining_def)

lemma maybeUpdateRTT_nonneg:
  assumes "0 \<le> smoothedRTT (rttStats h)"
  shows "0 \<le> smoothedRTT (rttStats (snd (maybeUpdateRTT alg now l d r h)))"
  unfolding maybeUpdateRTT_def Let_def
  using assms by (auto simp: SetnumMinRTTsamplesRemaining_def intro!: UpdateRTT_nonneg split: option.splits)

section \<open>The timer is set\<close>

text \<open>
  A frame that is accepted leaves either only its packet number, or a state in which packets were acknowledged and
  declared lost and the timer was set anew.
\<close>

lemma ReceivedAck_timer:
  assumes "ReceivedAck alg now f pn rcv h = (None, h')" "0 \<le> smoothedRTT (rttStats h)"
  shows "h' = h\<lparr>largestReceivedPacketWithAck := pn\<rparr> \<or>
    (\<exists>g. 0 \<le> smoothedRTT (rttStats g) \<and> lastSentTime g = lastSentTime h \<and> packetHistory h' = packetHistory g \<and>
      rttStats h' = rttStats g \<and> lastSentTime h' = lastSentTime g \<and> alarm h' = alarm (updateLossDetectionAlarm alg g))"
proof (cases "AckFrame.LargestAcked f \<le> largestInOrderAcked h")
  case True
  then show ?thesis using assms(1) by (auto simp: ReceivedAck_def Let_def split: if_splits)
next
  case False
  define h1 where "h1 = h\<lparr>largestReceivedPacketWithAck := pn, LargestAcked := AckFrame.LargestAcked f\<rparr>"
  obtain u h2 where r: "maybeUpdateRTT alg now (AckFrame.LargestAcked f) (DelayTime f) rcv h1 = (u, h2)" by fastforce
  define h3 where "h3 = (if u then h2\<lparr>congestion := sa_MaybeExitSlowStart alg (rttStats h2) (congestion h2)\<rparr> else h2)"
  have h3: "0 \<le> smoothedRTT (rttStats h3)" "lastSentTime h3 = lastSentTime h"
    using maybeUpdateRTT_nonneg [of h1 alg now "AckFrame.LargestAcked f" "DelayTime f" rcv] assms(2)
      maybeUpdateRTT_keeps(5) [of alg now "AckFrame.LargestAcked f" "DelayTime f" rcv h1]
    unfolding r snd_conv by (auto simp: h3_def h1_def)
  obtain acked where d: "determineNewlyAckedPackets f h3 = Inr acked"
    using assms(1) False r by (cases "determineNewlyAckedPackets f h3")
      (auto simp: ReceivedAck_def Let_def h1_def [symmetric] h3_def [symmetric] split: if_split_asm)
  obtain h4 where h4: "(if acked = [] then (None, h3) else ackPackets alg now f rcv acked h3) = (None, h4)"
    and h': "h' = (garbageCollectSkippedPackets (updateLossDetectionAlarm alg (detectLostPackets alg now h4)))
      \<lparr>stopWaiting := swm_ReceivedAck f (stopWaiting (garbageCollectSkippedPackets (updateLossDetectionAlarm alg (detectLostPackets alg now h4))))\<rparr>"
    using assms(1) False r d
    by (auto simp: ReceivedAck_def Let_def h1_def [symmetric] h3_def [symmetric] andThen_None split: if_split_asm)
  have "rttStats h4 = rttStats h3" "lastSentTime h4 = lastSentTime h3"
    using h4 ackPackets_keeps by (auto split: if_splits)
  then show ?thesis using h3 by (intro disjI2 exI [of _ "detectLostPackets alg now h4"]) (simp add: h' garbageCollectSkippedPackets_def)
qed

definition timer_ok :: "'c sentPacketHandler \<Rightarrow> bool" where
  "timer_ok h \<longleftrightarrow> 0 \<le> smoothedRTT (rttStats h) \<and> (packetHistory h \<noteq> [] \<longrightarrow> 0 < lastSentTime h) \<and>
     (hasOutstandingRetransmittablePacket h \<longrightarrow> alarm h \<noteq> zeroTime)"

lemma timer_ok_moved:
  assumes "timer_ok h" "moved h h' ks qs" "rttStats h' = rttStats h" "lastSentTime h' = lastSentTime h" "alarm h' = alarm h"
  shows "timer_ok h'"
proof -
  have "set (packetHistory h') \<subseteq> set (packetHistory h)" using assms(2) by (auto simp: moved_def)
  then show ?thesis using assms(1,3-5)
    by (auto simp: timer_ok_def hasOutstandingRetransmittablePacket_def list_ex_iff)
qed

locale send_algorithm =
  fixes alg :: "'c SendAlgorithm"
  assumes smoothed_rtt: "sa_SmoothedRTT alg rs = smoothedRTT rs"
    and retransmission_delay: "sa_RetransmissionDelay alg rs = (if smoothedRTT rs = 0 then 0 else smoothedRTT rs + meanDeviation rs * 4)"
begin

lemma probe_timeout: "0 \<le> smoothedRTT (rttStats h) \<Longrightarrow> minTailLossProbeTimeout \<le> computeTLPTimeout alg h"
  by (simp add: computeTLPTimeout_def smoothed_rtt minTailLossProbeTimeout_def minRetransmissionTime_def Let_def sdiv_nonneg max_def)
     linarith

lemma timer_set:
  assumes "0 \<le> smoothedRTT (rttStats h)" "packetHistory h \<noteq> []" "0 < lastSentTime h"
  shows "alarm (updateLossDetectionAlarm alg h) \<noteq> zeroTime"
proof -
  have "0 < minTailLossProbeTimeout" "0 < minRetransmissionTime" by (simp_all add: minTailLossProbeTimeout_def minRetransmissionTime_def)
  then show ?thesis using assms probe_timeout [OF assms(1)] by (auto simp: updateLossDetectionAlarm_def zeroTime_def)
qed

lemma timer_ok_set:
  assumes "0 \<le> smoothedRTT (rttStats g)" "packetHistory g \<noteq> [] \<longrightarrow> 0 < lastSentTime g"
    "packetHistory h = packetHistory g" "rttStats h = rttStats g" "lastSentTime h = lastSentTime g"
    "alarm h = alarm (updateLossDetectionAlarm alg g)"
  shows "timer_ok h"
  using assms timer_set [of g] by (cases "packetHistory g") (auto simp: timer_ok_def hasOutstandingRetransmittablePacket_def)

lemma run_timer_ok:
  assumes "sender_run alg h S A Q"
  shows "timer_ok h"
  using assms
proof (induction rule: sender_run.induct)
  case (s_start rs pid bs c)
  then show ?case by (simp add: timer_ok_def NewSentPacketHandler_def hasOutstandingRetransmittablePacket_def)
next
  case (s_sent h S A Q now p h')
  then obtain h0 where "h' = updateLossDetectionAlarm alg h0" "sentHandler now p h h0" using SentPacket_None by blast
  then show ?case using s_sent by (intro timer_ok_set [of h0]) (auto simp: sentHandler_def timer_ok_def)
next
  case (s_ack h S A Q f now pn rcv h')
  have hist: "packetHistory h \<noteq> []" if "packetHistory h' \<noteq> []"
    using moved_ReceivedAck [OF conjunct1 [OF sender_run_ok [OF s_ack.hyps(1)]] s_ack.hyps(2,3)] that by (auto simp: moved_def)
  have rs: "0 \<le> smoothedRTT (rttStats h)" using s_ack.IH by (simp add: timer_ok_def)
  show ?case using ReceivedAck_timer [OF s_ack.hyps(3) rs]
  proof (elim disjE exE conjE)
    assume "h' = h\<lparr>largestReceivedPacketWithAck := pn\<rparr>"
    then show ?thesis using s_ack.IH by (simp add: timer_ok_def hasOutstandingRetransmittablePacket_def)
  next
    fix g assume "0 \<le> smoothedRTT (rttStats g)" "lastSentTime g = lastSentTime h" "packetHistory h' = packetHistory g"
      "rttStats h' = rttStats g" "lastSentTime h' = lastSentTime g" "alarm h' = alarm (updateLossDetectionAlarm alg g)"
    then show ?thesis using hist s_ack.IH by (intro timer_ok_set [of g]) (auto simp: timer_ok_def)
  qed
next
  case (s_close_path h S A Q g now pn h')
  obtain qs ks where m: "moved h h' ks qs"
    using moved_ReceivedClosePath [OF conjunct1 [OF sender_run_ok [OF s_close_path.hyps(1)]] s_close_path.hyps(2,3)] by blast
  show ?case using s_close_path.hyps(3)
    by (intro timer_ok_moved [OF s_close_path.IH m])
       (auto simp: ReceivedClosePath_def Let_def garbageCollectSkippedPackets_def split: if_split_asm sum.splits)
next
  case (s_inflight h S A Q h')
  have "distinct (packetHistory h)" using sender_run_ok [OF s_inflight.hyps(1)] ascending_distinct by (auto simp: history_ok_def)
  from timer_ok_moved [OF s_inflight.IH moved_SetInflightAsLost [OF this]] show ?case using s_inflight.hyps(2) by auto
next
  case (s_alarm h S A Q now cb h')
  have "distinct (packetHistory h)" using sender_run_ok [OF s_alarm.hyps(1)] ascending_distinct by (auto simp: history_ok_def)
  from moved_OnAlarm [OF this, of alg now cb] have hist: "packetHistory h \<noteq> []" if "packetHistory h' \<noteq> []"
    using that s_alarm.hyps(2) by (auto simp: moved_def)
  show ?case
  proof (cases "hasOutstandingRetransmittablePacket h")
    case True
    then obtain g where g: "h' = updateLossDetectionAlarm alg g" using s_alarm.hyps(2) unfolding OnAlarm_def by auto
    have "rttStats h' = rttStats h" "lastSentTime h' = lastSentTime h" using s_alarm.hyps(2) by auto
    then show ?thesis using g hist s_alarm.IH by (intro timer_ok_set [of g]) (auto simp: timer_ok_def)
  next
    case False
    then show ?thesis using s_alarm.hyps(2) s_alarm.IH
      by (auto simp: OnAlarm_def timer_ok_def hasOutstandingRetransmittablePacket_def)
  qed
next
  case (s_dequeue h S A Q r h')
  then show ?case by (auto simp: DequeuePacketForRetransmission_def timer_ok_def hasOutstandingRetransmittablePacket_def split: list.splits)
next
  case (s_duplicate h S A Q p)
  then show ?case by (simp add: DuplicatePacket_def timer_ok_def hasOutstandingRetransmittablePacket_def)
next
  case (s_stop_waiting h S A Q force w h')
  then show ?case by (auto simp: GetStopWaitingFrame_def timer_ok_def hasOutstandingRetransmittablePacket_def split: prod.splits)
qed

end

interpretation cubic_alg: send_algorithm "cubicAlgorithm cbrt" for cbrt
  by unfold_locales (simp_all add: cubicAlgorithm_def RetransmissionDelay_def)

interpretation olia_alg: send_algorithm "oliaAlgorithm others order pid" for others order pid
  by unfold_locales (simp_all add: oliaAlgorithm_def olia_RetransmissionDelay_def RetransmissionDelay_def)

section \<open>The timer gets everything out again\<close>

text \<open>The delay after which a packet below the largest acknowledged one counts as lost.\<close>

definition lossDelay :: "'c sentPacketHandler \<Rightarrow> Duration" where
  "lossDelay h = truncRat (float64 ((1 + timeReorderingFraction) *
     float64 (of_int (max (latestRTT (rttStats h)) (smoothedRTT (rttStats h))))))"

lemma snd_lossLoop:
  assumes "snd (lossLoop now d l lt els) \<noteq> zeroTime"
  shows "snd (lossLoop now d l lt els) = lt \<or>
    (\<exists>p \<in> set (takeWhile (\<lambda>el. \<not> PacketNumber el > l) els). snd (lossLoop now d l lt els) = now + (d - time_Sub now (SendTime p)))"
  using assms by (induction now d l lt els rule: lossLoop.induct) (auto simp: Let_def split: prod.splits if_splits)

lemma lossTime_detectLostPackets:
  "lossTime (detectLostPackets alg now h) = snd (lossLoop now (lossDelay h) (LargestAcked h) zeroTime (packetHistory h))"
  by (simp add: detectLostPackets_def lossDelay_def Let_def split: prod.splits)

lemma lostPackets_lossDelay:
  "lostPackets now h = filter (\<lambda>p. time_Sub now (SendTime p) > lossDelay h) (takeWhile (\<lambda>p. \<not> PacketNumber p > LargestAcked h) (packetHistory h))"
  by (simp add: lostPackets_def lossDelay_def fst_lossLoop)

lemma moved_shorter:
  assumes "moved h h' ks qs" "qs \<noteq> []"
  shows "length (packetHistory h') < length (packetHistory h)"
proof -
  obtain q where "q \<in> set qs" using assms(2) by (cases qs) auto
  then have "\<exists>q \<in> set (packetHistory h). \<not> q \<notin> set (ks @ qs)" using assms(1) unfolding moved_def by auto
  then show ?thesis using assms(1) unfolding moved_def by (metis (no_types, lifting) length_filter_less)
qed

text \<open>An alarm that finds no loss time queues a packet; one that finds a loss time does, or the next one will.\<close>

lemma OnAlarm_shorter:
  assumes "distinct (packetHistory h)" "hasOutstandingRetransmittablePacket h" "lossTime h = zeroTime"
  shows "length (packetHistory (OnAlarm alg now cb h)) < length (packetHistory h)"
proof -
  have ne: "packetHistory h \<noteq> []" using assms(2) by (auto simp: hasOutstandingRetransmittablePacket_def)
  have "length (packetHistory (retransmitTLP h)) < length (packetHistory h)"
    "length (packetHistory (retransmitAllPackets alg h)) < length (packetHistory h)"
    "length (packetHistory (retransmitOldestTwoPackets alg h)) < length (packetHistory h)"
    using moved_retransmitTLP [OF assms(1)] moved_timedOut [OF moved_queueAll [OF assms(1), of alg], of alg]
      moved_retransmitOldestTwo [OF assms(1), of alg] ne
    by (auto intro: moved_shorter simp: retransmitAllPackets_def)
  then show ?thesis using assms(2,3) by (simp add: OnAlarm_def Let_def)
qed

lemma OnAlarm_loss:
  assumes "distinct (packetHistory h)" "hasOutstandingRetransmittablePacket h" "lossTime h \<noteq> zeroTime"
  shows "OnAlarm alg now cb h = updateLossDetectionAlarm alg (detectLostPackets alg now h)"
    "moved h (OnAlarm alg now cb h) [] (lostPackets now h)"
proof -
  show eq: "OnAlarm alg now cb h = updateLossDetectionAlarm alg (detectLostPackets alg now h)"
    using assms(2,3) by (simp add: OnAlarm_def)
  show "moved h (OnAlarm alg now cb h) [] (lostPackets now h)"
    using moved_detectLostPackets [OF assms(1), of alg now] unfolding eq by (simp add: moved_def)
qed

lemma two_alarms_shorter:
  assumes "distinct (packetHistory h)" "hasOutstandingRetransmittablePacket h"
    and "\<forall>p \<in> set (packetHistory h). SendTime p \<le> t" "t \<le> u" "lossDelay h < 2 ^ 63 - 1"
    and "h' = OnAlarm alg t cb h" "alarm h' < u" "hasOutstandingRetransmittablePacket h'"
  shows "length (packetHistory (OnAlarm alg u cb h')) < length (packetHistory h)"
proof -
  have "\<exists>qs. moved h h' [] qs" "distinct (packetHistory h')"
    using moved_OnAlarm [OF assms(1)] moved_distinct [OF _ assms(1)] unfolding assms(6) by blast+
  then have le: "length (packetHistory h') \<le> length (packetHistory h)" by (auto simp: moved_def)
  have mono: "length (packetHistory (OnAlarm alg u cb h')) \<le> length (packetHistory h')"
    using moved_OnAlarm [OF \<open>distinct (packetHistory h')\<close>, of alg u cb] by (auto simp: moved_def)
  show ?thesis
  proof (cases "lossTime h = zeroTime \<or> lostPackets t h \<noteq> []")
    case True
    then have "length (packetHistory h') < length (packetHistory h)"
      using OnAlarm_shorter [OF assms(1,2)] moved_shorter [OF OnAlarm_loss(2) [OF assms(1,2)]] unfolding assms(6) by blast
    then show ?thesis using mono by simp
  next
    case False
    note eq = OnAlarm_loss [OF assms(1,2), of alg t cb, folded assms(6)]
    have same: "packetHistory h' = packetHistory h" using eq(2) False by (auto simp: moved_def filter_id_conv)
    show ?thesis
    proof (cases "lossTime h' = zeroTime")
      case True
      then show ?thesis using OnAlarm_shorter [OF \<open>distinct (packetHistory h')\<close> assms(8), of alg u cb] same by simp
    next
      case lt: False
      then have al: "alarm h' = lossTime h'" using eq(1) False assms(2) same
        by (auto simp: updateLossDetectionAlarm_def hasOutstandingRetransmittablePacket_def)
      have "lossTime h' = snd (lossLoop t (lossDelay h) (LargestAcked h) zeroTime (packetHistory h))"
        using eq(1) False by (simp add: lossTime_detectLostPackets)
      then obtain p where p: "p \<in> set (takeWhile (\<lambda>el. \<not> PacketNumber el > LargestAcked h) (packetHistory h))"
        "lossTime h' = t + (lossDelay h - time_Sub t (SendTime p))"
        using snd_lossLoop [of t "lossDelay h" "LargestAcked h" zeroTime "packetHistory h"] lt by auto
      have "SendTime p \<le> t" using assms(3) set_takeWhileD [OF p(1)] by simp
      then have "time_Sub t (SendTime p) \<le> t - SendTime p" by (simp add: time_Sub_def)
      then have "lossDelay h < u - SendTime p" using p(2) assms(7) al by linarith
      then have late: "time_Sub u (SendTime p) > lossDelay h" using assms(5) by (simp add: time_Sub_def)
      have keep: "rttStats h' = rttStats h" "LargestAcked h' = LargestAcked h" using eq(1) False
        by (simp_all add: updateLossDetectionAlarm_def)
      then have "p \<in> set (lostPackets u h')" using p(1) late same by (simp add: lostPackets_lossDelay lossDelay_def)
      then have "lostPackets u h' \<noteq> []" by force
      then show ?thesis
        using moved_shorter [OF OnAlarm_loss(2) [OF \<open>distinct (packetHistory h')\<close> assms(8) lt]] same by simp
    qed
  qed
qed

text \<open>The alarms of the times \<open>ts\<close>, each of which comes after the time the timer was set to.\<close>

abbreviation alarms :: "'c SendAlgorithm \<Rightarrow> (Time \<Rightarrow> bool) option \<Rightarrow> Time list \<Rightarrow> 'c sentPacketHandler \<Rightarrow> 'c sentPacketHandler" where
  "alarms alg cb ts h \<equiv> fold (\<lambda>t. OnAlarm alg t cb) ts h"

fun timely :: "'c SendAlgorithm \<Rightarrow> (Time \<Rightarrow> bool) option \<Rightarrow> Time list \<Rightarrow> 'c sentPacketHandler \<Rightarrow> bool" where
  "timely alg cb [] h \<longleftrightarrow> True"
| "timely alg cb (t # ts) h \<longleftrightarrow> alarm h < t \<and> (\<forall>u \<in> set ts. t \<le> u) \<and> timely alg cb ts (OnAlarm alg t cb h)"

lemma moved_alarms:
  assumes "distinct (packetHistory h)"
  shows "\<exists>qs. moved h (alarms alg cb ts h) [] qs"
  using assms
proof (induction ts arbitrary: h)
  case (Cons t ts)
  obtain qs where m: "moved h (OnAlarm alg t cb h) [] qs" using moved_OnAlarm [OF Cons.prems] by blast
  from Cons.IH [OF moved_distinct [OF m Cons.prems]] obtain qs' where "moved (OnAlarm alg t cb h) (alarms alg cb (t # ts) h) [] qs'" by auto
  from moved_trans [OF m this] show ?case by auto
qed (use moved_same in \<open>fastforce\<close>)

lemma alarms_idle:
  assumes "\<not> hasOutstandingRetransmittablePacket h"
  shows "\<not> hasOutstandingRetransmittablePacket (alarms alg cb ts h)"
  using assms
proof (induction ts arbitrary: h)
  case (Cons t ts)
  then have "\<not> hasOutstandingRetransmittablePacket (OnAlarm alg t cb h)" by (simp add: OnAlarm_def hasOutstandingRetransmittablePacket_def)
  then show ?case using Cons.IH by simp
qed simp

lemma alarms_drain:
  assumes "distinct (packetHistory h)" "timely alg cb ts h" "2 * length (packetHistory h) \<le> length ts" "lossDelay h < 2 ^ 63 - 1"
    and "\<forall>p \<in> set (packetHistory h). \<forall>t \<in> set ts. SendTime p \<le> t"
  shows "\<not> hasOutstandingRetransmittablePacket (alarms alg cb ts h)"
  using assms
proof (induction "length (packetHistory h)" arbitrary: h ts rule: less_induct)
  case less
  show ?case
  proof (cases "hasOutstandingRetransmittablePacket h")
    case out: True
    then have "1 \<le> length (packetHistory h)" by (cases "packetHistory h") (auto simp: hasOutstandingRetransmittablePacket_def)
    then obtain t u us where ts: "ts = t # u # us" using less.prems(3) by (cases ts; cases "tl ts") auto
    define h1 h2 where "h1 = OnAlarm alg t cb h" and "h2 = OnAlarm alg u cb h1"
    obtain qs where m: "moved h h2 [] qs" using moved_alarms [OF less.prems(1), of alg cb "[t, u]"] by (auto simp: h1_def h2_def)
    show ?thesis
    proof (cases "hasOutstandingRetransmittablePacket h1")
      case True
      have short: "length (packetHistory h2) < length (packetHistory h)"
        using two_alarms_shorter [OF less.prems(1) out, of t u h1 alg cb] less.prems(2,4,5) True by (auto simp: ts h1_def h2_def)
      have "\<not> hasOutstandingRetransmittablePacket (alarms alg cb us h2)"
        by (rule less.hyps [OF short])
           (use less.prems short moved_distinct [OF m less.prems(1)] m in \<open>auto simp: ts h1_def h2_def lossDelay_def moved_def\<close>)
      then show ?thesis by (simp add: ts h1_def h2_def)
    next
      case False
      from alarms_idle [OF this, of alg cb "u # us"] show ?thesis by (simp add: ts h1_def)
    qed
  qed (rule alarms_idle)
qed

text \<open>
  C14. while a packet that asks for retransmission waits for its acknowledgement, the loss detection timer is set, in
  every run of the handler under the CUBIC sender and under the OLIA senders, whatever acknowledgements, delays
  and round-trip times the peer causes.
\<close>

theorem timer_is_set:
  shows "(sender_run (cubicAlgorithm cbrt) h S A Q \<longrightarrow> hasOutstandingRetransmittablePacket h \<longrightarrow> alarm h \<noteq> zeroTime) \<and>
    (sender_run (oliaAlgorithm others order pid) g S' A' Q' \<longrightarrow> hasOutstandingRetransmittablePacket g \<longrightarrow> alarm g \<noteq> zeroTime)"
  using cubic_alg.run_timer_ok olia_alg.run_timer_ok unfolding timer_ok_def by blast

lemma exampleSent_outstanding: "hasOutstandingRetransmittablePacket exampleSent"
  by code_simp

theorem timer_is_set_witness: "alarm exampleSent \<noteq> zeroTime"
  using timer_is_set [of id exampleSent "{1, 2}" "{}" "{}"] exampleSent_run exampleSent_outstanding by blast

text \<open>
  C7. nothing is stuck when the peer is silent. From any reachable state, under any congestion control, as many timer
  events as twice the number of outstanding packets, each later than the time set, leave no packet that asks for
  retransmission outstanding: all of them are in the retransmission queue.
\<close>

theorem alarms_requeue_everything:
  assumes "sender_run alg h S A Q" "timely alg cb ts h" "2 * length (packetHistory h) \<le> length ts"
    and "\<forall>p \<in> set (packetHistory h). \<forall>t \<in> set ts. SendTime p \<le> t" "lossDelay h < 2 ^ 63 - 1"
  shows "\<not> hasOutstandingRetransmittablePacket (alarms alg cb ts h) \<and>
    {p \<in> set (packetHistory h). IsRetransmittable p} \<subseteq> set (retransmissionQueue (alarms alg cb ts h))"
proof -
  have dist: "distinct (packetHistory h)" using sender_run_ok [OF assms(1)] ascending_distinct by (auto simp: history_ok_def)
  obtain qs where m: "moved h (alarms alg cb ts h) [] qs" using moved_alarms [OF dist] by blast
  have "\<not> hasOutstandingRetransmittablePacket (alarms alg cb ts h)" by (rule alarms_drain [OF dist assms(2,3,5,4)])
  then show ?thesis using m by (auto simp: moved_def hasOutstandingRetransmittablePacket_def list_ex_iff)
qed

lemma exampleSent_alarms:
  "timely (cubicAlgorithm id) None [600000000, 1700000000, 3000000000, 6000000000] exampleSent"
  "length (packetHistory exampleSent) = 2" "list_all (\<lambda>p. SendTime p \<le> 600000000) (packetHistory exampleSent)"
  "lossDelay exampleSent = 0" "list_all IsRetransmittable (packetHistory exampleSent)"
  by code_simp+

theorem alarms_requeue_everything_witness:
  "set (packetHistory exampleSent) \<subseteq>
     set (retransmissionQueue (alarms (cubicAlgorithm id) None [600000000, 1700000000, 3000000000, 6000000000] exampleSent))"
  using alarms_requeue_everything [OF exampleSent_run exampleSent_alarms(1)] exampleSent_alarms(2-)
  by (fastforce simp: list_all_iff)

section \<open>The backoff\<close>

text \<open>The timeout before the backoff.\<close>

definition baseRTO :: "'c SendAlgorithm \<Rightarrow> 'c sentPacketHandler \<Rightarrow> Duration" where
  "baseRTO alg h =
     (let rto = sa_RetransmissionDelay alg (rttStats h) in max (if rto = 0 then defaultRTOTimeout else rto) minRTOTimeout)"

lemma computeRTOTimeout_base:
  "computeRTOTimeout alg h = min (int64 (baseRTO alg h * 2 ^ unat (rtoCount h))) maxRTOTimeout"
proof -
  have "push_bit (unat (rtoCount h)) (word_of_int (baseRTO alg h) :: u64) = word_of_int (baseRTO alg h * 2 ^ unat (rtoCount h))"
    by (simp add: push_bit_eq_mult)
  then show ?thesis by (simp add: computeRTOTimeout_def baseRTO_def Let_def int64_def)
qed

lemma int64_multiple: "64 \<le> k \<Longrightarrow> int64 (x * 2 ^ k) = 0"
  by (simp add: int64_def) (simp flip: push_bit_eq_mult add: push_bit_word_beyond)

text \<open>
  C22. the retransmission timeout. Once the probes are used up the timer is set to the last transmission plus a delay
  between 200 milliseconds and 60 seconds; the delay is the base timeout doubled for every timeout so far, capped
  at 60 seconds, as long as the doubling fits 63 bits; after 64 timeouts in a row the shift has lost all bits and
  the delay is back at the minimum.
\<close>

theorem rto_backoff:
  assumes "packetHistory h \<noteq> []" "lossTime h = zeroTime" "maxTailLossProbes \<le> tlpCount h"
  shows "\<exists>delay. alarm (updateLossDetectionAlarm alg h) = lastSentTime h + delay \<and>
    minRetransmissionTime \<le> delay \<and> delay \<le> maxRTOTimeout \<and>
    (baseRTO alg h * 2 ^ unat (rtoCount h) < 2 ^ 63 \<longrightarrow> delay = min (baseRTO alg h * 2 ^ unat (rtoCount h)) maxRTOTimeout) \<and>
    (64 \<le> unat (rtoCount h) \<longrightarrow> delay = minRetransmissionTime)"
proof (intro exI conjI impI)
  let ?delay = "max (computeRTOTimeout alg h) minRetransmissionTime"
  have base: "minRetransmissionTime \<le> baseRTO alg h" by (simp add: baseRTO_def Let_def minRetransmissionTime_def minRTOTimeout_def)
  show "alarm (updateLossDetectionAlarm alg h) = lastSentTime h + ?delay"
    using assms by (simp add: updateLossDetectionAlarm_def not_less [symmetric])
  show "minRetransmissionTime \<le> ?delay" "?delay \<le> maxRTOTimeout"
    by (simp_all add: computeRTOTimeout_base minRetransmissionTime_def maxRTOTimeout_def)
  show "?delay = minRetransmissionTime" if "64 \<le> unat (rtoCount h)"
    using that by (simp add: computeRTOTimeout_base int64_multiple maxRTOTimeout_def minRetransmissionTime_def)
  show "?delay = min (baseRTO alg h * 2 ^ unat (rtoCount h)) maxRTOTimeout" if "baseRTO alg h * 2 ^ unat (rtoCount h) < 2 ^ 63"
  proof -
    have "baseRTO alg h * 1 \<le> baseRTO alg h * 2 ^ unat (rtoCount h)"
      by (rule mult_left_mono) (use base in \<open>simp_all add: minRetransmissionTime_def\<close>)
    then have "minRetransmissionTime \<le> baseRTO alg h * 2 ^ unat (rtoCount h)" using base by simp
    moreover from this have "int64 (baseRTO alg h * 2 ^ unat (rtoCount h)) = baseRTO alg h * 2 ^ unat (rtoCount h)"
      using that by (intro int64_id) (auto simp: minRetransmissionTime_def)
    ultimately show ?thesis by (simp add: computeRTOTimeout_base minRetransmissionTime_def maxRTOTimeout_def)
  qed
qed

lemma exampleBackoff:
  "(let h = exampleSent\<lparr>tlpCount := 2, rtoCount := 3\<rparr> in
    (packetHistory h = [], lossTime h, lastSentTime h, baseRTO (cubicAlgorithm id) h)) = (False, 0, 2000000, 500000000)"
  by code_simp

theorem rto_backoff_witness:
  "alarm (updateLossDetectionAlarm (cubicAlgorithm id) (exampleSent\<lparr>tlpCount := 2, rtoCount := 3\<rparr>)) = 2000000 + 4000000000"
  using rto_backoff [of "exampleSent\<lparr>tlpCount := 2, rtoCount := 3\<rparr>" "cubicAlgorithm id"] exampleBackoff
  by (auto simp: Let_def maxTailLossProbes_def zeroTime_def maxRTOTimeout_def)

lemma IsRetransmittable_strip [simp]:
  "IsRetransmittable (p\<lparr>Frames := stripNonRetransmittableFrames (Frames p), SendTime := t\<rparr>) = IsRetransmittable p"
proof -
  have "retransmittableType f \<longrightarrow> IsFrameRetransmittable f" for f by (cases f) simp_all
  then show ?thesis by (auto simp: IsRetransmittable_def stripNonRetransmittableFrames_def list_ex_iff)
qed

text \<open>
  C39. the two notions of a retransmittable packet differ. A packet with a CLOSE_PATH frame enters the history and counts as
  in flight, but without a frame of another retransmittable type \<^verbatim>\<open>IsRetransmittable\<close> says no. While all
  outstanding packets are of this kind, a timer event cancels the timer and queues none of them, and neither does any further
  one: the packet stays outstanding until the peer acknowledges it or another packet sets the timer again.
\<close>

theorem close_path_packet_not_retransmitted:
  assumes "\<not> hasOutstandingRetransmittablePacket h" "SentPacket alg now p h = (None, h')"
    and "ClosePathF g \<in> set (Frames p)" "\<not> IsRetransmittable p"
  shows "PacketNumber p \<in> outstanding h' \<and> bytesInFlight h' = bytesInFlight h + Length p \<and>
    alarms alg cb (t # ts) h' = h'\<lparr>alarm := zeroTime\<rparr> \<and> retransmissionQueue h' = retransmissionQueue h"
proof -
  obtain h0 where h': "h' = updateLossDetectionAlarm alg h0" and s: "sentHandler now p h h0" using SentPacket_None [OF assms(2)] by blast
  have "HasRetransmittableFrames (Frames p)" using assms(3) by (force simp: HasRetransmittableFrames_def list_ex_iff)
  then have hist: "packetHistory h' = packetHistory h @ [p\<lparr>Frames := stripNonRetransmittableFrames (Frames p), SendTime := now\<rparr>]"
    "bytesInFlight h' = bytesInFlight h + Length p" "retransmissionQueue h' = retransmissionQueue h"
    using s by (simp_all add: h' sentHandler_def)
  have no: "OnAlarm alg u cb k = k\<lparr>alarm := zeroTime\<rparr>" if "packetHistory k = packetHistory h'" for u k
    using that assms(1,4) by (simp add: OnAlarm_def hasOutstandingRetransmittablePacket_def hist)
  have "alarms alg cb us (h'\<lparr>alarm := zeroTime\<rparr>) = h'\<lparr>alarm := zeroTime\<rparr>" for us
    by (induction us) (simp_all add: no)
  then show ?thesis using hist by (simp add: no numbers_def)
qed

text \<open>An example: two paths are closed one after the other, with nothing else outstanding.\<close>

definition closingPacket :: "PacketNumber \<Rightarrow> Packet" where
  "closingPacket n = (examplePacket n)\<lparr>Frames := [ClosePathF \<lparr>ClosePathFrame.PathID = 1, LargestAcked = 1, LowestAcked = 1, AckRanges = []\<rparr>]\<rparr>"

definition firstClosed :: "cubicSender sentPacketHandler" where
  "firstClosed = snd (SentPacket (cubicAlgorithm id) 1000000 (closingPacket 1) exampleStart)"

lemma firstClosed_eval:
  "\<not> hasOutstandingRetransmittablePacket firstClosed" "\<not> IsRetransmittable (closingPacket 2)"
  "fst (SentPacket (cubicAlgorithm id) 2000000 (closingPacket 2) firstClosed) = None"
  by code_simp+

theorem close_path_packet_not_retransmitted_witness:
  "\<exists>h'. SentPacket (cubicAlgorithm id) 2000000 (closingPacket 2) firstClosed = (None, h') \<and> 2 \<in> outstanding h' \<and>
     alarms (cubicAlgorithm id) None [600000000, 1700000000] h' = h'\<lparr>alarm := zeroTime\<rparr>"
proof -
  let ?h' = "snd (SentPacket (cubicAlgorithm id) 2000000 (closingPacket 2) firstClosed)"
  have sent: "SentPacket (cubicAlgorithm id) 2000000 (closingPacket 2) firstClosed = (None, ?h')"
    using firstClosed_eval(3) by (simp add: prod_eq_iff)
  moreover have "PacketNumber (closingPacket 2) = 2" by (simp add: closingPacket_def examplePacket_def)
  ultimately show ?thesis
    using close_path_packet_not_retransmitted [OF firstClosed_eval(1) sent _ firstClosed_eval(2), of _ None 600000000 "[1700000000]"]
    by (fastforce simp: closingPacket_def)
qed

end
