(* ===== verification/LinkedList.thy ===== *)
theory LinkedList
  imports Prelude
begin

text \<open>
  The doubly linked lists of \<^verbatim>\<open>internal/utils/packetinterval_linkedlist.go\<close>, \<^verbatim>\<open>byteinterval_linkedlist.go\<close> and
  \<^verbatim>\<open>ackhandler/packet_linkedlist.go\<close>, three copies of the same generated code for three types of values. The
  elements live in a store and point to each other; the theorems show that on this store the operations are those
  of plain sequences, which is how the components that use the lists are modelled.
\<close>

section \<open>The store\<close>

text \<open>A pointer is to the root element inside a list or to an element that was allocated.\<close>

datatype ref = Root nat | Elem nat

record 'a Element =
  nxt :: "ref option"
  prv :: "ref option"
  owner :: "nat option"
  Value :: 'a

text \<open>\<open>len\<close> is the field of each list, and \<open>used\<close> the number of elements allocated so far.\<close>

record 'a store =
  elem :: "ref \<Rightarrow> 'a Element"
  len :: "nat \<Rightarrow> int"
  used :: nat

definition nilPanic :: error where
  "nilPanic = Panic ''runtime error: invalid memory address or nil pointer dereference''"

definition setNext :: "ref \<Rightarrow> ref option \<Rightarrow> 'a store \<Rightarrow> 'a store" where
  "setNext r p s = s\<lparr>elem := (elem s)(r := (elem s r)\<lparr>nxt := p\<rparr>)\<rparr>"

definition setPrev :: "ref \<Rightarrow> ref option \<Rightarrow> 'a store \<Rightarrow> 'a store" where
  "setPrev r p s = s\<lparr>elem := (elem s)(r := (elem s r)\<lparr>prv := p\<rparr>)\<rparr>"

definition setList :: "ref \<Rightarrow> nat option \<Rightarrow> 'a store \<Rightarrow> 'a store" where
  "setList r l s = s\<lparr>elem := (elem s)(r := (elem s r)\<lparr>owner := l\<rparr>)\<rparr>"

definition addLen :: "nat \<Rightarrow> int \<Rightarrow> 'a store \<Rightarrow> 'a store" where
  "addLen l n s = s\<lparr>len := (len s)(l := len s l + n)\<rparr>"

section \<open>The operations\<close>

definition Next :: "ref \<Rightarrow> 'a store \<Rightarrow> ref option" where
  "Next e s = (case owner (elem s e) of None \<Rightarrow> None
     | Some l \<Rightarrow> if nxt (elem s e) \<noteq> Some (Root l) then nxt (elem s e) else None)"

definition Prev :: "ref \<Rightarrow> 'a store \<Rightarrow> ref option" where
  "Prev e s = (case owner (elem s e) of None \<Rightarrow> None
     | Some l \<Rightarrow> if prv (elem s e) \<noteq> Some (Root l) then prv (elem s e) else None)"

definition Init :: "nat \<Rightarrow> 'a store \<Rightarrow> 'a store" where
  "Init l s = (let s = setPrev (Root l) (Some (Root l)) (setNext (Root l) (Some (Root l)) s) in s\<lparr>len := (len s)(l := 0)\<rparr>)"

definition Front :: "nat \<Rightarrow> 'a store \<Rightarrow> ref option" where
  "Front l s = (if len s l = 0 then None else nxt (elem s (Root l)))"

definition Back :: "nat \<Rightarrow> 'a store \<Rightarrow> ref option" where
  "Back l s = (if len s l = 0 then None else prv (elem s (Root l)))"

definition lazyInit :: "nat \<Rightarrow> 'a store \<Rightarrow> 'a store" where
  "lazyInit l s = (if nxt (elem s (Root l)) = None then Init l s else s)"

definition list_insert :: "nat \<Rightarrow> ref \<Rightarrow> ref \<Rightarrow> 'a store \<Rightarrow> error + ref \<times> 'a store" where
  "list_insert l e at s =
     (let n = nxt (elem s at); s = setNext at (Some e) s; s = setPrev e (Some at) s; s = setNext e n s
      in case n of None \<Rightarrow> Inl nilPanic
         | Some n \<Rightarrow> let s = setPrev n (Some e) s; s = setList e (Some l) s in Inr (e, addLen l 1 s))"

text \<open>A new element has the value and nil pointers.\<close>

definition allocate :: "'a \<Rightarrow> 'a store \<Rightarrow> ref \<times> 'a store" where
  "allocate v s =
     (let e = Elem (used s)
      in (e, s\<lparr>elem := (elem s)(e := \<lparr>nxt = None, prv = None, owner = None, Value = v\<rparr>), used := used s + 1\<rparr>))"

definition insertValue :: "nat \<Rightarrow> 'a \<Rightarrow> ref option \<Rightarrow> 'a store \<Rightarrow> error + ref \<times> 'a store" where
  "insertValue l v at s =
     (case at of None \<Rightarrow> Inl nilPanic | Some at \<Rightarrow> let (e, s) = allocate v s in list_insert l e at s)"

definition list_remove :: "nat \<Rightarrow> ref \<Rightarrow> 'a store \<Rightarrow> error + ref \<times> 'a store" where
  "list_remove l e s =
     (case prv (elem s e) of None \<Rightarrow> Inl nilPanic
      | Some p \<Rightarrow>
          let s = setNext p (nxt (elem s e)) s in
          case nxt (elem s e) of None \<Rightarrow> Inl nilPanic
          | Some n \<Rightarrow>
              let s = setPrev n (prv (elem s e)) s;
                  s = setNext e None s;
                  s = setPrev e None s;
                  s = setList e None s
              in Inr (e, addLen l (- 1) s))"

definition Remove :: "nat \<Rightarrow> ref \<Rightarrow> 'a store \<Rightarrow> error + 'a \<times> 'a store" where
  "Remove l e s =
     bind_r (if owner (elem s e) = Some l then list_remove l e s else Inr (e, s)) (\<lambda>(e, s). Inr (Value (elem s e), s))"

definition PushFront :: "nat \<Rightarrow> 'a \<Rightarrow> 'a store \<Rightarrow> error + ref \<times> 'a store" where
  "PushFront l v s = insertValue l v (Some (Root l)) (lazyInit l s)"

definition PushBack :: "nat \<Rightarrow> 'a \<Rightarrow> 'a store \<Rightarrow> error + ref \<times> 'a store" where
  "PushBack l v s = (let s = lazyInit l s in insertValue l v (prv (elem s (Root l))) s)"

text \<open>The result is nil when the mark is not an element of the list.\<close>

definition InsertBefore :: "nat \<Rightarrow> 'a \<Rightarrow> ref \<Rightarrow> 'a store \<Rightarrow> error + ref option \<times> 'a store" where
  "InsertBefore l v mark s =
     (if owner (elem s mark) \<noteq> Some l then Inr (None, s)
      else bind_r (insertValue l v (prv (elem s mark)) s) (\<lambda>(e, s). Inr (Some e, s)))"

definition InsertAfter :: "nat \<Rightarrow> 'a \<Rightarrow> ref \<Rightarrow> 'a store \<Rightarrow> error + ref option \<times> 'a store" where
  "InsertAfter l v mark s =
     (if owner (elem s mark) \<noteq> Some l then Inr (None, s)
      else bind_r (insertValue l v (Some mark) s) (\<lambda>(e, s). Inr (Some e, s)))"

text \<open>
  \<^verbatim>\<open>l.insert(l.remove(e), at)\<close>. The language does not fix whether the pointer \<open>at\<close> is read before or after the call
  of \<^verbatim>\<open>remove\<close>; compilers read it after, and it matters only when \<^verbatim>\<open>MoveBefore\<close> is called for neighbours.
\<close>

definition moveTo :: "nat \<Rightarrow> ref \<Rightarrow> ('a store \<Rightarrow> ref option) \<Rightarrow> 'a store \<Rightarrow> error + 'a store" where
  "moveTo l e at s =
     bind_r (list_remove l e s) (\<lambda>(e, s).
       case at s of None \<Rightarrow> Inl nilPanic | Some r \<Rightarrow> bind_r (list_insert l e r s) (\<lambda>(e, s). Inr s))"

definition MoveToFront :: "nat \<Rightarrow> ref \<Rightarrow> 'a store \<Rightarrow> error + 'a store" where
  "MoveToFront l e s =
     (if owner (elem s e) \<noteq> Some l \<or> nxt (elem s (Root l)) = Some e then Inr s
      else moveTo l e (\<lambda>s. Some (Root l)) s)"

definition MoveToBack :: "nat \<Rightarrow> ref \<Rightarrow> 'a store \<Rightarrow> error + 'a store" where
  "MoveToBack l e s =
     (if owner (elem s e) \<noteq> Some l \<or> prv (elem s (Root l)) = Some e then Inr s
      else moveTo l e (\<lambda>s. prv (elem s (Root l))) s)"

definition MoveBefore :: "nat \<Rightarrow> ref \<Rightarrow> ref \<Rightarrow> 'a store \<Rightarrow> error + 'a store" where
  "MoveBefore l e mark s =
     (if owner (elem s e) \<noteq> Some l \<or> e = mark \<or> owner (elem s mark) \<noteq> Some l then Inr s
      else moveTo l e (\<lambda>s. prv (elem s mark)) s)"

definition MoveAfter :: "nat \<Rightarrow> ref \<Rightarrow> ref \<Rightarrow> 'a store \<Rightarrow> error + 'a store" where
  "MoveAfter l e mark s =
     (if owner (elem s e) \<noteq> Some l \<or> e = mark \<or> owner (elem s mark) \<noteq> Some l then Inr s
      else moveTo l e (\<lambda>s. Some mark) s)"

text \<open>The loops run as often as the other list is long when they start; \<open>e\<close> is the current element.\<close>

fun pushBackLoop :: "nat \<Rightarrow> nat \<Rightarrow> ref option \<Rightarrow> 'a store \<Rightarrow> error + 'a store" where
  "pushBackLoop 0 l e s = Inr s"
| "pushBackLoop (Suc i) l e s =
     (case e of None \<Rightarrow> Inl nilPanic
      | Some e \<Rightarrow> bind_r (insertValue l (Value (elem s e)) (prv (elem s (Root l))) s) (\<lambda>(_, s). pushBackLoop i l (Next e s) s))"

fun pushFrontLoop :: "nat \<Rightarrow> nat \<Rightarrow> ref option \<Rightarrow> 'a store \<Rightarrow> error + 'a store" where
  "pushFrontLoop 0 l e s = Inr s"
| "pushFrontLoop (Suc i) l e s =
     (case e of None \<Rightarrow> Inl nilPanic
      | Some e \<Rightarrow> bind_r (insertValue l (Value (elem s e)) (Some (Root l)) s) (\<lambda>(_, s). pushFrontLoop i l (Prev e s) s))"

definition PushBackList :: "nat \<Rightarrow> nat \<Rightarrow> 'a store \<Rightarrow> error + 'a store" where
  "PushBackList l other s = (let s = lazyInit l s in pushBackLoop (nat (len s other)) l (Front other s) s)"

definition PushFrontList :: "nat \<Rightarrow> nat \<Rightarrow> 'a store \<Rightarrow> error + 'a store" where
  "PushFrontList l other s = (let s = lazyInit l s in pushFrontLoop (nat (len s other)) l (Back other s) s)"

section \<open>Chains of elements\<close>

lemma set_fields [simp]:
  "nxt (elem (setNext r p s) x) = (if x = r then p else nxt (elem s x))" "prv (elem (setNext r p s) x) = prv (elem s x)"
  "nxt (elem (setPrev r p s) x) = nxt (elem s x)" "prv (elem (setPrev r p s) x) = (if x = r then p else prv (elem s x))"
  "nxt (elem (setList r k s) x) = nxt (elem s x)" "prv (elem (setList r k s) x) = prv (elem s x)"
  "owner (elem (setNext r p s) x) = owner (elem s x)" "owner (elem (setPrev r p s) x) = owner (elem s x)"
  "owner (elem (setList r k s) x) = (if x = r then k else owner (elem s x))"
  "Value (elem (setNext r p s) x) = Value (elem s x)" "Value (elem (setPrev r p s) x) = Value (elem s x)"
  "Value (elem (setList r k s) x) = Value (elem s x)"
  "len (setNext r p s) = len s" "len (setPrev r p s) = len s" "len (setList r k s) = len s"
  "used (setNext r p s) = used s" "used (setPrev r p s) = used s" "used (setList r k s) = used s"
  "elem (addLen l n s) = elem s" "used (addLen l n s) = used s" "len (addLen l n s) = (len s)(l := len s l + n)"
  by (simp_all add: setNext_def setPrev_def setList_def addLen_def)

text \<open>Each element points to the one behind it and back.\<close>

fun linked :: "'a store \<Rightarrow> ref list \<Rightarrow> bool" where
  "linked s (x # y # zs) \<longleftrightarrow> nxt (elem s x) = Some y \<and> prv (elem s y) = Some x \<and> linked s (y # zs)"
| "linked s zs \<longleftrightarrow> True"

lemma linked_append:
  assumes "xs \<noteq> []" "ys \<noteq> []"
  shows "linked s (xs @ ys) \<longleftrightarrow> linked s xs \<and> linked s ys \<and> nxt (elem s (last xs)) = Some (hd ys) \<and> prv (elem s (hd ys)) = Some (last xs)"
  using assms
proof (induction xs rule: list_nonempty_induct)
  case (single x)
  then show ?case by (cases ys) auto
next
  case (cons x xs)
  then show ?case by (cases xs) auto
qed

lemma linked_cong:
  assumes "\<And>x. x \<in> set (butlast xs) \<Longrightarrow> nxt (elem s' x) = nxt (elem s x)" "\<And>x. x \<in> set (tl xs) \<Longrightarrow> prv (elem s' x) = prv (elem s x)"
  shows "linked s' xs = linked s xs"
  using assms by (induction s xs rule: linked.induct) auto

text \<open>
  A chain does not notice changes outside it, changes of the first element's back pointer and of the last
  element's forward pointer.
\<close>

lemma linked_keep:
  assumes "linked s zs" "\<And>x. x \<notin> {e, a} \<Longrightarrow> nxt (elem s' x) = nxt (elem s x)" "\<And>x. x \<notin> {e, n} \<Longrightarrow> prv (elem s' x) = prv (elem s x)"
    and "e \<notin> set zs" "a \<notin> set (butlast zs)" "n \<notin> set (tl zs)"
  shows "linked s' zs"
proof -
  have "nxt (elem s' x) = nxt (elem s x)" if "x \<in> set (butlast zs)" for x
    using assms(2) [of x] assms(4,5) that by (auto dest: in_set_butlastD)
  moreover have "prv (elem s' x) = prv (elem s x)" if "x \<in> set (tl zs)" for x
    using assms(3) [of x] assms(4,6) that by (cases zs) auto
  ultimately show ?thesis using assms(1) linked_cong [of zs s' s] by blast
qed

text \<open>Putting an element between two neighbours, and taking it out.\<close>

lemma ends_once:
  assumes "distinct xs" "xs \<noteq> []"
  shows "last xs \<notin> set (butlast xs)" "hd xs \<notin> set (tl xs)"
  using assms by (induction xs) (auto split: if_splits dest: in_set_butlastD)

lemma linked_insert:
  assumes "linked s (xs @ ys)" "xs \<noteq> []" "ys \<noteq> []" "distinct xs" "distinct ys" "hd ys \<notin> set (tl xs)" "last xs \<notin> set (butlast ys)"
    and "e \<notin> set xs" "e \<notin> set ys"
  shows "\<exists>s'. list_insert l e (last xs) s = Inr (e, s') \<and> linked s' (xs @ e # ys) \<and> len s' = (len s)(l := len s l + 1) \<and>
    used s' = used s \<and> (\<forall>x. owner (elem s' x) = (if x = e then Some l else owner (elem s x))) \<and>
    (\<forall>x. Value (elem s' x) = Value (elem s x)) \<and>
    (\<forall>x. x \<notin> {e, last xs, hd ys} \<longrightarrow> nxt (elem s' x) = nxt (elem s x) \<and> prv (elem s' x) = prv (elem s x))"
proof -
  define a n where "a = last xs" and "n = hd ys"
  define s' where "s' = addLen l 1 (setList e (Some l) (setPrev n (Some e) (setNext e (Some n) (setPrev e (Some a) (setNext a (Some e) s)))))"
  note app = linked_append [OF assms(2,3)]
  have L: "linked s xs" "linked s ys" "nxt (elem s a) = Some n" using assms(1) by (auto simp: app a_def n_def)
  have ne: "e \<noteq> a" "e \<noteq> n" using assms by (auto simp: a_def n_def)
  have eq: "list_insert l e (last xs) s = Inr (e, s')"
    using L(3) by (simp add: list_insert_def Let_def s'_def a_def [symmetric])
  have "linked s' xs" by (rule linked_keep [OF L(1), of e a s' n]) (use assms(6,8) ends_once(1) [OF assms(4,2)] in \<open>auto simp: s'_def a_def n_def\<close>)
  moreover have "linked s' ys" by (rule linked_keep [OF L(2), of e a s' n]) (use assms(7,9) ends_once(2) [OF assms(5,3)] in \<open>auto simp: s'_def a_def n_def\<close>)
  moreover have "nxt (elem s' a) = Some e" "prv (elem s' e) = Some a" "nxt (elem s' e) = Some n" "prv (elem s' n) = Some e"
    using ne by (auto simp: s'_def)
  ultimately have "linked s' (xs @ e # ys)"
    using assms(2,3) by (subst linked_append) (auto simp: a_def n_def neq_Nil_conv)
  then show ?thesis using eq ne by (intro exI [of _ s']) (auto simp: s'_def a_def n_def)
qed

lemma linked_remove:
  assumes "linked s (xs @ e # ys)" "xs \<noteq> []" "ys \<noteq> []" "distinct xs" "distinct ys" "hd ys \<notin> set (tl xs)" "last xs \<notin> set (butlast ys)"
    and "e \<notin> set xs" "e \<notin> set ys"
  shows "\<exists>s'. list_remove l e s = Inr (e, s') \<and> linked s' (xs @ ys) \<and> len s' = (len s)(l := len s l - 1) \<and>
    used s' = used s \<and> (\<forall>x. owner (elem s' x) = (if x = e then None else owner (elem s x))) \<and>
    (\<forall>x. Value (elem s' x) = Value (elem s x)) \<and>
    (\<forall>x. x \<notin> {e, last xs, hd ys} \<longrightarrow> nxt (elem s' x) = nxt (elem s x) \<and> prv (elem s' x) = prv (elem s x))"
proof -
  define a n where "a = last xs" and "n = hd ys"
  define s' where "s' = addLen l (- 1) (setList e None (setPrev e None (setNext e None (setPrev n (Some a) (setNext a (Some n) s)))))"
  have L: "linked s xs" "linked s ys" "nxt (elem s a) = Some e" "prv (elem s e) = Some a" "nxt (elem s e) = Some n"
    using assms(1) linked_append [OF assms(2), of "e # ys" s] assms(3) by (auto simp: a_def n_def neq_Nil_conv)
  have ne: "e \<noteq> a" "e \<noteq> n" using assms by (auto simp: a_def n_def)
  have eq: "list_remove l e s = Inr (e, s')"
    using L(4,5) ne by (simp add: list_remove_def Let_def s'_def)
  have "linked s' xs" by (rule linked_keep [OF L(1), of e a s' n]) (use assms(6,8) ends_once(1) [OF assms(4,2)] in \<open>auto simp: s'_def a_def n_def\<close>)
  moreover have "linked s' ys" by (rule linked_keep [OF L(2), of e a s' n]) (use assms(7,9) ends_once(2) [OF assms(5,3)] in \<open>auto simp: s'_def a_def n_def\<close>)
  moreover have "nxt (elem s' a) = Some n" "prv (elem s' n) = Some a" using ne by (auto simp: s'_def)
  ultimately have "linked s' (xs @ ys)" using assms(2,3) by (subst linked_append) (auto simp: a_def n_def)
  then show ?thesis using eq ne by (intro exI [of _ s']) (auto simp: s'_def a_def n_def)
qed

section \<open>Lists as sequences\<close>

text \<open>
  The elements of list \<open>l\<close> are \<open>es\<close>: a ring through the root, or a zero value that was never used. An element knows
  its list, so two lists never share one.
\<close>

abbreviation ring :: "'a store \<Rightarrow> nat \<Rightarrow> nat list \<Rightarrow> bool" where
  "ring s l es \<equiv> linked s (Root l # map Elem es @ [Root l])"

definition list_ok :: "'a store \<Rightarrow> nat \<Rightarrow> nat list \<Rightarrow> bool" where
  "list_ok s l es \<longleftrightarrow> distinct es \<and> len s l = int (length es) \<and> (\<forall>e. owner (elem s (Elem e)) = Some l \<longleftrightarrow> e \<in> set es) \<and>
     (\<forall>e \<in> set es. e < used s) \<and> (ring s l es \<or> es = [] \<and> nxt (elem s (Root l)) = None)"

definition lists_ok :: "'a store \<Rightarrow> (nat \<Rightarrow> nat list) \<Rightarrow> bool" where
  "lists_ok s \<sigma> \<longleftrightarrow> (\<forall>l. list_ok s l (\<sigma> l))"

definition emptyStore :: "'a \<Rightarrow> 'a store" where
  "emptyStore v = \<lparr>elem = (\<lambda>_. \<lparr>nxt = None, prv = None, owner = None, Value = v\<rparr>), len = (\<lambda>_. 0), used = 0\<rparr>"

lemma lists_ok_empty: "lists_ok (emptyStore v) (\<lambda>_. [])"
  by (simp add: lists_ok_def list_ok_def emptyStore_def)

lemma lists_ok_disjoint:
  assumes "lists_ok s \<sigma>" "k \<noteq> l"
  shows "set (\<sigma> k) \<inter> set (\<sigma> l) = {}"
proof -
  have "owner (elem s (Elem e)) = Some k \<longleftrightarrow> e \<in> set (\<sigma> k)" "owner (elem s (Elem e)) = Some l \<longleftrightarrow> e \<in> set (\<sigma> l)" for e
    using assms(1) by (auto simp: lists_ok_def list_ok_def)
  then show ?thesis using assms(2) by (metis disjoint_iff option.inject)
qed

lemma lists_ok_member:
  assumes "lists_ok s \<sigma>"
  shows "owner (elem s (Elem e)) = Some l \<longleftrightarrow> e \<in> set (\<sigma> l)" "e \<in> set (\<sigma> l) \<Longrightarrow> e < used s" "\<sigma> l \<noteq> [] \<Longrightarrow> ring s l (\<sigma> l)"
    "distinct (\<sigma> l)" "len s l = int (length (\<sigma> l))"
  using assms by (auto simp: lists_ok_def list_ok_def)

text \<open>A change inside the ring of one list leaves the others as they are.\<close>

lemma lists_ok_update:
  assumes ok: "lists_ok s \<sigma>" and new: "list_ok s' l es"
    and "used s \<le> used s'" "\<And>k. k \<noteq> l \<Longrightarrow> len s' k = len s k"
    and "\<And>e k. k \<noteq> l \<Longrightarrow> owner (elem s' (Elem e)) = Some k \<longleftrightarrow> owner (elem s (Elem e)) = Some k"
    and "\<And>x k. k \<noteq> l \<Longrightarrow> x \<in> insert (Root k) (Elem ` set (\<sigma> k)) \<Longrightarrow> nxt (elem s' x) = nxt (elem s x) \<and> prv (elem s' x) = prv (elem s x)"
  shows "lists_ok s' (\<sigma>(l := es))"
  unfolding lists_ok_def
proof
  fix k
  show "list_ok s' k ((\<sigma>(l := es)) k)"
  proof (cases "k = l")
    case False
    have "list_ok s k (\<sigma> k)" using ok by (simp add: lists_ok_def)
    moreover have "ring s' k (\<sigma> k) = ring s k (\<sigma> k)"
      by (rule linked_cong) (use assms(6) [OF False] in \<open>auto simp: butlast_append\<close>)
    moreover have "nxt (elem s' (Root k)) = nxt (elem s (Root k))" using assms(6) [OF False, of "Root k"] by simp
    ultimately show ?thesis using False assms(3,4,5) by (auto simp: list_ok_def)
  qed (simp add: new)
qed

text \<open>The element before position \<open>length xs\<close> of the ring.\<close>

abbreviation before :: "nat \<Rightarrow> nat list \<Rightarrow> ref" where
  "before l xs \<equiv> last (Root l # map Elem xs)"

lemma ring_parts:
  assumes "distinct (xs @ ys)"
  shows "distinct (Root l # map Elem xs)" "distinct (map Elem ys @ [Root l])"
    "hd (map Elem ys @ [Root l]) \<notin> set (tl (Root l # map Elem xs))" "before l xs \<notin> set (butlast (map Elem ys @ [Root l]))"
proof -
  show "distinct (Root l # map Elem xs)" "distinct (map Elem ys @ [Root l])" using assms by (auto simp: distinct_map inj_on_def)
  show "hd (map Elem ys @ [Root l]) \<notin> set (tl (Root l # map Elem xs))" using assms by (cases ys) auto
  show "before l xs \<notin> set (butlast (map Elem ys @ [Root l]))" using assms by (cases xs rule: rev_cases) auto
qed

lemma allocate_ok:
  assumes ok: "lists_ok s \<sigma>" and a: "allocate v s = (e, s')"
  shows "e = Elem (used s)" "lists_ok s' \<sigma>" "used s' = used s + 1" "Value (elem s' e) = v" "used s \<notin> set (\<sigma> k)"
    "\<And>x. x \<noteq> Elem (used s) \<Longrightarrow> elem s' x = elem s x"
proof -
  have free: "used s \<notin> set (\<sigma> k)" for k using lists_ok_member(2) [OF ok, of "used s" k] by blast
  show e: "e = Elem (used s)" and u: "used s' = used s + 1" and "Value (elem s' e) = v" and "used s \<notin> set (\<sigma> k)"
    and el: "\<And>x. x \<noteq> Elem (used s) \<Longrightarrow> elem s' x = elem s x"
    using a free by (auto simp: allocate_def Let_def)
  have own: "owner (elem s' (Elem x)) = Some l \<longleftrightarrow> x \<in> set (\<sigma> l)" for x l
    using a lists_ok_member(1) [OF ok, of x l] free [of l] by (auto simp: allocate_def Let_def split: if_splits)
  have "elem s' (Elem x) = elem s (Elem x)" if "x \<in> set (\<sigma> l)" for x l
    using that free [of l] by (intro el) auto
  then have "ring s' l (\<sigma> l) = ring s l (\<sigma> l)" for l
    by (intro linked_cong) (auto simp: butlast_append el)
  moreover have "len s' = len s" using a by (auto simp: allocate_def Let_def)
  ultimately show "lists_ok s' \<sigma>" using ok own el u by (auto simp: lists_ok_def list_ok_def less_Suc_eq)
qed

lemma list_insert_ok:
  assumes ok: "lists_ok s \<sigma>" and \<sigma>: "\<sigma> l = xs @ ys" and ring: "ring s l (xs @ ys)" and e: "e < used s" "\<And>k. e \<notin> set (\<sigma> k)"
  shows "\<exists>s'. list_insert l (Elem e) (before l xs) s = Inr (Elem e, s') \<and> lists_ok s' (\<sigma>(l := xs @ e # ys)) \<and>
    used s' = used s \<and> (\<forall>x. Value (elem s' x) = Value (elem s x))"
proof -
  let ?xs = "Root l # map Elem xs" and ?ys = "map Elem ys @ [Root l]"
  have dist: "distinct (xs @ ys)" using lists_ok_member(4) [OF ok, of l] \<sigma> by simp
  have ne: "Elem e \<notin> set ?xs" "Elem e \<notin> set ?ys" using e(2) [of l] \<sigma> by auto
  have lin: "linked s (?xs @ ?ys)" using ring by simp
  obtain s' where s': "list_insert l (Elem e) (last ?xs) s = Inr (Elem e, s')" "linked s' (?xs @ Elem e # ?ys)"
    "len s' = (len s)(l := len s l + 1)" "used s' = used s" "\<And>x. owner (elem s' x) = (if x = Elem e then Some l else owner (elem s x))"
    "\<And>x. Value (elem s' x) = Value (elem s x)"
    "\<And>x. x \<notin> {Elem e, last ?xs, hd ?ys} \<Longrightarrow> nxt (elem s' x) = nxt (elem s x) \<and> prv (elem s' x) = prv (elem s x)"
    using linked_insert [OF lin _ _ ring_parts [OF dist] ne, of l] by blast
  have own: "owner (elem s (Elem x)) = Some k \<longleftrightarrow> x \<in> set (\<sigma> k)" for x k by (rule lists_ok_member(1) [OF ok])
  have "list_ok s' l (xs @ e # ys)"
    unfolding list_ok_def using s' dist e(1) e(2) [of l] lists_ok_member(2) [OF ok, of _ l] lists_ok_member(5) [OF ok, of l] own [of _ l]
    by (auto simp: \<sigma>)
  then have "lists_ok s' (\<sigma>(l := xs @ e # ys))"
  proof (rule lists_ok_update [OF ok])
    fix k x assume k: "k \<noteq> l" and x: "x \<in> insert (Root k) (Elem ` set (\<sigma> k))"
    then have "x \<notin> {Elem e, last ?xs, hd ?ys}"
      using lists_ok_disjoint [OF ok k] \<sigma> e(2) [of k] by (cases xs rule: rev_cases; cases ys) auto
    then show "nxt (elem s' x) = nxt (elem s x) \<and> prv (elem s' x) = prv (elem s x)" by (rule s'(7))
  next
    show "owner (elem s' (Elem x)) = Some k \<longleftrightarrow> owner (elem s (Elem x)) = Some k" if "k \<noteq> l" for x k
      using s'(5) [of "Elem x"] own [of x k] e(2) [of k] that by auto
  qed (use s'(3,4) in simp_all)
  then show ?thesis using s'(1,4,6) by blast
qed

lemma list_remove_ok:
  assumes ok: "lists_ok s \<sigma>" and \<sigma>: "\<sigma> l = xs @ e # ys"
  shows "\<exists>s'. list_remove l (Elem e) s = Inr (Elem e, s') \<and> lists_ok s' (\<sigma>(l := xs @ ys)) \<and> ring s' l (xs @ ys) \<and>
    used s' = used s \<and> (\<forall>x. Value (elem s' x) = Value (elem s x))"
proof -
  let ?xs = "Root l # map Elem xs" and ?ys = "map Elem ys @ [Root l]"
  have dist: "distinct (xs @ ys)" "e \<notin> set (xs @ ys)" using lists_ok_member(4) [OF ok, of l] \<sigma> by auto
  have ne: "Elem e \<notin> set ?xs" "Elem e \<notin> set ?ys" using dist(2) by auto
  have lin: "linked s (?xs @ Elem e # ?ys)" using lists_ok_member(3) [OF ok, of l] \<sigma> by simp
  obtain s' where s': "list_remove l (Elem e) s = Inr (Elem e, s')" "linked s' (?xs @ ?ys)"
    "len s' = (len s)(l := len s l - 1)" "used s' = used s" "\<And>x. owner (elem s' x) = (if x = Elem e then None else owner (elem s x))"
    "\<And>x. Value (elem s' x) = Value (elem s x)"
    "\<And>x. x \<notin> {Elem e, last ?xs, hd ?ys} \<Longrightarrow> nxt (elem s' x) = nxt (elem s x) \<and> prv (elem s' x) = prv (elem s x)"
    using linked_remove [OF lin _ _ ring_parts [OF dist(1)] ne, of l] by blast
  have own: "owner (elem s (Elem x)) = Some k \<longleftrightarrow> x \<in> set (\<sigma> k)" for x k by (rule lists_ok_member(1) [OF ok])
  have "list_ok s' l (xs @ ys)"
    unfolding list_ok_def using s' dist lists_ok_member(2) [OF ok, of _ l] lists_ok_member(5) [OF ok, of l] own [of _ l]
    by (auto simp: \<sigma>)
  then have "lists_ok s' (\<sigma>(l := xs @ ys))"
  proof (rule lists_ok_update [OF ok])
    fix k x assume k: "k \<noteq> l" and x: "x \<in> insert (Root k) (Elem ` set (\<sigma> k))"
    then have "x \<notin> {Elem e, last ?xs, hd ?ys}"
      using lists_ok_disjoint [OF ok k] \<sigma> by (cases xs rule: rev_cases; cases ys) auto
    then show "nxt (elem s' x) = nxt (elem s x) \<and> prv (elem s' x) = prv (elem s x)" by (rule s'(7))
  next
    show "owner (elem s' (Elem x)) = Some k \<longleftrightarrow> owner (elem s (Elem x)) = Some k" if k: "k \<noteq> l" for x k
      using s'(5) [of "Elem x"] own [of x k] lists_ok_disjoint [OF ok k] \<sigma> by auto
  qed (use s'(3,4) in simp_all)
  then show ?thesis using s'(1,2,4,6) by auto
qed

lemma insertValue_ok:
  assumes ok: "lists_ok s \<sigma>" and \<sigma>: "\<sigma> l = xs @ ys" and ring: "ring s l (xs @ ys)"
  shows "\<exists>s'. insertValue l v (Some (before l xs)) s = Inr (Elem (used s), s') \<and> lists_ok s' (\<sigma>(l := xs @ used s # ys)) \<and>
    used s' = used s + 1 \<and> Value (elem s' (Elem (used s))) = v \<and> (\<forall>e < used s. Value (elem s' (Elem e)) = Value (elem s (Elem e)))"
proof -
  obtain s1 where s1: "allocate v s = (Elem (used s), s1)" by (simp add: allocate_def Let_def)
  note a = allocate_ok [OF ok s1]
  have "ring s1 l (xs @ ys)"
    by (rule linked_keep [of s _ "Elem (used s)" "Elem (used s)" _ "Elem (used s)"]) (use ring a(5) [of l] a(6) \<sigma> in \<open>auto dest: in_set_butlastD\<close>)
  from list_insert_ok [OF a(2) \<sigma> this, of "used s"] a(3,5) obtain s' where
    "list_insert l (Elem (used s)) (before l xs) s1 = Inr (Elem (used s), s')" "lists_ok s' (\<sigma>(l := xs @ used s # ys))"
    "used s' = used s1" "\<And>x. Value (elem s' x) = Value (elem s1 x)" by auto
  then show ?thesis using a(3,4,6) by (auto simp: insertValue_def s1)
qed

section \<open>Every sequence of operations\<close>

text \<open>
  The operations with their arguments; an element is named by its number in the order of allocation. \<open>spec\<close> is what
  they do to sequences of elements, where \<open>vs\<close> has the values of all elements.
\<close>

datatype 'a list_op =
    PushFrontOp nat 'a | PushBackOp nat 'a | InsertBeforeOp nat 'a nat | InsertAfterOp nat 'a nat | RemoveOp nat nat
  | MoveToFrontOp nat nat | MoveToBackOp nat nat | MoveBeforeOp nat nat nat | MoveAfterOp nat nat nat
  | PushBackListOp nat nat | PushFrontListOp nat nat

fun execute :: "'a list_op \<Rightarrow> 'a store \<Rightarrow> error + 'a store" where
  "execute (PushFrontOp l v) s = map_sum id snd (PushFront l v s)"
| "execute (PushBackOp l v) s = map_sum id snd (PushBack l v s)"
| "execute (InsertBeforeOp l v m) s = map_sum id snd (InsertBefore l v (Elem m) s)"
| "execute (InsertAfterOp l v m) s = map_sum id snd (InsertAfter l v (Elem m) s)"
| "execute (RemoveOp l e) s = map_sum id snd (Remove l (Elem e) s)"
| "execute (MoveToFrontOp l e) s = MoveToFront l (Elem e) s"
| "execute (MoveToBackOp l e) s = MoveToBack l (Elem e) s"
| "execute (MoveBeforeOp l e m) s = MoveBefore l (Elem e) (Elem m) s"
| "execute (MoveAfterOp l e m) s = MoveAfter l (Elem e) (Elem m) s"
| "execute (PushBackListOp l k) s = PushBackList l k s"
| "execute (PushFrontListOp l k) s = PushFrontList l k s"

definition putBefore :: "'b \<Rightarrow> 'b \<Rightarrow> 'b list \<Rightarrow> 'b list" where
  "putBefore m e xs = takeWhile (\<lambda>x. x \<noteq> m) xs @ e # dropWhile (\<lambda>x. x \<noteq> m) xs"

definition putAfter :: "'b \<Rightarrow> 'b \<Rightarrow> 'b list \<Rightarrow> 'b list" where
  "putAfter m e xs = takeWhile (\<lambda>x. x \<noteq> m) xs @ m # e # tl (dropWhile (\<lambda>x. x \<noteq> m) xs)"

fun spec :: "'a list_op \<Rightarrow> (nat \<Rightarrow> nat list) \<times> 'a list \<Rightarrow> (nat \<Rightarrow> nat list) \<times> 'a list" where
  "spec (PushFrontOp l v) (\<sigma>, vs) = (\<sigma>(l := length vs # \<sigma> l), vs @ [v])"
| "spec (PushBackOp l v) (\<sigma>, vs) = (\<sigma>(l := \<sigma> l @ [length vs]), vs @ [v])"
| "spec (InsertBeforeOp l v m) (\<sigma>, vs) = (if m \<in> set (\<sigma> l) then (\<sigma>(l := putBefore m (length vs) (\<sigma> l)), vs @ [v]) else (\<sigma>, vs))"
| "spec (InsertAfterOp l v m) (\<sigma>, vs) = (if m \<in> set (\<sigma> l) then (\<sigma>(l := putAfter m (length vs) (\<sigma> l)), vs @ [v]) else (\<sigma>, vs))"
| "spec (RemoveOp l e) (\<sigma>, vs) = (\<sigma>(l := remove1 e (\<sigma> l)), vs)"
| "spec (MoveToFrontOp l e) (\<sigma>, vs) = (if e \<in> set (\<sigma> l) then \<sigma>(l := e # remove1 e (\<sigma> l)) else \<sigma>, vs)"
| "spec (MoveToBackOp l e) (\<sigma>, vs) = (if e \<in> set (\<sigma> l) then \<sigma>(l := remove1 e (\<sigma> l) @ [e]) else \<sigma>, vs)"
| "spec (MoveBeforeOp l e m) (\<sigma>, vs) =
     (if e \<in> set (\<sigma> l) \<and> e \<noteq> m \<and> m \<in> set (\<sigma> l) then \<sigma>(l := putBefore m e (remove1 e (\<sigma> l))) else \<sigma>, vs)"
| "spec (MoveAfterOp l e m) (\<sigma>, vs) =
     (if e \<in> set (\<sigma> l) \<and> e \<noteq> m \<and> m \<in> set (\<sigma> l) then \<sigma>(l := putAfter m e (remove1 e (\<sigma> l))) else \<sigma>, vs)"
| "spec (PushBackListOp l k) (\<sigma>, vs) =
     (\<sigma>(l := \<sigma> l @ [length vs ..< length vs + length (\<sigma> k)]), vs @ map (\<lambda>e. vs ! e) (\<sigma> k))"
| "spec (PushFrontListOp l k) (\<sigma>, vs) =
     (\<sigma>(l := rev [length vs ..< length vs + length (\<sigma> k)] @ \<sigma> l), vs @ map (\<lambda>e. vs ! e) (rev (\<sigma> k)))"

definition represents :: "'a store \<Rightarrow> (nat \<Rightarrow> nat list) \<times> 'a list \<Rightarrow> bool" where
  "represents s \<equiv> \<lambda>(\<sigma>, vs). lists_ok s \<sigma> \<and> used s = length vs \<and> (\<forall>e < length vs. Value (elem s (Elem e)) = vs ! e)"

lemma lazyInit_ok:
  assumes "represents s (\<sigma>, vs)"
  shows "represents (lazyInit l s) (\<sigma>, vs)" "ring (lazyInit l s) l (\<sigma> l)"
proof -
  have ok: "lists_ok s \<sigma>" using assms by (simp add: represents_def)
  have "represents (lazyInit l s) (\<sigma>, vs) \<and> ring (lazyInit l s) l (\<sigma> l)"
  proof (cases "nxt (elem s (Root l)) = None")
    case True
    then have "\<not> ring s l (\<sigma> l)" by (cases "\<sigma> l") auto
    then have nil: "\<sigma> l = []" using lists_ok_member(3) [OF ok] by blast
    define s' where "s' = lazyInit l s"
    have s': "s' = (setPrev (Root l) (Some (Root l)) (setNext (Root l) (Some (Root l)) s))\<lparr>len := (len s)(l := 0)\<rparr>"
      using True by (simp add: s'_def lazyInit_def Init_def Let_def)
    have r: "ring s' l []" by (simp add: s')
    have "list_ok s' l []" using r lists_ok_member(1) [OF ok, of _ l] nil by (auto simp: list_ok_def s')
    then have "lists_ok s' (\<sigma>(l := []))" by (rule lists_ok_update [OF ok]) (auto simp: s')
    then have "lists_ok s' \<sigma>" using nil by (metis fun_upd_triv)
    moreover have "used s' = used s" "Value (elem s' x) = Value (elem s x)" for x by (simp_all add: s')
    ultimately show ?thesis using assms r nil by (simp add: represents_def s'_def)
  next
    case False
    then have "ring s l (\<sigma> l)" using ok by (auto simp: lists_ok_def list_ok_def)
    then show ?thesis using assms False by (auto simp: lazyInit_def)
  qed
  then show "represents (lazyInit l s) (\<sigma>, vs)" "ring (lazyInit l s) l (\<sigma> l)" by blast+
qed

lemma insertValue_represents:
  assumes "represents s (\<sigma>, vs)" "\<sigma> l = xs @ ys" "ring s l (\<sigma> l)" "at = Some (before l xs)"
  shows "\<exists>s'. insertValue l v at s = Inr (Elem (length vs), s') \<and> represents s' (\<sigma>(l := xs @ length vs # ys), vs @ [v]) \<and>
    ring s' l (xs @ length vs # ys)"
proof -
  have r: "lists_ok s \<sigma>" "used s = length vs" "\<forall>e < length vs. Value (elem s (Elem e)) = vs ! e"
    using assms(1) by (simp_all add: represents_def)
  obtain s' where s': "insertValue l v (Some (before l xs)) s = Inr (Elem (used s), s')" "lists_ok s' (\<sigma>(l := xs @ used s # ys))"
    "used s' = used s + 1" "Value (elem s' (Elem (used s))) = v" "\<And>e. e < used s \<Longrightarrow> Value (elem s' (Elem e)) = Value (elem s (Elem e))"
    using insertValue_ok [OF r(1) assms(2)] assms(2,3) by metis
  have "ring s' l (xs @ length vs # ys)" using lists_ok_member(3) [OF s'(2), of l] r(2) by simp
  then show ?thesis using s' r assms(4) by (auto simp: represents_def nth_append less_Suc_eq)
qed

text \<open>The pointers of a ring.\<close>

lemma ring_pointers:
  assumes "ring s l (xs @ ys)"
  shows "nxt (elem s (before l xs)) = Some (hd (map Elem ys @ [Root l]))" "prv (elem s (hd (map Elem ys @ [Root l]))) = Some (before l xs)"
  using assms linked_append [of "Root l # map Elem xs" "map Elem ys @ [Root l]" s] by simp_all

lemma put_at:
  assumes "m \<notin> set xs"
  shows "putBefore m e (xs @ m # ys) = xs @ e # m # ys" "putAfter m e (xs @ m # ys) = xs @ m # e # ys"
  using assms by (induction xs) (auto simp: putBefore_def putAfter_def)

lemma PushFront_represents:
  assumes "represents s (\<sigma>, vs)"
  shows "\<exists>s'. PushFront l v s = Inr (Elem (length vs), s') \<and> represents s' (spec (PushFrontOp l v) (\<sigma>, vs))"
  using insertValue_represents [OF lazyInit_ok(1) [OF assms], of l "[]" "\<sigma> l" l _ v] lazyInit_ok(2) [OF assms]
  by (auto simp: PushFront_def)

lemma PushBack_represents:
  assumes "represents s (\<sigma>, vs)"
  shows "\<exists>s'. PushBack l v s = Inr (Elem (length vs), s') \<and> represents s' (spec (PushBackOp l v) (\<sigma>, vs))"
  using insertValue_represents [OF lazyInit_ok(1) [OF assms], of l "\<sigma> l" "[]" l _ v] lazyInit_ok(2) [OF assms, of l]
    ring_pointers(2) [of "lazyInit l s" l "\<sigma> l" "[]"]
  by (auto simp: PushBack_def Let_def)

lemma Insert_represents:
  assumes "represents s (\<sigma>, vs)"
  shows "\<exists>s'. InsertBefore l v (Elem m) s = Inr (if m \<in> set (\<sigma> l) then Some (Elem (length vs)) else None, s') \<and>
      represents s' (spec (InsertBeforeOp l v m) (\<sigma>, vs))"
    "\<exists>s'. InsertAfter l v (Elem m) s = Inr (if m \<in> set (\<sigma> l) then Some (Elem (length vs)) else None, s') \<and>
      represents s' (spec (InsertAfterOp l v m) (\<sigma>, vs))"
proof -
  have ok: "lists_ok s \<sigma>" using assms by (simp add: represents_def)
  have own: "owner (elem s (Elem m)) = Some l \<longleftrightarrow> m \<in> set (\<sigma> l)" by (rule lists_ok_member(1) [OF ok])
  have "(\<exists>s'. InsertBefore l v (Elem m) s = Inr (Some (Elem (length vs)), s') \<and> represents s' (spec (InsertBeforeOp l v m) (\<sigma>, vs))) \<and>
    (\<exists>s'. InsertAfter l v (Elem m) s = Inr (Some (Elem (length vs)), s') \<and> represents s' (spec (InsertAfterOp l v m) (\<sigma>, vs)))"
    if m: "m \<in> set (\<sigma> l)"
  proof -
    obtain xs ys where \<sigma>: "\<sigma> l = xs @ m # ys" "m \<notin> set xs" using split_list_first [OF m] by blast
    have ring: "ring s l (\<sigma> l)" using lists_ok_member(3) [OF ok, of l] m by fastforce
    have at: "prv (elem s (Elem m)) = Some (before l xs)" "Some (Elem m) = Some (before l (xs @ [m]))"
      using ring_pointers(2) [of s l xs "m # ys"] ring \<sigma>(1) by simp_all
    show ?thesis
      using insertValue_represents [OF assms \<sigma>(1) ring at(1), of v] insertValue_represents [OF assms _ ring at(2), of ys v] m own
      by (auto simp: InsertBefore_def InsertAfter_def \<sigma> put_at)
  qed
  then show "\<exists>s'. InsertBefore l v (Elem m) s = Inr (if m \<in> set (\<sigma> l) then Some (Elem (length vs)) else None, s') \<and>
      represents s' (spec (InsertBeforeOp l v m) (\<sigma>, vs))"
    "\<exists>s'. InsertAfter l v (Elem m) s = Inr (if m \<in> set (\<sigma> l) then Some (Elem (length vs)) else None, s') \<and>
      represents s' (spec (InsertAfterOp l v m) (\<sigma>, vs))"
    using own assms by (auto simp: InsertBefore_def InsertAfter_def)
qed

lemma Remove_represents:
  assumes "represents s (\<sigma>, vs)"
  shows "\<exists>s'. Remove l (Elem e) s = Inr (Value (elem s (Elem e)), s') \<and> represents s' (spec (RemoveOp l e) (\<sigma>, vs))"
proof (cases "e \<in> set (\<sigma> l)")
  case True
  have ok: "lists_ok s \<sigma>" using assms by (simp add: represents_def)
  obtain xs ys where \<sigma>: "\<sigma> l = xs @ e # ys" "e \<notin> set xs" using split_list_first [OF True] by blast
  from list_remove_ok [OF ok \<sigma>(1)] obtain s' where "list_remove l (Elem e) s = Inr (Elem e, s')" "lists_ok s' (\<sigma>(l := xs @ ys))"
    "used s' = used s" "\<And>x. Value (elem s' x) = Value (elem s x)" by blast
  then show ?thesis using assms True lists_ok_member(1) [OF ok, of e l] \<sigma>
    by (auto simp: Remove_def represents_def remove1_append)
next
  case False
  then have "owner (elem s (Elem e)) \<noteq> Some l" using assms lists_ok_member(1) [of s \<sigma> e l] by (auto simp: represents_def)
  then show ?thesis using assms False by (simp add: Remove_def remove1_idem)
qed

text \<open>Taking an element out and putting it elsewhere.\<close>

lemma moveTo_represents:
  assumes "represents s (\<sigma>, vs)" "\<sigma> l = xs @ e # ys" "xs @ ys = xs' @ ys'" "\<And>s'. ring s' l (xs' @ ys') \<Longrightarrow> at s' = Some (before l xs')"
  shows "\<exists>s'. moveTo l (Elem e) at s = Inr s' \<and> represents s' (\<sigma>(l := xs' @ e # ys'), vs)"
proof -
  have r: "lists_ok s \<sigma>" "used s = length vs" "\<forall>e < length vs. Value (elem s (Elem e)) = vs ! e"
    using assms(1) by (simp_all add: represents_def)
  obtain s1 where s1: "list_remove l (Elem e) s = Inr (Elem e, s1)" "lists_ok s1 (\<sigma>(l := xs' @ ys'))" "ring s1 l (xs' @ ys')"
    "used s1 = used s" "\<And>x. Value (elem s1 x) = Value (elem s x)"
    using list_remove_ok [OF r(1) assms(2)] unfolding assms(3) by blast
  have e: "e < used s1" using lists_ok_member(2) [OF r(1), of e l] assms(2) s1(4) by simp
  have "e \<notin> set (xs @ ys)" using lists_ok_member(4) [OF r(1), of l] assms(2) by auto
  then have "e \<notin> set ((\<sigma>(l := xs' @ ys')) k)" for k
    using lists_ok_disjoint [OF r(1), of k l] assms(2) unfolding assms(3) by (cases "k = l") auto
  then obtain s2 where s2: "list_insert l (Elem e) (before l xs') s1 = Inr (Elem e, s2)" "lists_ok s2 (\<sigma>(l := xs' @ e # ys'))"
    "used s2 = used s1" "\<And>x. Value (elem s2 x) = Value (elem s1 x)"
    using list_insert_ok [OF s1(2) _ s1(3) e] by auto
  then show ?thesis using s1 r assms(4) [OF s1(3)] by (auto simp: moveTo_def represents_def)
qed

text \<open>What a client sees of a list.\<close>

lemma Next_Prev_represents:
  assumes "represents s (\<sigma>, vs)" "\<sigma> l = xs @ e # ys"
  shows "Next (Elem e) s = (case ys of [] \<Rightarrow> None | y # _ \<Rightarrow> Some (Elem y))"
    "Prev (Elem e) s = (if xs = [] then None else Some (Elem (last xs)))"
proof -
  have ok: "lists_ok s \<sigma>" using assms(1) by (simp add: represents_def)
  have own: "owner (elem s (Elem e)) = Some l" using lists_ok_member(1) [OF ok, of e l] assms(2) by simp
  have "ring s l (xs @ e # ys)" using lists_ok_member(3) [OF ok, of l] assms(2) by simp
  from ring_pointers(1) [of s l "xs @ [e]" ys] ring_pointers(2) [of s l xs "e # ys"] this
  show "Next (Elem e) s = (case ys of [] \<Rightarrow> None | y # _ \<Rightarrow> Some (Elem y))"
    "Prev (Elem e) s = (if xs = [] then None else Some (Elem (last xs)))"
    by (auto simp: Next_def Prev_def own last_map split: list.splits)
qed

lemma Front_Back_represents:
  assumes "represents s (\<sigma>, vs)"
  shows "Front l s = (if \<sigma> l = [] then None else Some (Elem (hd (\<sigma> l))))" "Back l s = (if \<sigma> l = [] then None else Some (Elem (last (\<sigma> l))))"
proof -
  have ok: "lists_ok s \<sigma>" using assms by (simp add: represents_def)
  show "Front l s = (if \<sigma> l = [] then None else Some (Elem (hd (\<sigma> l))))" "Back l s = (if \<sigma> l = [] then None else Some (Elem (last (\<sigma> l))))"
    using lists_ok_member(3,5) [OF ok, of l] ring_pointers(1) [of s l "[]" "\<sigma> l"] ring_pointers(2) [of s l "\<sigma> l" "[]"]
    by (auto simp: Front_def Back_def hd_map last_map hd_append)
qed

lemma Move_represents:
  assumes "represents s (\<sigma>, vs)"
  shows "\<exists>s'. MoveToFront l (Elem e) s = Inr s' \<and> represents s' (spec (MoveToFrontOp l e) (\<sigma>, vs))"
    "\<exists>s'. MoveToBack l (Elem e) s = Inr s' \<and> represents s' (spec (MoveToBackOp l e) (\<sigma>, vs))"
proof -
  have ok: "lists_ok s \<sigma>" using assms by (simp add: represents_def)
  have own: "owner (elem s (Elem e)) = Some l \<longleftrightarrow> e \<in> set (\<sigma> l)" by (rule lists_ok_member(1) [OF ok])
  have "(\<exists>s'. MoveToFront l (Elem e) s = Inr s' \<and> represents s' (spec (MoveToFrontOp l e) (\<sigma>, vs))) \<and>
    (\<exists>s'. MoveToBack l (Elem e) s = Inr s' \<and> represents s' (spec (MoveToBackOp l e) (\<sigma>, vs)))" if e: "e \<in> set (\<sigma> l)"
  proof -
    obtain xs ys where \<sigma>: "\<sigma> l = xs @ e # ys" "e \<notin> set xs" using split_list_first [OF e] by blast
    have ring: "ring s l (\<sigma> l)" using lists_ok_member(3) [OF ok, of l] e by fastforce
    have d: "distinct (\<sigma> l)" by (rule lists_ok_member(4) [OF ok])
    have front: "nxt (elem s (Root l)) = Some (Elem e) \<longleftrightarrow> xs = []"
      using ring_pointers(1) [of s l "[]" "\<sigma> l"] ring \<sigma> by (cases xs) auto
    have rear: "prv (elem s (Root l)) = Some (Elem e) \<longleftrightarrow> ys = []"
      using ring_pointers(2) [of s l "\<sigma> l" "[]"] ring \<sigma>(1) d by (cases ys rule: rev_cases) auto
    have at: "prv (elem s' (Root l)) = Some (before l (xs @ ys))" if "ring s' l ((xs @ ys) @ [])" for s'
      using ring_pointers(2) [OF that] by simp
    show ?thesis
      using moveTo_represents [OF assms \<sigma>(1), of "[]" "xs @ ys" "\<lambda>s. Some (Root l)"] moveTo_represents [OF assms \<sigma>(1), of "xs @ ys" "[]" "\<lambda>s. prv (elem s (Root l))"]
        own e assms front rear \<sigma> at by (auto simp: MoveToFront_def MoveToBack_def remove1_append fun_upd_idem)
  qed
  then show "\<exists>s'. MoveToFront l (Elem e) s = Inr s' \<and> represents s' (spec (MoveToFrontOp l e) (\<sigma>, vs))"
    "\<exists>s'. MoveToBack l (Elem e) s = Inr s' \<and> represents s' (spec (MoveToBackOp l e) (\<sigma>, vs))"
    using own assms by (auto simp: MoveToFront_def MoveToBack_def)
qed

lemma MoveBeforeAfter_represents:
  assumes "represents s (\<sigma>, vs)"
  shows "\<exists>s'. MoveBefore l (Elem e) (Elem m) s = Inr s' \<and> represents s' (spec (MoveBeforeOp l e m) (\<sigma>, vs))"
    "\<exists>s'. MoveAfter l (Elem e) (Elem m) s = Inr s' \<and> represents s' (spec (MoveAfterOp l e m) (\<sigma>, vs))"
proof -
  have ok: "lists_ok s \<sigma>" using assms by (simp add: represents_def)
  have own: "owner (elem s (Elem x)) = Some l \<longleftrightarrow> x \<in> set (\<sigma> l)" for x by (rule lists_ok_member(1) [OF ok])
  have "(\<exists>s'. MoveBefore l (Elem e) (Elem m) s = Inr s' \<and> represents s' (spec (MoveBeforeOp l e m) (\<sigma>, vs))) \<and>
    (\<exists>s'. MoveAfter l (Elem e) (Elem m) s = Inr s' \<and> represents s' (spec (MoveAfterOp l e m) (\<sigma>, vs)))"
    if e: "e \<in> set (\<sigma> l)" "e \<noteq> m" "m \<in> set (\<sigma> l)"
  proof -
    obtain xs ys where \<sigma>: "\<sigma> l = xs @ e # ys" "e \<notin> set xs" using split_list_first [OF e(1)] by blast
    have "m \<in> set (xs @ ys)" using e \<sigma> by auto
    then obtain xs' ys' where m: "xs @ ys = xs' @ m # ys'" "m \<notin> set xs'" using split_list_first by metis
    have at: "prv (elem s' (Elem m)) = Some (before l xs')" if "ring s' l (xs' @ m # ys')" for s'
      using ring_pointers(2) [OF that] by simp
    have m': "xs @ ys = (xs' @ [m]) @ ys'" using m(1) by simp
    have r: "remove1 e (\<sigma> l) = xs' @ m # ys'" using \<sigma> m(1) by (simp add: remove1_append)
    show ?thesis
      using moveTo_represents [OF assms \<sigma>(1) m(1), of "\<lambda>s. prv (elem s (Elem m))"] moveTo_represents [OF assms \<sigma>(1) m', of "\<lambda>s. Some (Elem m)"]
        own e at by (auto simp: MoveBefore_def MoveAfter_def r put_at [OF m(2)])
  qed
  then show "\<exists>s'. MoveBefore l (Elem e) (Elem m) s = Inr s' \<and> represents s' (spec (MoveBeforeOp l e m) (\<sigma>, vs))"
    "\<exists>s'. MoveAfter l (Elem e) (Elem m) s = Inr s' \<and> represents s' (spec (MoveAfterOp l e m) (\<sigma>, vs))"
    using own assms by (auto simp: MoveBefore_def MoveAfter_def)
qed

text \<open>
  Copying: \<open>ds\<close> are the elements of the other list that are still to come. The two lists may be the same one, which
  then grows at its far end.
\<close>

lemma pushBackLoop_represents:
  assumes "represents s (\<sigma>, vs)" "ring s l (\<sigma> l)" "\<sigma> k = xs @ ds @ zs" "ds \<noteq> [] \<longrightarrow> p = Some (Elem (hd ds))"
  shows "\<exists>s'. pushBackLoop (length ds) l p s = Inr s' \<and>
    represents s' (\<sigma>(l := \<sigma> l @ [length vs ..< length vs + length ds]), vs @ map (\<lambda>e. vs ! e) ds)"
  using assms
proof (induction ds arbitrary: s \<sigma> vs xs zs p)
  case (Cons d ds)
  have d: "e < length vs" "Value (elem s (Elem e)) = vs ! e" if "e \<in> set (d # ds)" for e
    using Cons.prems(1,3) lists_ok_member(2) [of s \<sigma> e k] that by (auto simp: represents_def)
  obtain s1 where s1: "insertValue l (vs ! d) (prv (elem s (Root l))) s = Inr (Elem (length vs), s1)"
    "represents s1 (\<sigma>(l := \<sigma> l @ [length vs]), vs @ [vs ! d])" "ring s1 l (\<sigma> l @ [length vs])"
    using insertValue_represents [OF Cons.prems(1), of l "\<sigma> l" "[]" "prv (elem s (Root l))" "vs ! d"] Cons.prems(2)
      ring_pointers(2) [of s l "\<sigma> l" "[]"] by auto
  let ?\<sigma> = "\<sigma>(l := \<sigma> l @ [length vs])" and ?zs = "if k = l then zs @ [length vs] else zs"
  have k: "?\<sigma> k = xs @ d # ds @ ?zs" using Cons.prems(3) by auto
  from Next_Prev_represents(1) [OF s1(2) k] have n: "ds \<noteq> [] \<longrightarrow> Next (Elem d) s1 = Some (Elem (hd ds))" by (cases ds) auto
  from k have k': "?\<sigma> k = (xs @ [d]) @ ds @ ?zs" by simp
  have r: "ring s1 l (?\<sigma> l)" using s1(3) by simp
  from Cons.IH [OF s1(2) r k' n] obtain s' where "pushBackLoop (length ds) l (Next (Elem d) s1) s1 = Inr s'"
    "represents s' (?\<sigma>(l := ?\<sigma> l @ [length (vs @ [vs ! d]) ..< length (vs @ [vs ! d]) + length ds]), (vs @ [vs ! d]) @ map (\<lambda>e. (vs @ [vs ! d]) ! e) ds)"
    by blast
  moreover have "?\<sigma>(l := ?\<sigma> l @ [length (vs @ [vs ! d]) ..< length (vs @ [vs ! d]) + length ds]) = \<sigma>(l := \<sigma> l @ [length vs ..< length vs + length (d # ds)])"
    by (simp add: upt_conv_Cons del: upt_Suc)
  moreover have "map (\<lambda>e. (vs @ [vs ! d]) ! e) ds = map (\<lambda>e. vs ! e) ds" using d(1) by (simp add: nth_append)
  ultimately show ?case using Cons.prems(4) d(2) [of d] s1(1) by (auto simp: fun_upd_def simp del: upt_Suc)
qed simp

lemma pushFrontLoop_represents:
  assumes "represents s (\<sigma>, vs)" "ring s l (\<sigma> l)" "\<sigma> k = xs @ rev ds @ zs" "ds \<noteq> [] \<longrightarrow> p = Some (Elem (hd ds))"
  shows "\<exists>s'. pushFrontLoop (length ds) l p s = Inr s' \<and>
    represents s' (\<sigma>(l := rev [length vs ..< length vs + length ds] @ \<sigma> l), vs @ map (\<lambda>e. vs ! e) ds)"
  using assms
proof (induction ds arbitrary: s \<sigma> vs xs zs p)
  case (Cons d ds)
  have d: "e < length vs" "Value (elem s (Elem e)) = vs ! e" if "e \<in> set (d # ds)" for e
    using Cons.prems(1,3) lists_ok_member(2) [of s \<sigma> e k] that by (auto simp: represents_def)
  obtain s1 where s1: "insertValue l (vs ! d) (Some (Root l)) s = Inr (Elem (length vs), s1)"
    "represents s1 (\<sigma>(l := length vs # \<sigma> l), vs @ [vs ! d])" "ring s1 l (length vs # \<sigma> l)"
    using insertValue_represents [OF Cons.prems(1), of l "[]" "\<sigma> l" "Some (Root l)" "vs ! d"] Cons.prems(2) by auto
  let ?\<sigma> = "\<sigma>(l := length vs # \<sigma> l)" and ?xs = "if k = l then length vs # xs else xs"
  have k: "?\<sigma> k = (?xs @ rev ds) @ d # zs" using Cons.prems(3) by auto
  from Next_Prev_represents(2) [OF s1(2) k] have n: "ds \<noteq> [] \<longrightarrow> Prev (Elem d) s1 = Some (Elem (hd ds))" by (auto simp: last_rev)
  from k have k': "?\<sigma> k = ?xs @ rev ds @ d # zs" by simp
  have r: "ring s1 l (?\<sigma> l)" using s1(3) by simp
  from Cons.IH [OF s1(2) r k' n] obtain s' where "pushFrontLoop (length ds) l (Prev (Elem d) s1) s1 = Inr s'"
    "represents s' (?\<sigma>(l := rev [length (vs @ [vs ! d]) ..< length (vs @ [vs ! d]) + length ds] @ ?\<sigma> l), (vs @ [vs ! d]) @ map (\<lambda>e. (vs @ [vs ! d]) ! e) ds)"
    by blast
  moreover have "?\<sigma>(l := rev [length (vs @ [vs ! d]) ..< length (vs @ [vs ! d]) + length ds] @ ?\<sigma> l) = \<sigma>(l := rev [length vs ..< length vs + length (d # ds)] @ \<sigma> l)"
    by (simp add: upt_conv_Cons del: upt_Suc)
  moreover have "map (\<lambda>e. (vs @ [vs ! d]) ! e) ds = map (\<lambda>e. vs ! e) ds" using d(1) by (simp add: nth_append)
  ultimately show ?case using Cons.prems(4) d(2) [of d] s1(1) by (auto simp: fun_upd_def simp del: upt_Suc)
qed simp

lemma PushList_represents:
  assumes "represents s (\<sigma>, vs)"
  shows "\<exists>s'. PushBackList l k s = Inr s' \<and> represents s' (spec (PushBackListOp l k) (\<sigma>, vs))"
    "\<exists>s'. PushFrontList l k s = Inr s' \<and> represents s' (spec (PushFrontListOp l k) (\<sigma>, vs))"
proof -
  let ?s = "lazyInit l s"
  note i = lazyInit_ok [OF assms, of l]
  have n: "nat (len ?s k) = length (\<sigma> k)" using i(1) lists_ok_member(5) [of ?s \<sigma> k] by (simp add: represents_def)
  note f = Front_Back_represents [OF i(1), of k]
  show "\<exists>s'. PushBackList l k s = Inr s' \<and> represents s' (spec (PushBackListOp l k) (\<sigma>, vs))"
    using pushBackLoop_represents [OF i, of k "[]" "\<sigma> k" "[]" "Front k ?s"] f by (simp add: PushBackList_def Let_def n)
  show "\<exists>s'. PushFrontList l k s = Inr s' \<and> represents s' (spec (PushFrontListOp l k) (\<sigma>, vs))"
    using pushFrontLoop_represents [OF i, of k "[]" "rev (\<sigma> k)" "[]" "Back k ?s"] f by (simp add: PushFrontList_def Let_def n hd_rev)
qed

lemma execute_represents:
  assumes "represents s (\<sigma>, vs)"
  shows "\<exists>s'. execute op s = Inr s' \<and> represents s' (spec op (\<sigma>, vs))"
proof (cases op)
  case (PushFrontOp l v)
  then show ?thesis using PushFront_represents [OF assms, of l v] by (auto simp del: spec.simps)
next
  case (PushBackOp l v)
  then show ?thesis using PushBack_represents [OF assms, of l v] by (auto simp del: spec.simps)
next
  case (InsertBeforeOp l v m)
  then show ?thesis using Insert_represents(1) [OF assms, of l v m] by (auto simp del: spec.simps)
next
  case (InsertAfterOp l v m)
  then show ?thesis using Insert_represents(2) [OF assms, of l v m] by (auto simp del: spec.simps)
next
  case (RemoveOp l e)
  then show ?thesis using Remove_represents [OF assms, of l e] by (auto simp del: spec.simps)
qed (use Move_represents [OF assms] MoveBeforeAfter_represents [OF assms] PushList_represents [OF assms] in \<open>auto simp del: spec.simps\<close>)

fun executeAll :: "'a list_op list \<Rightarrow> 'a store \<Rightarrow> error + 'a store" where
  "executeAll [] s = Inr s"
| "executeAll (op # ops) s = bind_r (execute op s) (executeAll ops)"

lemma executeAll_represents:
  assumes "represents s (\<sigma>, vs)"
  shows "\<exists>s'. executeAll ops s = Inr s' \<and> represents s' (fold spec ops (\<sigma>, vs))"
  using assms
proof (induction ops arbitrary: s \<sigma> vs)
  case (Cons op ops)
  obtain s1 where s1: "execute op s = Inr s1" "represents s1 (spec op (\<sigma>, vs))" using execute_represents [OF Cons.prems] by blast
  obtain \<sigma>' vs' where "spec op (\<sigma>, vs) = (\<sigma>', vs')" by fastforce
  then show ?case using Cons.IH [of s1 \<sigma>' vs'] s1 by simp
qed simp

text \<open>
  C6. the linked lists are sequences. Whatever operations run on any number of lists in one store, with elements that
  belong to the list, to another one or to none, no nil pointer is followed, and what \<^verbatim>\<open>Len\<close>, \<^verbatim>\<open>Front\<close>, \<^verbatim>\<open>Back\<close>,
  \<^verbatim>\<open>Next\<close>, \<^verbatim>\<open>Prev\<close> and \<^verbatim>\<open>Value\<close> show of every list is the sequence that the plain operations on sequences give.
\<close>

theorem linked_lists_refine_sequences:
  "\<exists>s \<sigma> vs. executeAll ops (emptyStore v) = Inr s \<and> fold spec ops (\<lambda>_. [], []) = (\<sigma>, vs) \<and>
    (\<forall>l. len s l = int (length (\<sigma> l)) \<and>
      Front l s = (if \<sigma> l = [] then None else Some (Elem (hd (\<sigma> l)))) \<and>
      Back l s = (if \<sigma> l = [] then None else Some (Elem (last (\<sigma> l)))) \<and>
      (\<forall>xs e ys. \<sigma> l = xs @ e # ys \<longrightarrow> Value (elem s (Elem e)) = vs ! e \<and>
        Next (Elem e) s = (case ys of [] \<Rightarrow> None | y # _ \<Rightarrow> Some (Elem y)) \<and>
        Prev (Elem e) s = (if xs = [] then None else Some (Elem (last xs)))))"
proof -
  have "represents (emptyStore v) (\<lambda>_. [], [])" using lists_ok_empty [of v] by (simp add: represents_def emptyStore_def)
  from executeAll_represents [OF this, of ops] obtain s \<sigma> vs
    where s: "executeAll ops (emptyStore v) = Inr s" "fold spec ops (\<lambda>_. [], []) = (\<sigma>, vs)" "represents s (\<sigma>, vs)"
    by (metis surj_pair)
  have ok: "lists_ok s \<sigma>" "used s = length vs" "\<And>e. e < length vs \<Longrightarrow> Value (elem s (Elem e)) = vs ! e"
    using s(3) by (simp_all add: represents_def)
  have "Value (elem s (Elem e)) = vs ! e" if "\<sigma> l = xs @ e # ys" for l xs e ys
    using ok(2,3) lists_ok_member(2) [OF ok(1), of e l] that by simp
  then show ?thesis
    using s(1,2) lists_ok_member(5) [OF ok(1)] Front_Back_represents [OF s(3)] Next_Prev_represents [OF s(3)] by blast
qed

theorem linked_lists_refine_sequences_witness:
  "\<exists>s. executeAll [PushBackOp 0 (5 :: nat), PushFrontOp 0 7, PushBackListOp 0 0, MoveToFrontOp 0 0] (emptyStore 0) = Inr s \<and>
    len s 0 = 4 \<and> Front 0 s = Some (Elem 0) \<and> Next (Elem 0) s = Some (Elem 1) \<and> Value (elem s (Elem 3)) = 5 \<and> Next (Elem 3) s = None"
proof -
  let ?ops = "[PushBackOp 0 (5 :: nat), PushFrontOp 0 7, PushBackListOp 0 0, MoveToFrontOp 0 0]"
  from linked_lists_refine_sequences [of ?ops 0] obtain s \<sigma> vs where s: "executeAll ?ops (emptyStore 0) = Inr s"
    "fold spec ?ops (\<lambda>_. [], []) = (\<sigma>, vs)" and all: "\<forall>l. len s l = int (length (\<sigma> l)) \<and>
      Front l s = (if \<sigma> l = [] then None else Some (Elem (hd (\<sigma> l)))) \<and>
      Back l s = (if \<sigma> l = [] then None else Some (Elem (last (\<sigma> l)))) \<and>
      (\<forall>xs e ys. \<sigma> l = xs @ e # ys \<longrightarrow> Value (elem s (Elem e)) = vs ! e \<and>
        Next (Elem e) s = (case ys of [] \<Rightarrow> None | y # _ \<Rightarrow> Some (Elem y)) \<and>
        Prev (Elem e) s = (if xs = [] then None else Some (Elem (last xs))))"
    by (elim exE conjE)
  note all0 = all [THEN HOL.spec [of _ 0]]
  note l = all0 [THEN conjunct1] all0 [THEN conjunct2, THEN conjunct1]
    and n = all0 [THEN conjunct2, THEN conjunct2, THEN conjunct2, rule_format]
  have "fst (fold spec ?ops (\<lambda>_. [], [])) 0 = [0, 1, 2, 3]" "snd (fold spec ?ops (\<lambda>_. [], [])) = [5, 7, 7, 5]" by simp_all
  then have \<sigma>: "\<sigma> 0 = [0, 1, 2, 3]" "vs = [5, 7, 7, 5]" unfolding s(2) by simp_all
  have "len s 0 = 4" "Front 0 s = Some (Elem 0)" using l by (simp_all add: \<sigma>)
  moreover have "Next (Elem 0) s = Some (Elem 1)" using n [of "[]" 0 "[1, 2, 3]"] by (simp add: \<sigma>)
  moreover have "Value (elem s (Elem 3)) = 5" "Next (Elem 3) s = None" using n [of "[0, 1, 2]" 3 "[]"] by (simp_all add: \<sigma>)
  ultimately show ?thesis using s(1) by (intro exI [of _ s] conjI)
qed

end
