(* ===== verification/Spec2Isabelle.thy ===== *)
theory Spec2Isabelle
  imports Prelude ByteOrder Float16 Protocol Qerr AckRanges AckFrame ClosePathFrame StreamFrame PublicHeader FrameCodec ControlFrames
    PathsFrame PacketUnpacker ReceivedPackets FrameSorter GoFloat Handshake
    ConnectionParameters FlowControl FlowLink
    RttStats Congestion Olia SentPackets PacketAccounting LossTimer LinkedList
begin

text \<open>
  A model of the multipath QUIC implementation in \<^verbatim>\<open>src/pstream\<close> (Go), a fork of quic-go that runs one
  connection over several network paths, and the theorems about it.

  \<^bold>\<open>The program.\<close> A session opens paths to its peer. Each path numbers its packets on its own and has a sent
  packet handler, a received packet handler, statistics and a congestion controller; streams and flow control
  belong to the session and are shared by the paths. A packet is a public header and an encrypted payload of
  frames. What comes in passes the parser of the header, the inference of the packet number, the unpacker and the
  handler of each frame: STREAM frames go to the frame sorter of their stream after the flow control has counted
  them, ACK and CLOSE_PATH frames to the sent packet handler. What goes out is written by the frames' writers, and
  recorded in the sent packet handler, whose timer retransmits what is not acknowledged.

  \<^bold>\<open>Conventions.\<close> Machine integers are words of their width, \<^verbatim>\<open>time.Time\<close> and \<^verbatim>\<open>time.Duration\<close> are
  numbers of nanoseconds, with \<open>int64\<close> written out where a calculation can overflow, and floats are rationals
  rounded as IEEE 754 does (\<^theory_text>\<open>GoFloat\<close>). A method takes its receiver and returns it changed; an error is \<open>Inl\<close>,
  a panic the error \<open>Panic\<close>; the clock is an argument. A reader is the list of bytes not read yet, a writer
  returns the bytes it appends. A definition has the name of the Go function, with a prefix where two types have a
  method of that name (\<open>fc_\<close> flow controller, \<open>swm_\<close> stop waiting manager, \<open>hss_\<close> hybrid slow start, \<open>prr_\<close>,
  \<open>cubic_\<close> and \<open>olia_\<close> for the congestion control, or the frame's type for \<^verbatim>\<open>Write\<close> and \<^verbatim>\<open>MinLength\<close>).
  Loops are recursive functions, the name often ending in \<open>Loop\<close> or \<open>_loop\<close>.

  \<^bold>\<open>Foundations.\<close>
  \<^item> \<^theory_text>\<open>Prelude\<close>: types, errors, parsers and generic lemmas on words and lists.
  \<^item> \<^theory_text>\<open>ByteOrder\<close> (\<^verbatim>\<open>internal/utils/byteorder*.go\<close>): both byte orders satisfy the laws of the locale
    \<open>byte_order_laws\<close>, that every writer is undone by the reader of its length; the frames use only these laws.
  \<^item> \<^theory_text>\<open>Float16\<close> (\<^verbatim>\<open>internal/utils/float16.go\<close>): the 16-bit floats round down with a relative error below
    \<open>2 ^ -11\<close>.
  \<^item> \<^theory_text>\<open>Protocol\<close> (\<^verbatim>\<open>internal/protocol\<close>) and \<^theory_text>\<open>Qerr\<close> (\<^verbatim>\<open>qerr\<close>): constants, versions, error
    codes; the truncated packet number determines the full one.
  \<^item> \<^theory_text>\<open>LinkedList\<close> (\<^verbatim>\<open>*_linkedlist.go\<close>): the circular doubly linked lists on a store of elements with their
    pointers, for any number of lists in the same store. Their operations never follow a nil pointer and refine
    those of plain sequences, with which the components that use these lists are modelled.

  \<^bold>\<open>The wire format\<close> (\<^verbatim>\<open>internal/wire\<close>, \<^verbatim>\<open>packet_unpacker.go\<close>).
  \<^item> \<^theory_text>\<open>AckRanges\<close>, \<^theory_text>\<open>AckFrame\<close> and \<^theory_text>\<open>ClosePathFrame\<close>: the ranges of received packets, whose code the two
    frames share, and the frames. What is written is read back, up to the ranges that fit; what is accepted is
    well-formed. The locale \<open>block_codec\<close> is interpreted for both frames.
  \<^item> \<^theory_text>\<open>StreamFrame\<close>, \<^theory_text>\<open>ControlFrames\<close> and \<^theory_text>\<open>PathsFrame\<close>: all other frames, with the same round trips.
    The control frames and PATHS interpret the locale \<open>frame_codec\<close> of \<^theory_text>\<open>FrameCodec\<close>, and so does the
    sum of all frames below.
  \<^item> \<^theory_text>\<open>PublicHeader\<close>: the header of a packet and the version negotiation packet.
  \<^item> \<^theory_text>\<open>PacketUnpacker\<close>: the payload. The locale \<open>payload_codec\<close> lifts the round trip of one frame to a padded
    sequence of frames; for arbitrary bytes every frame accepted is well-formed, and every error has one of the
    codes listed.
  \<^item> \<^theory_text>\<open>Handshake\<close> and \<^theory_text>\<open>ConnectionParameters\<close> (\<^verbatim>\<open>internal/handshake\<close>, \<^verbatim>\<open>public_reset.go\<close>): the
    messages of tags and values, the public reset, and the negotiation of the parameters by the two hellos.

  \<^bold>\<open>Receiving.\<close>
  \<^item> \<^theory_text>\<open>ReceivedPackets\<close> (\<^verbatim>\<open>ackhandler/received_packet_*.go\<close>): the history is a sorted list of intervals that
    refines a set of packet numbers (locale \<open>packet_set\<close>); the handler acknowledges within 25 ms.
  \<^item> \<^theory_text>\<open>FrameSorter\<close> (\<^verbatim>\<open>stream_frame_sorter.go\<close>): whatever arrives, in whatever order and with whatever
    overlaps, the stream is read in order and without loss.
  \<^item> \<^theory_text>\<open>FlowControl\<close> and \<^theory_text>\<open>FlowLink\<close> (\<^verbatim>\<open>internal/flowcontrol\<close>): memory stays bounded against any peer; for
    two endpoints of this code with a network that loses, repeats and reorders, no violation is ever reported and a
    blocked sender is unblocked.

  \<^bold>\<open>Sending.\<close>
  \<^item> \<^theory_text>\<open>RttStats\<close>, \<^theory_text>\<open>Congestion\<close> and \<^theory_text>\<open>Olia\<close> (\<^verbatim>\<open>congestion\<close>): statistics, CUBIC for the first path and the
    coupled OLIA for the others, with the bounds of the windows, the termination of the search loop, and a reference
    definition of OLIA's preference that \<^verbatim>\<open>getEpsilon\<close> implements while its products do not overflow.
  \<^item> \<^theory_text>\<open>SentPackets\<close> (\<^verbatim>\<open>ackhandler/sent_packet_handler.go\<close>, \<^verbatim>\<open>packet.go\<close>, \<^verbatim>\<open>retransmittable.go\<close>,
    \<^verbatim>\<open>stop_waiting_manager.go\<close>): the handler, for any controller given as a record of methods.
    \<^theory_text>\<open>PacketAccounting\<close> shows by rule induction on its runs that every packet is outstanding, acknowledged or
    queued, and that the bytes in flight are those outstanding. \<^theory_text>\<open>LossTimer\<close> has the timer: the locale
    \<open>send_algorithm\<close> states what it needs of a controller and is interpreted for CUBIC and OLIA.
  \<^item> This theory puts the two sides together: what is acknowledged is what was received.

  \<^bold>\<open>Termination.\<close> No definition has fuel. Every loop is structurally recursive or has a measure, except the
  search loop of \<^verbatim>\<open>CongestionWindowAfterAck\<close>, which is a partial function (\<open>estimateTCP\<close>, \<open>None\<close> when it does
  not return), and is shown to return in every reachable state.

  \<^bold>\<open>Parameters.\<close> The cube root of \<^verbatim>\<open>math\<close>, the text form of IPv6 addresses, the iteration order of the map of
  OLIA senders, the result of the AEAD and the callback of a path are arguments, and the theorems hold for all of
  them, with the hypotheses they state.

  \<^bold>\<open>Not modelled.\<close>
  \<^item> \<^verbatim>\<open>session.go\<close>, \<^verbatim>\<open>path.go\<close> (but for its controllers), \<^verbatim>\<open>path_manager.go\<close>, \<^verbatim>\<open>pconn_manager.go\<close>,
    \<^verbatim>\<open>client.go\<close>, \<^verbatim>\<open>server.go\<close>: goroutines over channels, timers and sockets. The run relations allow any order of
    the calls that these make.
  \<^item> \<^verbatim>\<open>stream.go\<close>, \<^verbatim>\<open>streams_map.go\<close>, \<^verbatim>\<open>stream_framer.go\<close>, \<^verbatim>\<open>stream_tree.go\<close> and \<^verbatim>\<open>packet_packer.go\<close> (but for
    the loop that writes the frames): blocking calls with condition variables, and the choice of frames, which
    rests on the schedulers and on the encryption.
  \<^item> \<^verbatim>\<open>scheduler.go\<close>, \<^verbatim>\<open>ytxing_scheduler.go\<close>, \<^verbatim>\<open>stream_scheduler.go\<close>, \<^verbatim>\<open>streamToPath.go\<close>: heuristics on
    measurements of the live state of all paths and streams. \<^verbatim>\<open>packet_number_generator.go\<close>: random numbers.
  \<^item> \<^verbatim>\<open>internal/crypto\<close> and the cryptographic handshake: packages that are not part of the sources.
  \<^item> \<^verbatim>\<open>h2quic\<close>, \<^verbatim>\<open>example\<close>, mocks, tools, logging: clients of the library and output.
  \<^item> \<^verbatim>\<open>UpdaterecentcwndMinRTT\<close> in \<^verbatim>\<open>rtt_stats.go\<close> with its setters, whose calls are commented out. Locks: an
    operation is one step.
\<close>

section \<open>Acknowledgements end to end\<close>

text \<open>The frame of the receiver as the sender gets it.\<close>

lemma ack_frame_delivered:
  assumes "handler_run v t R rh" "GetAckFrame now rh = Inr (Some ack, rh')" "\<forall>n \<in> R. unat n < 2 ^ 48"
    and "firstGapFits (AckFrame.AckRanges ack)" "ackBlocks (AckFrame.AckRanges ack) < 255"
  shows "\<exists>f bytes g. AckFrame_Write v' sent (ack\<lparr>AckFrame.PathID := pid\<rparr>) = Inr (f, bytes) \<and>
    ParseAckFrame v' (bytes @ rest) = Inr (g, rest) \<and> wf_AckFrame g \<and> AckFrame.LargestAcked g \<in> R \<and>
    (\<forall>p. AckFrame_AcksPacket g p \<longleftrightarrow> p \<in> R) \<and> - (2 ^ 63) \<le> DelayTime g"
proof -
  let ?f = "ack\<lparr>AckFrame.PathID := pid\<rparr>" and ?g = "receivedAck sent (ack\<lparr>AckFrame.PathID := pid\<rparr>)"
  have inv: "handler_inv t R rh" by (rule handler_run_inv [OF assms(1)])
  have due: "ackQueued rh \<or> ackAlarm rh \<noteq> zeroTime \<and> ackAlarm rh \<le> now" using assms(2) by (auto simp: GetAckFrame_def split: if_splits)
  have ack: "wf_ack (AckFrame.LargestAcked ack) (AckFrame.LowestAcked ack) (AckFrame.AckRanges ack)"
    "AckFrame.LargestAcked ack = largestObserved rh" "AckFrame.LowestAcked ack \<noteq> 0" "AckFrame_AcksPacket ack p \<longleftrightarrow> p \<in> R" for p
    using GetAckFrame_inv [OF inv due] assms(2) by auto
  have "R \<noteq> {}" using inv due by (auto simp: handler_inv_def)
  then have large: "AckFrame.LargestAcked ack \<in> R" using inv ack(2) by (auto simp: handler_inv_def split: if_splits)
  have wf: "wf_AckFrame ?f" "1 \<le> AckFrame.LowestAcked ?f" "firstGapFits (AckFrame.AckRanges ?f)"
    using ack(1,3) large assms(3,4) by (simp_all add: wf_AckFrame_def word_le_nat_alt unat_gt_0 Suc_le_eq)
  have all: "sentRanges (AckFrame.AckRanges ?f) = AckFrame.AckRanges ?f \<and> sentLowest (AckFrame.LowestAcked ?f) (AckFrame.AckRanges ?f) = AckFrame.LowestAcked ?f"
    using sentRanges_all [of "AckFrame.AckRanges ?f"] assms(5) ack(1)
    by (cases "AckFrame.AckRanges ?f = []") (auto simp: wf_ack_def sentLowest_def sentRanges_def)
  have "AckFrame_AcksPacket ?g p \<longleftrightarrow> p \<in> R" for p
    using all ack(4) [of p] by (simp add: AckFrame_AcksPacket_def receivedAck_def)
  moreover have "wf_AckFrame ?g" "AckFrame.LargestAcked ?g \<in> R" "- (2 ^ 63) \<le> DelayTime ?g"
    using all wf(1) large sint_greater_eq [where 'a = 64] by (simp_all add: wf_AckFrame_def receivedAck_def receivedDelay_def)
  ultimately show ?thesis using AckFrame_Write_parse [OF wf, of v' sent] by blast
qed

text \<open>
  C1. what is acknowledged is what was received. A receiver that has accepted the packets \<open>R\<close> of a path builds an ACK
  frame, the frame is written and parsed with any bytes behind it, and the sender of the path hands it to
  \<^verbatim>\<open>ReceivedAck\<close>: when \<open>R\<close> has only packets that were sent, none of them skipped, and the ranges fit the frame, the
  ACK is accepted, and the outstanding packets of \<open>R\<close>, no other ones, become acknowledged.
\<close>

theorem acknowledgement_end_to_end:
  assumes "handler_run v t R rh" "GetAckFrame now rh = Inr (Some ack, rh')"
    and "sender_run alg h S A Q" "\<forall>n \<in> R. n \<le> lastSentPacketNumber h \<and> n \<notin> set (skippedPackets h) \<and> unat n < 2 ^ 48"
    and "firstGapFits (AckFrame.AckRanges ack)" "ackBlocks (AckFrame.AckRanges ack) < 255"
    and "largestReceivedPacketWithAck h < pn" "\<forall>p \<in> set (SentPackets.packetHistory h). SendTime p < rcv"
  shows "\<exists>f bytes g h'. AckFrame_Write v' sent (ack\<lparr>AckFrame.PathID := pid\<rparr>) = Inr (f, bytes) \<and>
    ParseAckFrame v' (bytes @ rest) = Inr (g, rest) \<and> ReceivedAck alg later g pn rcv h = (None, h') \<and>
    sender_run alg h' S (A \<union> (outstanding h \<inter> R)) (Q \<union> queuedNow h h') \<and> outstanding h' \<inter> R = {}"
proof -
  have "\<forall>n \<in> R. unat n < 2 ^ 48" using assms(4) by blast
  from ack_frame_delivered [OF assms(1,2) this assms(5,6)] obtain f bytes g
    where w: "AckFrame_Write v' sent (ack\<lparr>AckFrame.PathID := pid\<rparr>) = Inr (f, bytes)" "ParseAckFrame v' (bytes @ rest) = Inr (g, rest)"
      and g: "wf_AckFrame g" "AckFrame.LargestAcked g \<in> R" "\<And>p. AckFrame_AcksPacket g p \<longleftrightarrow> p \<in> R" "- (2 ^ 63) \<le> DelayTime g"
    by blast
  have ok: "history_ok h" using sender_run_ok [OF assms(3)] by blast
  have "\<not> skippedPacketsAcked g h" using g(3) assms(4) by (auto simp: skippedPacketsAcked_def list_ex_iff)
  then obtain h' where h': "ReceivedAck alg later g pn rcv h = (None, h')"
    using ReceivedAck_accepts [OF ok g(1) _ assms(7) _ assms(8) g(4)] g(2) assms(4) by blast
  have "{n \<in> outstanding h. AckFrame_AcksPacket g n} = outstanding h \<inter> R" using g(3) by auto
  with s_ack [OF assms(3) g(1) h'] have run: "sender_run alg h' S (A \<union> (outstanding h \<inter> R)) (Q \<union> queuedNow h h')" by simp
  have "outstanding h' \<subseteq> outstanding h" using moved_ReceivedAck [OF ok g(1) h'] by (auto simp: moved_def numbers_def)
  then have "outstanding h' \<inter> R = {}" using sender_run_ok [OF run] unfolding accounted_def by blast
  then show ?thesis using w h' run by blast
qed

lemma exampleSent_sent:
  "lastSentPacketNumber exampleSent = 2" "skippedPackets exampleSent = []" "largestReceivedPacketWithAck exampleSent = 0"
  "list_all (\<lambda>p. SendTime p < 60000000) (SentPackets.packetHistory exampleSent)"
  by code_simp+

definition exampleReceiver :: receivedPacketHandler where
  "exampleReceiver = snd (ReceivedPacket 5000000 1 True (NewReceivedPacketHandler VersionMP))"

lemma exampleReceiver_eval:
  "fst (ReceivedPacket 5000000 1 True (NewReceivedPacketHandler VersionMP)) = None"
  "(case GetAckFrame 40000000 exampleReceiver of Inr (Some ack, _) \<Rightarrow> AckFrame.AckRanges ack = [] | _ \<Rightarrow> False)"
  by code_simp+

theorem acknowledgement_end_to_end_witness:
  "\<exists>g h'. ReceivedAck (cubicAlgorithm id) 60000000 g 1 60000000 exampleSent = (None, h') \<and> outstanding h' \<inter> {1} = {}"
proof -
  have "handler_run VersionMP 5000000 {1} exampleReceiver"
    using handler_run.packet [OF handler_run.start [of 0 VersionMP], of 5000000 1 True exampleReceiver] exampleReceiver_eval(1)
    by (simp add: prod_eq_iff exampleReceiver_def NewReceivedPacketHandler_def)
  moreover obtain ack rh' where ack: "GetAckFrame 40000000 exampleReceiver = Inr (Some ack, rh')" "AckFrame.AckRanges ack = []"
    using exampleReceiver_eval(2) by (auto split: sum.splits option.splits)
  ultimately show ?thesis
    using acknowledgement_end_to_end [OF _ ack(1) exampleSent_run, of _ _ "{1}" 1 60000000 VersionMP 41000000 0 "[]" 60000000] exampleSent_sent
    by (force simp: ack(2) firstGapFits_def list_all_iff)
qed

end
